(* ===== verification/Prelude.thy ===== *)
theory Prelude
  imports Main "HOL-Library.Word" "HOL-Library.Multiset"
begin

text \<open>
  Shared ground of the PulseMap development: the machine types of the Rust sources, the result
  type that carries a panic (or an out-of-bounds raw-pointer access) as a value, the pieces of
  the Rust standard library that the crate uses (checked indexing, \<^verbatim>\<open>copy_from_slice\<close>,
  \<^verbatim>\<open>Vec::push\<close>, \<^verbatim>\<open>next_power_of_two\<close>, \<^verbatim>\<open>trailing_zeros\<close>, little-endian
  conversion), and the generic lemmas on them.

  The target is a 64-bit platform built in release mode: \<^verbatim>\<open>usize\<close> has 64 bits, integer
  arithmetic wraps and a shift amount is reduced modulo the width.
\<close>

unbundle bit_operations_syntax

section \<open>Machine types and errors\<close>

type_synonym byte = "8 word"
type_synonym bytes = "byte list"
type_synonym u8 = "8 word"
type_synonym u16 = "16 word"
type_synonym u32 = "32 word"
type_synonym u64 = "64 word"
type_synonym usize = "64 word"

text \<open>
  The ways an operation can fail to return: the panics of safe Rust,
  \<^verbatim>\<open>UndefinedBehaviour\<close> for a raw-pointer access outside its allocation or a
  deallocation with the wrong layout, \<^verbatim>\<open>AssertionFailed\<close> for the assertions of a
  harness, and \<^verbatim>\<open>Stuck\<close> for a loop that never ends, such as spinning on a lock
  that the spinning thread itself holds.
\<close>

datatype rust_error =
    IndexOutOfBounds
  | UnwrapFailed
  | CapacityOverflow
  | SliceLength
  | UndefinedBehaviour
  | AssertionFailed
  | Stuck

type_synonym 'a res = "rust_error + 'a"

fun bindR :: "'a res \<Rightarrow> ('a \<Rightarrow> 'b res) \<Rightarrow> 'b res" where
  "bindR (Inl e) f = Inl e"
| "bindR (Inr x) f = f x"

section \<open>Standard library operations\<close>

text \<open>Indexing \<^verbatim>\<open>xs[i]\<close> panics out of range.\<close>

definition index :: "'a list \<Rightarrow> nat \<Rightarrow> 'a res" where
  "index xs i = (if i < length xs then Inr (xs ! i) else Inl IndexOutOfBounds)"

text \<open>
  A \<^verbatim>\<open>Vec\<close> of elements of \<open>sz\<close> bytes never exceeds \<^verbatim>\<open>isize::MAX\<close> bytes;
  growing past that panics with a capacity overflow.
\<close>

definition isize_max :: nat where
  "isize_max = 2 ^ 63 - 1"

definition vec_push :: "nat \<Rightarrow> 'a list \<Rightarrow> 'a \<Rightarrow> 'a list res" where
  "vec_push sz xs x =
     (if (length xs + 1) * sz \<le> isize_max then Inr (xs @ [x]) else Inl CapacityOverflow)"

text \<open>\<^verbatim>\<open>xs[off..off + ys.len()].copy_from_slice(ys)\<close>.\<close>

definition copy_into :: "'a list \<Rightarrow> nat \<Rightarrow> 'a list \<Rightarrow> 'a list res" where
  "copy_into xs off ys =
     (if off + length ys \<le> length xs
      then Inr (take off xs @ ys @ drop (off + length ys) xs)
      else Inl SliceLength)"

text \<open>The slice \<^verbatim>\<open>&xs[off..off + len]\<close> of an array that is long enough.\<close>

definition slice :: "'a list \<Rightarrow> nat \<Rightarrow> nat \<Rightarrow> 'a list" where
  "slice xs off len = take len (drop off xs)"

text \<open>
  \<^verbatim>\<open>usize::next_power_of_two\<close>: one more than the all-ones word as long as \<open>n - 1\<close>;
  for \<open>n > 2 ^ 63\<close> the release build wraps to 0.
\<close>

fun bit_length :: "nat \<Rightarrow> nat" where
  "bit_length n = (if n = 0 then 0 else Suc (bit_length (n div 2)))"

declare bit_length.simps [simp del]

definition next_power_of_two :: "nat \<Rightarrow> nat" where
  "next_power_of_two n = (if n \<le> 1 then 1 else 2 ^ bit_length (n - 1) mod 2 ^ 64)"

text \<open>\<^verbatim>\<open>u8::trailing_zeros\<close>: the position of the lowest set bit, 8 for 0.\<close>

definition trailing_zeros :: "u8 \<Rightarrow> nat" where
  "trailing_zeros m = length (takeWhile (\<lambda>i. \<not> bit m i) [0..<8])"

text \<open>\<^verbatim>\<open>v >> s\<close> and \<^verbatim>\<open>v << s\<close> on \<^verbatim>\<open>u64\<close> in release mode.\<close>

definition shr64 :: "u64 \<Rightarrow> nat \<Rightarrow> u64" where
  "shr64 v s = drop_bit (s mod 64) v"

definition shl64 :: "u64 \<Rightarrow> nat \<Rightarrow> u64" where
  "shl64 v s = push_bit (s mod 64) v"

text \<open>\<^verbatim>\<open>to_le_bytes\<close> and \<^verbatim>\<open>from_le_bytes\<close>; \<open>n\<close> is the width in bytes.\<close>

definition to_le :: "nat \<Rightarrow> 'a::len word \<Rightarrow> bytes" where
  "to_le n w = map (\<lambda>i. ucast (drop_bit (8 * i) w)) [0..<n]"

fun from_le :: "bytes \<Rightarrow> 'a::len word" where
  "from_le [] = 0"
| "from_le (b # bs) = ucast b OR push_bit 8 (from_le bs)"

text \<open>
  The candidate loop \<^verbatim>\<open>while m != 0 { i = m.trailing_zeros(); m &= m - 1; if test(i) ... }\<close>
  that every map operation runs over the match mask of a bucket: the first set bit whose test
  succeeds. Clearing the lowest set bit makes the mask smaller, so the loop stops.
\<close>

lemma bindR_cong [fundef_cong]:
  "m = m' \<Longrightarrow> (\<And>x. m' = Inr x \<Longrightarrow> f x = f' x) \<Longrightarrow> bindR m f = bindR m' f'"
  by (cases m') auto

lemma and_minus_one_less: "(m :: 'a::len word) \<noteq> 0 \<Longrightarrow> unat (m AND (m - 1)) < unat m"
proof -
  assume m: "m \<noteq> 0"
  have "m AND (m - 1) \<le> m - 1" by (rule word_and_le1)
  moreover have "unat (m - 1) < unat m" using m
    by (metis measure_unat)
  ultimately show ?thesis by (simp add: word_le_nat_alt)
qed

function match_loop :: "(nat \<Rightarrow> bool res) \<Rightarrow> u8 \<Rightarrow> nat option res" where
  "match_loop test m =
     (if m = 0 then Inr None
      else let i = trailing_zeros m
           in bindR (test i) (\<lambda>hit. if hit then Inr (Some i) else match_loop test (m AND (m - 1))))"
  by pat_completeness auto
termination
  by (relation "measure (\<lambda>(test, m). unat m)") (auto simp: and_minus_one_less)

declare match_loop.simps [simp del]

text \<open>
  A field of \<open>n\<close> bits at offset \<open>off\<close> of a packed word, the shape of every access to
  the metadata word.
\<close>

definition get_field :: "nat \<Rightarrow> nat \<Rightarrow> u64 \<Rightarrow> u64" where
  "get_field off n w = drop_bit off w AND mask n"

definition set_field :: "nat \<Rightarrow> nat \<Rightarrow> u64 \<Rightarrow> u64 \<Rightarrow> u64" where
  "set_field off n x w = (w AND NOT (push_bit off (mask n))) OR push_bit off (x AND mask n)"

section \<open>Collections of simplification rules\<close>

text \<open>
  \<open>res_simps\<close>: evaluating result-typed code on its success path.
  \<open>bitfield_simps\<close>: reading and writing the bit fields of a word.
\<close>

named_theorems res_simps
named_theorems bitfield_simps

section \<open>Results\<close>

lemma bindR_eq_Inr [simp]: "bindR m f = Inr y \<longleftrightarrow> (\<exists>x. m = Inr x \<and> f x = Inr y)"
  by (cases m) auto

lemma bindR_eq_Inl: "bindR m f = Inl e \<longleftrightarrow> m = Inl e \<or> (\<exists>x. m = Inr x \<and> f x = Inl e)"
  by (cases m) auto

lemma bindR_assoc: "bindR (bindR m f) g = bindR m (\<lambda>x. bindR (f x) g)"
  by (cases m) auto

lemma index_Inr [simp]: "index xs i = Inr x \<longleftrightarrow> i < length xs \<and> x = xs ! i"
  by (auto simp: index_def)

lemma index_ok [res_simps]: "i < length xs \<Longrightarrow> index xs i = Inr (xs ! i)"
  by simp

lemma copy_into_ok [res_simps]:
  "off + length ys \<le> length xs \<Longrightarrow>
     copy_into xs off ys = Inr (take off xs @ ys @ drop (off + length ys) xs)"
  by (simp add: copy_into_def)

lemma copy_into_length: "copy_into xs off ys = Inr zs \<Longrightarrow> length zs = length xs"
  by (auto simp: copy_into_def split: if_splits)

lemma vec_push_ok [res_simps]:
  "(length xs + 1) * sz \<le> isize_max \<Longrightarrow> vec_push sz xs x = Inr (xs @ [x])"
  by (simp add: vec_push_def)

section \<open>Powers of two\<close>

lemma bit_length_bounds: "n < 2 ^ bit_length n" and bit_length_lower: "0 < n \<Longrightarrow> 2 ^ bit_length n \<le> 2 * n"
proof -
  have "n < 2 ^ bit_length n \<and> (0 < n \<longrightarrow> 2 ^ bit_length n \<le> 2 * n)"
  proof (induction n rule: bit_length.induct)
    case (1 n)
    show ?case
    proof (cases "n = 0")
      case True
      then show ?thesis by (simp add: bit_length.simps)
    next
      case False
      with 1 have IH: "n div 2 < 2 ^ bit_length (n div 2)"
        "0 < n div 2 \<Longrightarrow> 2 ^ bit_length (n div 2) \<le> 2 * (n div 2)" by auto
      have eq: "bit_length n = Suc (bit_length (n div 2))"
        using False by (simp add: bit_length.simps [of n])
      show ?thesis
      proof (cases "n div 2 = 0")
        case True
        with False have "n = 1" by auto
        then show ?thesis using eq True by (simp add: bit_length.simps)
      next
        case nz: False
        with IH show ?thesis unfolding eq by auto
      qed
    qed
  qed
  then show "n < 2 ^ bit_length n" and "0 < n \<Longrightarrow> 2 ^ bit_length n \<le> 2 * n" by auto
qed

lemma bit_length_le: "n < 2 ^ k \<Longrightarrow> bit_length n \<le> k"
proof (rule ccontr)
  assume "n < 2 ^ k" and "\<not> bit_length n \<le> k"
  then have "0 < n" by (cases "n = 0") (auto simp: bit_length.simps)
  then have "2 ^ bit_length n \<le> 2 * n" by (rule bit_length_lower)
  moreover have "(2::nat) ^ Suc k \<le> 2 ^ bit_length n"
    using \<open>\<not> bit_length n \<le> k\<close> by (intro power_increasing) auto
  ultimately show False using \<open>n < 2 ^ k\<close> by simp
qed

lemma next_power_of_two_le:
  assumes "n \<le> 2 ^ k" and "k \<le> 63"
  obtains j where "next_power_of_two n = 2 ^ j" and "j \<le> k"
proof (cases "n \<le> 1")
  case True
  then show ?thesis using that [of 0] by (simp add: next_power_of_two_def)
next
  case False
  with assms(1) have "n - 1 < 2 ^ k" by auto
  then have le: "bit_length (n - 1) \<le> k" by (rule bit_length_le)
  with assms(2) have "(2::nat) ^ bit_length (n - 1) < 2 ^ 64"
    by (intro power_strict_increasing) auto
  then have "next_power_of_two n = 2 ^ bit_length (n - 1)"
    using False by (simp add: next_power_of_two_def)
  then show ?thesis using that le by blast
qed

lemma next_power_of_two_ge: "n \<le> 2 ^ 63 \<Longrightarrow> n \<le> next_power_of_two n"
proof -
  assume n: "n \<le> 2 ^ 63"
  show ?thesis
  proof (cases "n \<le> 1")
    case True
    then show ?thesis by (simp add: next_power_of_two_def)
  next
    case False
    then have "n - 1 < 2 ^ bit_length (n - 1)" by (intro bit_length_bounds)
    moreover have "bit_length (n - 1) \<le> 63" using n False by (intro bit_length_le) auto
    then have "(2::nat) ^ bit_length (n - 1) < 2 ^ 64"
      by (intro power_strict_increasing) auto
    ultimately show ?thesis using False by (simp add: next_power_of_two_def)
  qed
qed

lemma next_power_of_two_less_double: "0 < n \<Longrightarrow> next_power_of_two n < 2 * n"
proof -
  assume n: "0 < n"
  show ?thesis
  proof (cases "n \<le> 1")
    case True
    with n show ?thesis by (simp add: next_power_of_two_def)
  next
    case False
    then have "2 ^ bit_length (n - 1) \<le> 2 * (n - 1)" by (intro bit_length_lower) auto
    moreover have "(2::nat) ^ bit_length (n - 1) mod 2 ^ 64 \<le> 2 ^ bit_length (n - 1)" by simp
    ultimately show ?thesis using False unfolding next_power_of_two_def by simp
  qed
qed

section \<open>The candidate loop\<close>

text \<open>The loop visits the set bits of a four-bit mask in increasing order.\<close>

lemma small_mask_cases: "(m :: u8) < 16 \<Longrightarrow> m \<in> set (map word_of_nat [0..<16])"
  by (auto simp: word_less_nat_alt intro!: image_eqI [of _ _ "unat m"])

lemma mask_scan_all:
  "list_all (\<lambda>m :: u8. m = 0 \<or>
      (filter (bit m) [0..<4] = trailing_zeros m # filter (bit (m AND (m - 1))) [0..<4]
       \<and> m AND (m - 1) < 16))
    (map word_of_nat [0..<16])"
  by code_simp

lemma match_loop_eq:
  assumes "m < 16" and "\<And>i. i < 4 \<Longrightarrow> bit m i \<Longrightarrow> test i = Inr (P i)"
  shows "match_loop test m = Inr (find P (filter (bit m) [0..<4]))"
  using assms
proof (induction test m rule: match_loop.induct)
  case (1 test m)
  show ?case
  proof (cases "m = 0")
    case True
    then show ?thesis by (simp add: match_loop.simps)
  next
    case False
    let ?n = "m AND (m - 1)"
    have sc: "filter (bit m) [0..<4] = trailing_zeros m # filter (bit ?n) [0..<4]" "?n < 16"
      using mask_scan_all small_mask_cases [OF "1.prems"(1)] False unfolding list_all_iff by blast+
    have tz: "trailing_zeros m < 4" "bit m (trailing_zeros m)"
      using arg_cong [OF sc(1), of set] by auto
    have sub: "bit m i" if "bit ?n i" for i using that by (simp add: bit_and_iff)
    have t: "test (trailing_zeros m) = Inr (P (trailing_zeros m))" using 1(3) tz by blast
    have "match_loop test ?n = Inr (find P (filter (bit ?n) [0..<4]))" if "\<not> P (trailing_zeros m)"
      using "1.IH" [OF False refl t that] sc(2) "1.prems"(2) sub by blast
    then show ?thesis using False t sc(1) by (simp add: match_loop.simps [of test m] Let_def)
  qed
qed
section \<open>Bit fields\<close>

lemma get_set_same [bitfield_simps]:
  "off + n \<le> 64 \<Longrightarrow> get_field off n (set_field off n x w) = x AND mask n"
  by (rule bit_eqI) (auto simp: get_field_def set_field_def bit_simps)

lemma get_set_other [bitfield_simps]:
  "off + n \<le> off' \<or> off' + n' \<le> off \<Longrightarrow> get_field off' n' (set_field off n x w) = get_field off' n' w"
  by (rule bit_eqI) (auto simp: get_field_def set_field_def bit_simps dest: bit_imp_le_length)

lemma set_field_commute:
  "off + n \<le> off' \<or> off' + n' \<le> off \<Longrightarrow> set_field off' n' y (set_field off n x w) = set_field off n x (set_field off' n' y w)"
  by (rule bit_eqI) (auto simp: set_field_def bit_simps)

lemma masks: "(0x03::u64) = mask 2" "(0x7F::u64) = mask 7" "(1::u64) = mask 1"
  by (simp_all add: mask_eq_exp_minus_1)

section \<open>Little-endian bytes\<close>

lemma bit_from_le:
  "bit (from_le bs :: 'a::len word) i \<longleftrightarrow>
     i < LENGTH('a) \<and> i div 8 < length bs \<and> bit (bs ! (i div 8)) (i mod 8)"
proof (induction bs arbitrary: i)
  case Nil
  then show ?case by simp
next
  case (Cons b bs)
  show ?case
  proof (cases "i < 8")
    case True
    then show ?thesis by (auto simp: bit_simps)
  next
    case False
    have e: "i div 8 = Suc ((i - 8) div 8)" "(i - 8) mod 8 = i mod 8"
      using False by (simp_all add: le_div_geq le_mod_geq)
    have nb: "\<not> bit b i" using False bit_imp_le_length by fastforce
    show ?thesis using Cons.IH [of "i - 8"] False nb
      by (auto simp: bit_simps e)
  qed
qed

lemma length_to_le [simp]: "length (to_le n w) = n"
  by (simp add: to_le_def)

lemma nth_to_le [simp]: "i < n \<Longrightarrow> to_le n w ! i = ucast (drop_bit (8 * i) w)"
  by (simp add: to_le_def)

lemma from_to_le: "LENGTH('a) \<le> 8 * n \<Longrightarrow> from_le (to_le n w) = (w :: 'a::len word)"
proof (rule bit_eqI)
  fix i assume n: "LENGTH('a) \<le> 8 * n" and "possible_bit TYPE('a word) i"
  then have i: "i < LENGTH('a)" by simp
  with n have d: "i div 8 < n" by auto
  have "8 * (i div 8) + i mod 8 = i" by simp
  with i d show "bit (from_le (to_le n w) :: 'a word) i = bit w i"
    by (simp add: bit_from_le bit_simps)
qed

lemma to_from_le: "8 * length bs \<le> LENGTH('a) \<Longrightarrow> to_le (length bs) (from_le bs :: 'a::len word) = bs"
proof (rule nth_equalityI)
  fix i assume n: "8 * length bs \<le> LENGTH('a)" and "i < length (to_le (length bs) (from_le bs :: 'a word))"
  then have i: "i < length bs" by simp
  show "to_le (length bs) (from_le bs :: 'a word) ! i = bs ! i"
  proof (rule bit_eqI)
    fix j assume "possible_bit TYPE(8 word) j"
    then have j: "j < 8" by simp
    then have "(8 * i + j) div 8 = i" "(8 * i + j) mod 8 = j" by auto
    moreover have "8 * i + j < LENGTH('a)" using i j n by linarith
    ultimately show "bit (to_le (length bs) (from_le bs :: 'a word) ! i) j = bit (bs ! i) j"
      using i j by (simp add: bit_from_le bit_simps)
  qed
qed simp

lemma to_le_inj: "LENGTH('a) \<le> 8 * n \<Longrightarrow> to_le n (w::'a::len word) = to_le n w' \<longleftrightarrow> w = w'"
  by (metis from_to_le)
end
