(* ===== verification/Meta.thy ===== *)
theory Meta
  imports Prelude
begin

text \<open>
  The metadata word of a bucket: \<^verbatim>\<open>src/src/engine/meta.rs\<close>, the slot states of
  \<^verbatim>\<open>src/src/lib.rs\<close> and the SSE2 matcher of \<^verbatim>\<open>src/src/simd.rs\<close>.
  One 64-bit word packs four 2-bit states (bits 56..63), four 7-bit fingerprints (28..55) and
  four 7-bit priorities (0..27; frequency in the upper four bits, recency in the lower three).
  A slot number is a natural number below 4.
\<close>

section \<open>Slot states\<close>

datatype slot_state = Empty | Full | Tombstone

definition from_bits :: "u8 \<Rightarrow> slot_state" where
  "from_bits bits =
     (let b = bits AND 0x03 in
      if b = 1 then Full else if b = 2 then Tombstone else Empty)"

fun state_bits :: "slot_state \<Rightarrow> u64" where
  "state_bits Empty = 0"
| "state_bits Full = 1"
| "state_bits Tombstone = 2"

section \<open>Field access\<close>

definition meta_empty :: u64 where
  "meta_empty = 0"

definition get_state :: "u64 \<Rightarrow> nat \<Rightarrow> slot_state" where
  "get_state v slot = from_bits (ucast (shr64 v (56 + slot * 2) AND 0x03))"

definition set_state :: "u64 \<Rightarrow> nat \<Rightarrow> slot_state \<Rightarrow> u64" where
  "set_state v slot st =
     (let shift = 56 + slot * 2; v = v AND NOT (shl64 0x03 shift)
      in v OR shl64 (state_bits st) shift)"

definition get_h2 :: "u64 \<Rightarrow> nat \<Rightarrow> u8" where
  "get_h2 v slot = ucast (shr64 v (28 + slot * 7) AND 0x7F)"

definition set_h2 :: "u64 \<Rightarrow> nat \<Rightarrow> u8 \<Rightarrow> u64" where
  "set_h2 v slot h2 =
     (let shift = 28 + slot * 7; v = v AND NOT (shl64 0x7F shift)
      in v OR shl64 (ucast (h2 AND 0x7F)) shift)"

definition get_priority :: "u64 \<Rightarrow> nat \<Rightarrow> u8" where
  "get_priority v slot = ucast (shr64 v (slot * 7) AND 0x7F)"

definition set_priority :: "u64 \<Rightarrow> nat \<Rightarrow> u8 \<Rightarrow> u64" where
  "set_priority v slot prio =
     (let shift = slot * 7; v = v AND NOT (shl64 0x7F shift)
      in v OR shl64 (ucast (prio AND 0x7F)) shift)"

section \<open>Scanning\<close>

text \<open>\<^verbatim>\<open>match_mask_branchless_raw\<close>; a Rust comparison cast to \<^verbatim>\<open>u8\<close> is \<open>of_bool\<close>.\<close>

definition match_mask_branchless_raw :: "u64 \<Rightarrow> u8 \<Rightarrow> u8" where
  "match_mask_branchless_raw v h2 =
     (let h2 = h2 AND 0x7F;
          s0 = (ucast (shr64 v 56 AND 0x03) :: u8);
          s1 = (ucast (shr64 v 58 AND 0x03) :: u8);
          s2 = (ucast (shr64 v 60 AND 0x03) :: u8);
          s3 = (ucast (shr64 v 62 AND 0x03) :: u8);
          h0 = (ucast (shr64 v 28 AND 0x7F) :: u8);
          h1 = (ucast (shr64 v 35 AND 0x7F) :: u8);
          h2_2 = (ucast (shr64 v 42 AND 0x7F) :: u8);
          h3 = (ucast (shr64 v 49 AND 0x7F) :: u8);
          mask = 0 OR (of_bool (s0 = 1) AND of_bool (h0 = h2));
          mask = mask OR push_bit 1 (of_bool (s1 = 1) AND of_bool (h1 = h2));
          mask = mask OR push_bit 2 (of_bool (s2 = 1) AND of_bool (h2_2 = h2));
          mask = mask OR push_bit 3 (of_bool (s3 = 1) AND of_bool (h3 = h2))
      in mask)"

definition match_mask_branchless :: "u64 \<Rightarrow> u8 \<Rightarrow> u8" where
  "match_mask_branchless v h2 = match_mask_branchless_raw v h2"

text \<open>
  The SSE2 intrinsics on a vector of sixteen bytes, element 0 first:
  \<^verbatim>\<open>_mm_set_epi8\<close> lists its arguments from element 15 down, \<^verbatim>\<open>_mm_cmpeq_epi8\<close>
  gives all ones where the elements agree, \<^verbatim>\<open>_mm_movemask_epi8\<close> collects the top bits.
\<close>

definition mm_set_epi8 :: "u8 list \<Rightarrow> u8 list" where
  "mm_set_epi8 es = rev es"

definition mm_set1_epi8 :: "u8 \<Rightarrow> u8 list" where
  "mm_set1_epi8 e = replicate 16 e"

definition mm_cmpeq_epi8 :: "u8 list \<Rightarrow> u8 list \<Rightarrow> u8 list" where
  "mm_cmpeq_epi8 xs ys = map2 (\<lambda>x y. if x = y then 0xFF else 0) xs ys"

definition mm_movemask_epi8 :: "u8 list \<Rightarrow> u32" where
  "mm_movemask_epi8 xs = fold (\<lambda>i acc. acc OR push_bit i (of_bool (bit (xs ! i) 7))) [0..<16] 0"

definition match_mask_simd :: "u64 \<Rightarrow> u8 \<Rightarrow> u8" where
  "match_mask_simd meta_raw h2 =
     (let h2 = h2 AND 0x7F;
          h0 = (ucast (shr64 meta_raw 28 AND 0x7F) :: u8);
          h1 = (ucast (shr64 meta_raw 35 AND 0x7F) :: u8);
          h2_2 = (ucast (shr64 meta_raw 42 AND 0x7F) :: u8);
          h3 = (ucast (shr64 meta_raw 49 AND 0x7F) :: u8);
          h2s = mm_set_epi8 [0, 0, 0, 0, 0, 0, 0, 0, 0, 0, 0, 0, h3, h2_2, h1, h0];
          target = mm_set1_epi8 h2;
          cmp = mm_cmpeq_epi8 h2s target;
          h2_match = (ucast (mm_movemask_epi8 cmp AND 0x0F) :: u8);
          s0 = (ucast (shr64 meta_raw 56 AND 0x03) :: u8);
          s1 = (ucast (shr64 meta_raw 58 AND 0x03) :: u8);
          s2 = (ucast (shr64 meta_raw 60 AND 0x03) :: u8);
          s3 = (ucast (shr64 meta_raw 62 AND 0x03) :: u8);
          full_mask = of_bool (s0 = 1) OR push_bit 1 (of_bool (s1 = 1))
                      OR push_bit 2 (of_bool (s2 = 1)) OR push_bit 3 (of_bool (s3 = 1))
      in h2_match AND full_mask)"

text \<open>
  The default build (no \<^verbatim>\<open>simd\<close> feature) dispatches to the branchless matcher; the two
  are equal on every input (\<open>match_mask_simd_eq\<close> below).
\<close>

definition match_mask :: "u64 \<Rightarrow> u8 \<Rightarrow> u8" where
  "match_mask v h2 = match_mask_branchless_raw v h2"

definition find_free_slot :: "u64 \<Rightarrow> nat option" where
  "find_free_slot v =
     find (\<lambda>i. from_bits (ucast (shr64 v (56 + i * 2) AND 0x03)) \<noteq> Full) [0..<4]"

text \<open>One round of the victim loop over \<open>(min_prio, min_slot)\<close>.\<close>

definition evict_step :: "u64 \<Rightarrow> nat \<Rightarrow> u8 \<times> nat option \<Rightarrow> u8 \<times> nat option" where
  "evict_step v i acc =
     (case acc of (min_prio, min_slot) \<Rightarrow>
        if from_bits (ucast (shr64 v (56 + i * 2) AND 0x03)) = Full
        then let p = ucast (shr64 v (i * 7) AND 0x7F)
             in if min_slot = None \<or> p < min_prio then (p, Some i) else (min_prio, min_slot)
        else (min_prio, min_slot))"

definition find_evict_target :: "u64 \<Rightarrow> nat option" where
  "find_evict_target v = snd (fold (evict_step v) [0..<4] (0xFF, None))"

section \<open>Priority updates\<close>

text \<open>
  The body of the compare-and-swap loop of \<^verbatim>\<open>on_access\<close>: the new word computed from the
  loaded one. With no concurrent writer the exchange succeeds on this value; the interleaved
  loop is modelled in \<open>Meta_Cas\<close>.
\<close>

definition decay_step :: "nat \<Rightarrow> nat \<Rightarrow> u64 \<Rightarrow> u64" where
  "decay_step slot i new_val =
     (if i \<noteq> slot \<and> from_bits (ucast (shr64 new_val (56 + i * 2) AND 0x03)) = Full
      then let other_shift = i * 7;
               p = (ucast (shr64 new_val other_shift AND 0x7F) :: u8);
               r = p AND 0x07
           in if 0 < r
              then let decayed = (p AND 0x78) OR (r - 1);
                       new_val = new_val AND NOT (shl64 0x7F other_shift)
                   in new_val OR shl64 (ucast (decayed AND 0x7F)) other_shift
              else new_val
      else new_val)"

definition on_access :: "u64 \<Rightarrow> nat \<Rightarrow> u64" where
  "on_access current slot =
     (let new_val = current;
          prio_shift = slot * 7;
          prio = (ucast (shr64 new_val prio_shift AND 0x7F) :: u8);
          freq = drop_bit 3 prio AND 0x0F;
          new_freq = (if freq < 15 then freq + 1 else 15);
          new_prio = push_bit 3 new_freq OR 0x07;
          new_val = new_val AND NOT (shl64 0x7F prio_shift);
          new_val = new_val OR shl64 (ucast (new_prio AND 0x7F)) prio_shift
      in fold (decay_step slot) [0..<4] new_val)"

definition on_insert :: "u64 \<Rightarrow> nat \<Rightarrow> u64" where
  "on_insert v slot = set_priority v slot 0x01"

section \<open>Reading a priority\<close>

text \<open>
  The two halves of a 7-bit priority, and what an access makes of the priority of the accessed
  slot (\<open>boost\<close>) and of its Full neighbours (\<open>decay\<close>).
\<close>

definition frequency :: "u8 \<Rightarrow> nat" where
  "frequency p = unat p div 8"

definition recency :: "u8 \<Rightarrow> nat" where
  "recency p = unat p mod 8"

definition boost :: "u8 \<Rightarrow> u8" where
  "boost prio =
     (let freq = drop_bit 3 prio AND 0x0F; new_freq = (if freq < 15 then freq + 1 else 15)
      in push_bit 3 new_freq OR 0x07)"

definition decay :: "u8 \<Rightarrow> u8" where
  "decay p = (let r = p AND 0x07 in if 0 < r then (p AND 0x78) OR (r - 1) else p)"

text \<open>What the victim loop knows after the slots below \<open>n\<close>.\<close>

definition evict_inv :: "u64 \<Rightarrow> nat \<Rightarrow> u8 \<times> nat option \<Rightarrow> bool" where
  "evict_inv v n acc \<longleftrightarrow>
     (case snd acc of
        None \<Rightarrow> \<forall>i<n. get_state v i \<noteq> Full
      | Some j \<Rightarrow> j < n \<and> get_state v j = Full \<and> fst acc = get_priority v j
          \<and> (\<forall>i<n. get_state v i = Full \<longrightarrow> get_priority v j \<le> get_priority v i)
          \<and> (\<forall>i<j. get_state v i = Full \<longrightarrow> get_priority v j < get_priority v i))"

section \<open>The fields as bit ranges\<close>

lemma from_bits_state_bits [simp]: "from_bits (ucast (state_bits st)) = st"
  by (cases st) (simp_all add: from_bits_def)

lemma state_bits_mask [simp]: "state_bits st AND mask 2 = state_bits st"
  by (cases st) (simp_all flip: masks)

lemma and7F: "(0x7F :: u8) = mask 7"
  by (simp add: mask_eq_exp_minus_1)

lemma ucast_and7F: "ucast ((x :: u8) AND 0x7F) = (ucast x :: u64) AND mask 7"
  by (rule bit_eqI) (auto simp: and7F bit_simps)

lemma ucast_mask7 [simp]: "ucast ((ucast (x :: u8) :: u64) AND mask 7) = x AND (0x7F :: u8)"
  by (rule bit_eqI) (auto simp: and7F bit_simps)

lemma get_state_field: "i < 4 \<Longrightarrow> get_state v i = from_bits (ucast (get_field (56 + i * 2) 2 v))"
  by (simp add: get_state_def get_field_def shr64_def masks)

lemma set_state_field: "i < 4 \<Longrightarrow> set_state v i st = set_field (56 + i * 2) 2 (state_bits st) v"
  by (simp add: set_state_def set_field_def shl64_def masks Let_def)

lemma get_h2_field: "i < 4 \<Longrightarrow> get_h2 v i = ucast (get_field (28 + i * 7) 7 v)"
  by (simp add: get_h2_def get_field_def shr64_def masks)

lemma set_h2_field: "i < 4 \<Longrightarrow> set_h2 v i h = set_field (28 + i * 7) 7 (ucast h) v"
  by (simp add: set_h2_def set_field_def shl64_def masks Let_def ucast_and7F)

lemma get_priority_field: "i < 4 \<Longrightarrow> get_priority v i = ucast (get_field (i * 7) 7 v)"
  by (simp add: get_priority_def get_field_def shr64_def masks)

lemma set_priority_field: "i < 4 \<Longrightarrow> set_priority v i p = set_field (i * 7) 7 (ucast p) v"
  by (simp add: set_priority_def set_field_def shl64_def masks Let_def ucast_and7F)

lemmas meta_fields = get_state_field set_state_field get_h2_field set_h2_field
  get_priority_field set_priority_field

lemma get_set_state [simp]:
  "i < 4 \<Longrightarrow> j < 4 \<Longrightarrow> get_state (set_state v i st) j = (if i = j then st else get_state v j)"
  by (cases i j rule: linorder_cases) (simp_all add: meta_fields bitfield_simps)

lemma get_set_h2 [simp]:
  "i < 4 \<Longrightarrow> j < 4 \<Longrightarrow> get_h2 (set_h2 v i h) j = (if i = j then h AND 0x7F else get_h2 v j)"
  by (cases i j rule: linorder_cases) (simp_all add: meta_fields bitfield_simps)

lemma get_set_priority [simp]:
  "i < 4 \<Longrightarrow> j < 4 \<Longrightarrow> get_priority (set_priority v i p) j = (if i = j then p AND 0x7F else get_priority v j)"
  by (cases i j rule: linorder_cases) (simp_all add: meta_fields bitfield_simps)

lemma meta_frame [simp]:
  assumes "i < 4" and "j < 4"
  shows "get_state (set_h2 v i h) j = get_state v j"
    and "get_state (set_priority v i p) j = get_state v j"
    and "get_h2 (set_state v i st) j = get_h2 v j"
    and "get_h2 (set_priority v i p) j = get_h2 v j"
    and "get_priority (set_state v i st) j = get_priority v j"
    and "get_priority (set_h2 v i h) j = get_priority v j"
  using assms by (simp_all add: meta_fields bitfield_simps)

lemma on_insert_fields [simp]:
  assumes "i < 4" and "j < 4"
  shows "get_state (on_insert v i) j = get_state v j"
    and "get_h2 (on_insert v i) j = get_h2 v j"
    and "get_priority (on_insert v i) j = (if i = j then 1 else get_priority v j)"
  using assms by (simp_all add: on_insert_def)

lemma get_h2_bound: "i < 4 \<Longrightarrow> get_h2 v i AND 0x7F = get_h2 v i"
  by (rule bit_eqI) (auto simp: meta_fields get_field_def and7F bit_simps)

lemma get_priority_less: "get_priority v i < 128"
proof -
  have "get_priority v i AND 0x7F = get_priority v i"
    by (rule bit_eqI) (auto simp: get_priority_def and7F masks bit_simps)
  moreover have "get_priority v i AND 0x7F \<le> 0x7F" by (rule word_and_le1)
  ultimately have "get_priority v i \<le> 0x7F" by simp
  then show ?thesis by (simp add: word_le_nat_alt word_less_nat_alt)
qed

section \<open>Scanning\<close>

lemma and03: "(0x03 :: u8) = mask 2"
  by (simp add: mask_eq_exp_minus_1)

lemma from_bits_Full: "from_bits (ucast (x AND 0x03 :: u64)) = Full \<longleftrightarrow> (ucast (x AND 0x03) :: u8) = 1"
proof -
  have "(ucast (x AND 0x03) :: u8) AND 0x03 = ucast (x AND 0x03)"
    by (rule bit_eqI) (auto simp: bit_simps masks and03)
  then show ?thesis by (simp add: from_bits_def Let_def)
qed

lemma bit_match_mask_branchless:
  "bit (match_mask_branchless_raw v h) i \<longleftrightarrow>
     i < 4 \<and> get_state v i = Full \<and> get_h2 v i = h AND 0x7F"
proof -
  consider "i = 0" | "i = 1" | "i = 2" | "i = 3" | "4 \<le> i" by linarith
  then show ?thesis
    by cases (auto simp: match_mask_branchless_raw_def Let_def get_state_def get_h2_def
        from_bits_Full bit_simps)
qed

lemma bit_movemask:
  "length xs = 16 \<Longrightarrow> bit (mm_movemask_epi8 xs) i \<longleftrightarrow> i < 16 \<and> bit (xs ! i) 7"
  unfolding mm_movemask_epi8_def
proof -
  have "bit (fold (\<lambda>i acc. acc OR push_bit i (of_bool (bit (xs ! i) 7))) [0..<n] 0 :: u32) i
      \<longleftrightarrow> i < n \<and> bit (xs ! i) 7" if "n \<le> 16" for n
    using that by (induction n) (auto simp: bit_simps less_Suc_eq)
  then show "bit (fold (\<lambda>i acc. acc OR push_bit i (of_bool (bit (xs ! i) 7))) [0..<16] 0 :: u32) i
      \<longleftrightarrow> i < 16 \<and> bit (xs ! i) 7" by simp
qed

lemma bit_0x0F: "bit (0x0F :: u32) i \<longleftrightarrow> i < 4"
  using bit_mask_iff [where ?'a = u32, of 4 i] by (auto simp: mask_eq_exp_minus_1)

lemma bit_match_mask_simd:
  "bit (match_mask_simd v h) i \<longleftrightarrow> i < 4 \<and> get_state v i = Full \<and> get_h2 v i = h AND 0x7F"
proof -
  have ones: "bit (- 1 :: u8) 7" "(0xFF :: u8) = - 1" by simp_all
  consider "i = 0" | "i = 1" | "i = 2" | "i = 3" | "4 \<le> i" by linarith
  then show ?thesis
    by cases (auto simp: match_mask_simd_def Let_def get_state_def get_h2_def mm_set_epi8_def
        mm_set1_epi8_def mm_cmpeq_epi8_def bit_movemask from_bits_Full bit_simps bit_0x0F)
qed

lemma match_mask_simd_eq: "match_mask_simd v h = match_mask_branchless_raw v h"
  by (rule bit_eqI) (simp add: bit_match_mask_simd bit_match_mask_branchless)

lemma bit_match_mask:
  "bit (match_mask v h) i \<longleftrightarrow> i < 4 \<and> get_state v i = Full \<and> get_h2 v i = h AND 0x7F"
  by (simp add: match_mask_def bit_match_mask_branchless)

lemma match_mask_less: "match_mask v h < 16"
proof -
  have "match_mask v h = take_bit 4 (match_mask v h)"
    by (rule bit_eqI) (auto simp: bit_simps bit_match_mask)
  then have "match_mask v h = match_mask v h AND mask 4" by (simp add: take_bit_eq_mask)
  then have "match_mask v h \<le> mask 4" by (metis word_and_le1)
  then show ?thesis by (simp add: mask_eq_exp_minus_1 word_le_nat_alt word_less_nat_alt)
qed

lemma find_free_slot_eq: "find_free_slot v = find (\<lambda>i. get_state v i \<noteq> Full) [0..<4]"
  by (simp add: find_free_slot_def get_state_def)

lemma find_upt_Some: "find P [0..<n] = Some i \<longleftrightarrow> i < n \<and> P i \<and> (\<forall>j<i. \<not> P j)"
  by (auto simp: find_Some_iff)

lemma find_upt_None: "find P [0..<n] = None \<longleftrightarrow> (\<forall>j<n. \<not> P j)"
  by (auto simp: find_None_iff)

lemma evict_step_eq:
  "evict_step v i (mp, ms) =
     (if get_state v i = Full \<and> (ms = None \<or> get_priority v i < mp)
      then (get_priority v i, Some i) else (mp, ms))"
  by (simp add: evict_step_def get_state_def get_priority_def Let_def)

lemma evict_fold_inv: "evict_inv v n (fold (evict_step v) [0..<n] (0xFF, None))"
proof (induction n)
  case 0
  then show ?case by (simp add: evict_inv_def)
next
  case (Suc n)
  obtain mp ms where acc: "fold (evict_step v) [0..<n] (0xFF, None) = (mp, ms)" by fastforce
  with Suc have "evict_inv v n (mp, ms)" by simp
  then have "evict_inv v (Suc n) (evict_step v n (mp, ms))"
    by (force simp: evict_inv_def evict_step_eq less_Suc_eq not_less split: option.splits if_splits)
  then show ?case by (simp add: acc)
qed

lemma find_evict_target_None:
  "find_evict_target v = None \<longleftrightarrow> (\<forall>i<4. get_state v i \<noteq> Full)"
  using evict_fold_inv [of v 4] unfolding find_evict_target_def evict_inv_def
  by (auto split: option.splits)

lemma find_evict_target_Some:
  assumes "find_evict_target v = Some j"
  shows "j < 4" and "get_state v j = Full"
    and "\<And>i. i < 4 \<Longrightarrow> get_state v i = Full \<Longrightarrow> get_priority v j \<le> get_priority v i"
    and "\<And>i. i < j \<Longrightarrow> get_state v i = Full \<Longrightarrow> get_priority v j < get_priority v i"
  using evict_fold_inv [of v 4] assms unfolding find_evict_target_def evict_inv_def
  by (auto split: option.splits)

section \<open>Priorities\<close>

lemma priority_table:
  "list_all (\<lambda>p :: u8.
      frequency (boost p) = min 15 (frequency p + 1) \<and> recency (boost p) = 7
      \<and> boost p AND 0x7F = boost p
      \<and> frequency (decay p) = frequency p \<and> recency (decay p) = recency p - 1
      \<and> decay p AND 0x7F = decay p)
    (map word_of_nat [0..<128])"
  by code_simp

lemma priority_cases: "(p :: u8) < 128 \<Longrightarrow> p \<in> set (map word_of_nat [0..<128])"
  by (auto simp: word_less_nat_alt intro!: image_eqI [of _ _ "unat p"])

lemma boost_decay:
  assumes "p < 128"
  shows "frequency (boost p) = min 15 (frequency p + 1)" and "recency (boost p) = 7"
    and "boost p AND 0x7F = boost p"
    and "frequency (decay p) = frequency p" and "recency (decay p) = recency p - 1"
    and "decay p AND 0x7F = decay p"
  using priority_table priority_cases [OF assms] unfolding list_all_iff by blast+

lemma decay_step_eq:
  assumes "i < 4"
  shows "decay_step slot i v =
     (if i \<noteq> slot \<and> get_state v i = Full \<and> 0 < get_priority v i AND 0x07
      then set_priority v i (decay (get_priority v i)) else v)"
  using assms
  by (simp add: decay_step_def set_priority_def get_state_def get_priority_def decay_def Let_def)

lemma decay_no_recency: "\<not> 0 < p AND 0x07 \<Longrightarrow> decay p = p"
  by (simp add: decay_def Let_def)

lemma decay_step_fields:
  assumes "i < 4" and "j < 4"
  shows "get_state (decay_step slot i v) j = get_state v j"
    and "get_h2 (decay_step slot i v) j = get_h2 v j"
    and "get_priority (decay_step slot i v) j =
      (if j = i \<and> i \<noteq> slot \<and> get_state v i = Full then decay (get_priority v j) else get_priority v j)"
  using assms
  by (auto simp: decay_step_eq decay_no_recency boost_decay(6) [OF get_priority_less])

lemma decay_fold_fields:
  assumes "n \<le> 4" and "j < 4"
  shows "get_state (fold (decay_step slot) [0..<n] v) j = get_state v j"
    and "get_h2 (fold (decay_step slot) [0..<n] v) j = get_h2 v j"
    and "get_priority (fold (decay_step slot) [0..<n] v) j =
      (if j < n \<and> j \<noteq> slot \<and> get_state v j = Full then decay (get_priority v j) else get_priority v j)"
  using assms by (induction n) (auto simp: decay_step_fields less_Suc_eq)

lemma on_access_eq:
  "slot < 4 \<Longrightarrow> on_access v slot =
     fold (decay_step slot) [0..<4] (set_priority v slot (boost (get_priority v slot)))"
  by (simp add: on_access_def set_priority_def get_priority_def boost_def Let_def)

lemma on_access_fields [simp]:
  assumes "slot < 4" and "j < 4"
  shows "get_state (on_access v slot) j = get_state v j"
    and "get_h2 (on_access v slot) j = get_h2 v j"
  using assms by (simp_all add: on_access_eq decay_fold_fields)

lemma on_access_priority:
  assumes "slot < 4" and "j < 4"
  shows "get_priority (on_access v slot) j =
     (if j = slot then boost (get_priority v j)
      else if get_state v j = Full then decay (get_priority v j) else get_priority v j)"
  using assms
  by (simp add: on_access_eq decay_fold_fields boost_decay(3) [OF get_priority_less])

lemma priority_split: "unat p = 8 * frequency p + recency p" and recency_less: "recency p < 8"
  by (simp_all add: frequency_def recency_def)

lemma priority_order:
  "p < q \<longleftrightarrow> frequency p < frequency q \<or> frequency p = frequency q \<and> recency p < recency q"
  using priority_split [of p] priority_split [of q] recency_less [of p] recency_less [of q]
  by (auto simp: word_less_nat_alt)

section \<open>Properties\<close>

text \<open>
  C32: the fingerprint matchers. The SSE2 matcher and the scalar one are the same function, and bit
  \<open>i\<close> of their result is set exactly if slot \<open>i\<close> is Full and its fingerprint is the given one.
\<close>

theorem match_mask_exact:
  "match_mask_simd v h = match_mask v h \<and> match_mask_branchless v h = match_mask v h
   \<and> bit (match_mask v h) i = (i < 4 \<and> get_state v i = Full \<and> get_h2 v i = h AND 0x7F)"
  using match_mask_simd_eq bit_match_mask by (simp add: match_mask_def match_mask_branchless_def)

text \<open>
  C37: the packed fields. Writing the state, fingerprint or priority of one slot is read back
  (cut to its width) and leaves every other field of all four slots alone.
\<close>

theorem meta_fields_independent:
  assumes "i < 4" and "j < 4"
  shows "get_state (set_state v i st) j = (if i = j then st else get_state v j)
     \<and> get_h2 (set_h2 v i h) j = (if i = j then h AND 0x7F else get_h2 v j)
     \<and> get_priority (set_priority v i p) j = (if i = j then p AND 0x7F else get_priority v j)
     \<and> get_h2 (set_state v i st) j = get_h2 v j \<and> get_priority (set_state v i st) j = get_priority v j
     \<and> get_state (set_h2 v i h) j = get_state v j \<and> get_priority (set_h2 v i h) j = get_priority v j
     \<and> get_state (set_priority v i p) j = get_state v j \<and> get_h2 (set_priority v i p) j = get_h2 v j"
  using assms by simp

theorem meta_fields_independent_witness:
  "get_h2 (set_h2 meta_empty 3 0xFF) 3 = 0x7F \<and> get_state (set_h2 meta_empty 3 0xFF) 3 = Empty"
proof -
  have "get_state meta_empty 3 = Empty" by code_simp
  then show ?thesis
    using meta_fields_independent [where i = 3 and j = 3 and v = meta_empty and h = "0xFF"] by simp
qed

text \<open>
  C33: the access policy. An access raises the frequency of its slot by one up to 15 and its recency
  to 7, ages the recency of the other Full slots by one down to 0, and changes no state, no
  fingerprint and no other frequency. A new entry starts with frequency 0 and recency 1.
\<close>

theorem access_policy:
  assumes "slot < 4" and "j < 4"
  shows "get_state (on_access v slot) j = get_state v j \<and> get_h2 (on_access v slot) j = get_h2 v j
     \<and> frequency (get_priority (on_access v slot) j) =
         (if j = slot then min 15 (frequency (get_priority v j) + 1) else frequency (get_priority v j))
     \<and> recency (get_priority (on_access v slot) j) =
         (if j = slot then 7
          else if get_state v j = Full then recency (get_priority v j) - 1 else recency (get_priority v j))
     \<and> frequency (get_priority (on_insert v slot) slot) = 0
     \<and> recency (get_priority (on_insert v slot) slot) = 1"
proof -
  have "frequency 1 = 0" "recency 1 = 1" by (simp_all add: frequency_def recency_def)
  then show ?thesis using assms boost_decay [OF get_priority_less [of v j]] by (auto simp: on_access_priority)
qed

theorem access_policy_witness:
  "frequency (get_priority (on_access meta_empty 2) 2) = 1 \<and> recency (get_priority (on_access meta_empty 2) 2) = 7"
proof -
  have "frequency (get_priority meta_empty 2) = 0" by code_simp
  then show ?thesis using access_policy [of 2 2 meta_empty] by simp
qed

text \<open>
  The choice of slots. \<^verbatim>\<open>find_free_slot\<close> returns the first slot that is not Full,
  \<^verbatim>\<open>find_evict_target\<close> the first Full slot of least priority, each none only if there is none;
  priorities compare by frequency first and recency second.
\<close>

theorem slot_choice_exact:
  "(find_free_slot v = Some j \<longleftrightarrow> j < 4 \<and> get_state v j \<noteq> Full \<and> (\<forall>i<j. get_state v i = Full))
   \<and> (find_evict_target v = Some j \<longleftrightarrow> j < 4 \<and> get_state v j = Full
        \<and> (\<forall>i<4. get_state v i = Full \<longrightarrow> get_priority v j \<le> get_priority v i)
        \<and> (\<forall>i<j. get_state v i = Full \<longrightarrow> get_priority v j < get_priority v i))
   \<and> (find_evict_target v = None \<longleftrightarrow> (\<forall>i<4. get_state v i \<noteq> Full))
   \<and> (get_priority v i < get_priority v k \<longleftrightarrow>
        frequency (get_priority v i) < frequency (get_priority v k)
        \<or> frequency (get_priority v i) = frequency (get_priority v k)
          \<and> recency (get_priority v i) < recency (get_priority v k))"
proof -
  have "find_evict_target v = Some j" if j: "j < 4" "get_state v j = Full"
    and min: "\<forall>i<4. get_state v i = Full \<longrightarrow> get_priority v j \<le> get_priority v i"
    and first: "\<forall>i<j. get_state v i = Full \<longrightarrow> get_priority v j < get_priority v i"
  proof (cases "find_evict_target v")
    case None
    then show ?thesis using j find_evict_target_None by blast
  next
    case (Some k)
    note k = find_evict_target_Some [OF Some]
    have "k = j" using k first j(1) min k(3) [OF j] by (metis j(2) linorder_neqE_nat not_less)
    then show ?thesis using Some by simp
  qed
  then have "find_evict_target v = Some j \<longleftrightarrow> j < 4 \<and> get_state v j = Full
        \<and> (\<forall>i<4. get_state v i = Full \<longrightarrow> get_priority v j \<le> get_priority v i)
        \<and> (\<forall>i<j. get_state v i = Full \<longrightarrow> get_priority v j < get_priority v i)"
    using find_evict_target_Some [of v j] by blast
  moreover have "find_free_slot v = Some j \<longleftrightarrow> j < 4 \<and> get_state v j \<noteq> Full \<and> (\<forall>i<j. get_state v i = Full)"
    by (simp add: find_free_slot_eq find_upt_Some)
  ultimately show ?thesis using find_evict_target_None [of v] priority_order by blast
qed

theorem slot_choice_exact_witness:
  "find_free_slot (set_state meta_empty 0 Full) = Some 1 \<and> find_evict_target (set_state meta_empty 0 Full) = Some 0"
proof -
  have "find_free_slot (set_state meta_empty 0 Full) = Some 1" by code_simp
  moreover have "get_state (set_state meta_empty 0 Full) i = (if i = 0 then Full else Empty)" if "i < 4" for i
  proof -
    have "get_state meta_empty i = Empty" by (simp add: get_state_def meta_empty_def shr64_def from_bits_def)
    then show ?thesis using that by simp
  qed
  ultimately show ?thesis
    using slot_choice_exact [of "set_state meta_empty 0 Full" 0 0 0] by auto
qed

end
