(* ===== verification/Hash.thy ===== *)
theory Hash
  imports Prelude
begin

text \<open>
  Hash splitting, \<^verbatim>\<open>src/src/engine/hash.rs\<close>. The 64-bit hash itself is the external
  crate \<^verbatim>\<open>wyhash\<close>: it is the parameter \<open>wy\<close> of every definition that hashes a key,
  and no theorem assumes anything of it.
\<close>

record hash_result =
  h1 :: u64
  h2 :: u8
  ext_fp_hi :: u8
  ext_fp :: u32

definition compute_hash :: "(bytes \<Rightarrow> u64) \<Rightarrow> bytes \<Rightarrow> hash_result" where
  "compute_hash wy key =
     (let full = wy key
      in \<lparr>h1 = full,
          h2 = ucast (drop_bit 57 full AND 0x7F),
          ext_fp_hi = ucast (drop_bit 50 full AND 0x7F),
          ext_fp = ucast (drop_bit 18 full AND 0xFFFFFFFF)\<rparr>)"

lemma h1_compute_hash [simp]: "h1 (compute_hash wy key) = wy key"
  by (simp add: compute_hash_def Let_def)

lemma h2_masked [simp]: "h2 (compute_hash wy key) AND 0x7F = h2 (compute_hash wy key)"
proof -
  have m: "(0x7F :: u8) = mask 7" by (simp add: mask_eq_exp_minus_1)
  show ?thesis unfolding m
    by (rule bit_eqI) (auto simp: compute_hash_def Let_def masks bit_simps)
qed

lemma ext_fp_hi_masked [simp]:
  "ext_fp_hi (compute_hash wy key) AND 0x7F = ext_fp_hi (compute_hash wy key)"
proof -
  have m: "(0x7F :: u8) = mask 7" by (simp add: mask_eq_exp_minus_1)
  show ?thesis unfolding m
    by (rule bit_eqI) (auto simp: compute_hash_def Let_def masks bit_simps)
qed

text \<open>A concrete hash function (64-bit FNV-1a), at which the witnesses of the development evaluate.\<close>

definition demo_hash :: "bytes \<Rightarrow> u64" where
  "demo_hash bs = foldl (\<lambda>h b. (h XOR ucast b) * 0x100000001B3) 0xCBF29CE484222325 bs"

end
