(* ===== verification/Slab.thy ===== *)
theory Slab
  imports Prelude
begin

text \<open>
  The slab allocator, \<^verbatim>\<open>src/src/engine/slab.rs\<close>: an index-based pool of heap blocks with
  a free list. The block behind the raw pointer of an entry is the byte list \<open>data\<close>, whose
  length is the size it was allocated with; a read or write past it, or a reallocation with
  another layout, is \<^const>\<open>UndefinedBehaviour\<close>. Lengths and capacities are the 32-bit fields
  of the source, so the truncating casts are visible. The global allocator never returns null
  here; bytes it leaves uninitialised are 0, and are overwritten before they are read.
\<close>

section \<open>Entries\<close>

record slab_entry =
  key_len :: u32
  val_len :: u32
  cap :: u32
  data :: bytes

definition entry_key :: "slab_entry \<Rightarrow> bytes res" where
  "entry_key e =
     (if unat (key_len e) \<le> length (data e) then Inr (take (unat (key_len e)) (data e))
      else Inl UndefinedBehaviour)"

definition entry_value :: "slab_entry \<Rightarrow> bytes res" where
  "entry_value e =
     (if unat (key_len e) + unat (val_len e) \<le> length (data e)
      then Inr (take (unat (val_len e)) (drop (unat (key_len e)) (data e)))
      else Inl UndefinedBehaviour)"

text \<open>\<^verbatim>\<open>Layout::from_size_align(n, 1).unwrap()\<close> fails above \<^verbatim>\<open>isize::MAX\<close>.\<close>

definition layout :: "nat \<Rightarrow> nat res" where
  "layout n = (if n \<le> isize_max then Inr n else Inl UnwrapFailed)"

text \<open>\<^verbatim>\<open>realloc\<close>: the old layout must be the one the block was allocated with.\<close>

definition realloc :: "bytes \<Rightarrow> nat \<Rightarrow> nat \<Rightarrow> bytes res" where
  "realloc block old_size new_size =
     (if old_size = length block \<and> 0 < new_size
      then Inr (take new_size (block @ replicate (new_size - length block) 0))
      else Inl UndefinedBehaviour)"

text \<open>The two \<^verbatim>\<open>copy_nonoverlapping\<close> calls that lay key and value out in a block.\<close>

definition copy_pair :: "bytes \<Rightarrow> bytes \<Rightarrow> bytes \<Rightarrow> bytes res" where
  "copy_pair block key val =
     (if length key + length val \<le> length block
      then Inr (key @ val @ drop (length key + length val) block)
      else Inl UndefinedBehaviour)"

definition rewrite :: "slab_entry \<Rightarrow> bytes \<Rightarrow> bytes \<Rightarrow> slab_entry res" where
  "rewrite e key val =
     (let needed = length key + length val in
      bindR
        (if unat (cap e) < needed
         then bindR (layout (unat (cap e))) (\<lambda>old_layout.
              bindR (layout needed) (\<lambda>new_layout.
              bindR (realloc (data e) old_layout new_layout) (\<lambda>block.
              Inr (e\<lparr>data := block, cap := word_of_nat needed\<rparr>))))
         else Inr e)
        (\<lambda>e. bindR (copy_pair (data e) key val) (\<lambda>block.
              Inr (e\<lparr>data := block, key_len := word_of_nat (length key),
                     val_len := word_of_nat (length val)\<rparr>))))"

definition dealloc_data :: "slab_entry \<Rightarrow> slab_entry res" where
  "dealloc_data e =
     (if 0 < unat (cap e)
      then bindR (layout (unat (cap e))) (\<lambda>size.
           if size = length (data e) then Inr (e\<lparr>data := [], cap := 0\<rparr>)
           else Inl UndefinedBehaviour)
      else Inr e)"

section \<open>The pool\<close>

record slab_pool =
  entries :: "slab_entry option list"
  free_list :: "nat list"

definition slab_new :: slab_pool where
  "slab_new = \<lparr>entries = [], free_list = []\<rparr>"

text \<open>\<^verbatim>\<open>self.entries[idx].as_ref().unwrap()\<close>.\<close>

definition slab_get :: "slab_pool \<Rightarrow> nat \<Rightarrow> slab_entry res" where
  "slab_get p idx =
     bindR (index (entries p) idx) (\<lambda>x. case x of None \<Rightarrow> Inl UnwrapFailed | Some e \<Rightarrow> Inr e)"

definition slab_alloc :: "slab_pool \<Rightarrow> bytes \<Rightarrow> bytes \<Rightarrow> (nat \<times> slab_pool) res" where
  "slab_alloc p key val =
     (if free_list p \<noteq> []
      then let idx = last (free_list p); p = p\<lparr>free_list := butlast (free_list p)\<rparr>
           in bindR (slab_get p idx) (\<lambda>e.
              bindR (rewrite e key val) (\<lambda>e.
              Inr (idx, p\<lparr>entries := (entries p)[idx := Some e]\<rparr>)))
      else let total_len = length key + length val
           in bindR (layout (max total_len 1)) (\<lambda>size.
              bindR (copy_pair (replicate size 0) key val) (\<lambda>block.
              let entry = \<lparr>key_len = word_of_nat (length key), val_len = word_of_nat (length val),
                           cap = word_of_nat total_len, data = block\<rparr>;
                  idx = length (entries p)
              in bindR (vec_push 8 (entries p) (Some entry)) (\<lambda>es.
                 Inr (idx, p\<lparr>entries := es\<rparr>)))))"

definition slab_free :: "slab_pool \<Rightarrow> nat \<Rightarrow> slab_pool res" where
  "slab_free p idx =
     bindR (vec_push 8 (free_list p) idx) (\<lambda>fl. Inr (p\<lparr>free_list := fl\<rparr>))"

text \<open>\<^verbatim>\<open>Drop for SlabPool\<close>: every block is given back, live or on the free list.\<close>

fun drop_entries :: "slab_entry option list \<Rightarrow> slab_entry option list res" where
  "drop_entries [] = Inr []"
| "drop_entries (None # es) = bindR (drop_entries es) (\<lambda>es'. Inr (None # es'))"
| "drop_entries (Some e # es) =
     bindR (dealloc_data e) (\<lambda>e'. bindR (drop_entries es) (\<lambda>es'. Inr (Some e' # es')))"

definition slab_drop :: "slab_pool \<Rightarrow> slab_pool res" where
  "slab_drop p = bindR (drop_entries (entries p)) (\<lambda>es. Inr (p\<lparr>entries := es\<rparr>))"

section \<open>Well-formed pools\<close>

text \<open>
  The capacity field is the true size of the block and the two parts fit in it. The free list
  holds distinct indices of existing entries; the others are live.
\<close>

definition wf_entry :: "slab_entry \<Rightarrow> bool" where
  "wf_entry e \<longleftrightarrow>
     0 < unat (cap e) \<and> length (data e) = unat (cap e)
     \<and> unat (key_len e) + unat (val_len e) \<le> unat (cap e)"

definition wf_pool :: "slab_pool \<Rightarrow> bool" where
  "wf_pool p \<longleftrightarrow>
     (\<forall>x\<in>set (entries p). \<exists>e. x = Some e \<and> wf_entry e)
     \<and> distinct (free_list p) \<and> set (free_list p) \<subseteq> {..<length (entries p)}"

definition live :: "slab_pool \<Rightarrow> nat set" where
  "live p = {..<length (entries p)} - set (free_list p)"

text \<open>The key and the value stored at an index.\<close>

definition stored :: "slab_pool \<Rightarrow> nat \<Rightarrow> (bytes \<times> bytes) res" where
  "stored p i =
     bindR (slab_get p i) (\<lambda>e. bindR (entry_key e) (\<lambda>k. bindR (entry_value e) (\<lambda>v. Inr (k, v))))"

text \<open>A pair the 32-bit length fields can describe.\<close>

definition fits :: "bytes \<Rightarrow> bytes \<Rightarrow> bool" where
  "fits key val \<longleftrightarrow> 0 < length key + length val \<and> length key + length val < 2 ^ 32"

text \<open>What a successful allocation leaves behind.\<close>

definition alloc_post :: "slab_pool \<Rightarrow> bytes \<Rightarrow> bytes \<Rightarrow> nat \<Rightarrow> slab_pool \<Rightarrow> bool" where
  "alloc_post p key val i p' \<longleftrightarrow>
     wf_pool p' \<and> i \<notin> live p \<and> live p' = insert i (live p) \<and> stored p' i = Inr (key, val)
     \<and> (\<forall>j\<in>live p. stored p' j = stored p j)"

section \<open>Entry operations\<close>

lemma unat_u32 [simp]: "n < 2 ^ 32 \<Longrightarrow> unat (word_of_nat n :: u32) = n"
  by (simp add: unat_of_nat)

lemma cap_le_isize: "unat (w :: u32) \<le> isize_max"
proof -
  have "unat w < 2 ^ 32" using unsigned_less [of w] by simp
  then show ?thesis by (simp add: isize_max_def)
qed

lemma rewrite_ok:
  assumes "wf_entry e" and "fits key val"
  obtains e' where "rewrite e key val = Inr e'" and "wf_entry e'"
    and "entry_key e' = Inr key" and "entry_value e' = Inr val"
proof -
  let ?n = "length key + length val"
  let ?block = "if unat (cap e) < ?n then take ?n (data e @ replicate (?n - length (data e)) 0) else data e"
  let ?e = "e\<lparr>data := key @ val @ drop ?n ?block, cap := if unat (cap e) < ?n then word_of_nat ?n else cap e,
     key_len := word_of_nat (length key), val_len := word_of_nat (length val)\<rparr>"
  have n: "0 < ?n" "?n < 2 ^ 32" using assms(2) by (auto simp: fits_def)
  then have "?n \<le> isize_max" by (simp add: isize_max_def)
  with assms n have "rewrite e key val = Inr ?e"
    by (auto simp: rewrite_def Let_def layout_def realloc_def copy_pair_def cap_le_isize wf_entry_def
        simp del: of_nat_add)
  moreover have "wf_entry ?e" "entry_key ?e = Inr key" "entry_value ?e = Inr val"
    using assms n by (auto simp: wf_entry_def entry_key_def entry_value_def simp del: of_nat_add)
  ultimately show ?thesis using that by blast
qed

lemma dealloc_ok: "wf_entry e \<Longrightarrow> dealloc_data e = Inr (e\<lparr>data := [], cap := 0\<rparr>)"
  by (simp add: dealloc_data_def layout_def wf_entry_def cap_le_isize)

section \<open>Pool operations\<close>


lemma slab_get_ok: "wf_pool p \<Longrightarrow> i < length (entries p) \<Longrightarrow> \<exists>e. slab_get p i = Inr e \<and> wf_entry e \<and> entries p ! i = Some e"
  unfolding wf_pool_def slab_get_def
  by (auto simp: index_ok dest!: bspec [where x = "entries p ! i"])

lemma entry_reads: "wf_entry e \<Longrightarrow> \<exists>k v. entry_key e = Inr k \<and> entry_value e = Inr v"
  by (auto simp: wf_entry_def entry_key_def entry_value_def)

lemma stored_ok: "wf_pool p \<Longrightarrow> i < length (entries p) \<Longrightarrow> \<exists>k v. stored p i = Inr (k, v)"
  using slab_get_ok [of p i] entry_reads unfolding stored_def by fastforce

lemma live_less: "i \<in> live p \<Longrightarrow> i < length (entries p)"
  by (simp add: live_def)

lemma finite_live [simp]: "finite (live p)"
  by (simp add: live_def)

lemma stored_cong: "i < length (entries p) \<Longrightarrow> entries p' ! i = entries p ! i \<Longrightarrow> i < length (entries p') \<Longrightarrow> stored p' i = stored p i"
  by (simp add: stored_def slab_get_def index_ok)

lemma slab_new_wf: "wf_pool slab_new" "live slab_new = {}"
  by (simp_all add: wf_pool_def slab_new_def live_def)

lemma slab_free_ok:
  assumes "wf_pool p" and "i \<in> live p" and "length (entries p) < 2 ^ 60"
  shows "\<exists>p'. slab_free p i = Inr p' \<and> wf_pool p' \<and> live p' = live p - {i}
     \<and> entries p' = entries p"
proof -
  have "card (set (free_list p)) \<le> card {..<length (entries p)}"
    using assms(1) by (intro card_mono) (auto simp: wf_pool_def)
  then have "length (free_list p) \<le> length (entries p)"
    using assms(1) by (simp add: wf_pool_def distinct_card)
  moreover have "length (free_list p) < length (entries p)"
  proof (rule ccontr)
    assume "\<not> ?thesis"
    then have "card (set (free_list p)) = card {..<length (entries p)}"
      using assms(1) calculation by (simp add: wf_pool_def distinct_card)
    then have "set (free_list p) = {..<length (entries p)}"
      using assms(1) by (intro card_subset_eq) (auto simp: wf_pool_def)
    then show False using assms(2) by (simp add: live_def)
  qed
  ultimately have "(length (free_list p) + 1) * 8 \<le> isize_max"
    using assms(3) by (simp add: isize_max_def)
  then have "slab_free p i = Inr (p\<lparr>free_list := free_list p @ [i]\<rparr>)"
    by (simp add: slab_free_def vec_push_ok)
  moreover have "wf_pool (p\<lparr>free_list := free_list p @ [i]\<rparr>)"
    using assms(1,2) by (auto simp: wf_pool_def live_def)
  moreover have "live (p\<lparr>free_list := free_list p @ [i]\<rparr>) = live p - {i}"
    by (auto simp: live_def)
  ultimately show ?thesis by fastforce
qed

lemma slab_alloc_reuse:
  assumes "wf_pool p" and "fits key val" and "free_list p \<noteq> []"
  shows "\<exists>p' i. slab_alloc p key val = Inr (i, p') \<and> i = last (free_list p) \<and> alloc_post p key val i p' \<and> length (entries p') = length (entries p)"
proof -
  obtain fl i where split: "free_list p = fl @ [i]" using assms(3) by (metis append_butlast_last_id)
  let ?i = "last (free_list p)" and ?p = "p\<lparr>free_list := butlast (free_list p)\<rparr>"
  have fl: "distinct fl" "?i \<notin> set fl" "?i < length (entries p)"
    "set fl \<subseteq> {..<length (entries p)}" "butlast (free_list p) = fl"
    using assms(1) split by (auto simp: wf_pool_def)
  obtain e where e: "slab_get p ?i = Inr e" "wf_entry e" using slab_get_ok [OF assms(1) fl(3)] by blast
  obtain e' where e': "rewrite e key val = Inr e'" "wf_entry e'" "entry_key e' = Inr key" "entry_value e' = Inr val"
    using rewrite_ok [OF e(2) assms(2)] .
  let ?p' = "?p\<lparr>entries := (entries p)[?i := Some e']\<rparr>"
  have g: "slab_get ?p ?i = Inr e" using e(1) by (simp add: slab_get_def)
  then have "slab_alloc p key val = Inr (?i, ?p')"
    using assms(3) e' by (simp add: slab_alloc_def Let_def)
  moreover have "wf_pool ?p'"
    using assms(1) e'(2) fl
    by (auto simp: wf_pool_def dest!: set_update_subset_insert [THEN subsetD])
  moreover have "?i \<notin> live p" using assms(3) by (simp add: live_def)
  moreover have "live ?p' = insert ?i (live p)"
  proof -
    have "set (free_list p) = insert ?i (set fl)" by (simp add: split)
    then show ?thesis using fl by (auto simp: live_def)
  qed
  moreover have "stored ?p' ?i = Inr (key, val)"
    using e' fl(3) by (simp add: stored_def slab_get_def index_ok)
  moreover have "stored ?p' j = stored p j" if "j \<in> live p" for j
    using that \<open>?i \<notin> live p\<close> by (cases "j = ?i") (auto intro!: stored_cong simp: live_less)
  ultimately show ?thesis unfolding alloc_post_def by fastforce
qed

lemma slab_alloc_grow:
  assumes "wf_pool p" and "fits key val" and "free_list p = []" and "length (entries p) < 2 ^ 59"
  shows "\<exists>p' i. slab_alloc p key val = Inr (i, p') \<and> i = length (entries p) \<and> alloc_post p key val i p' \<and> length (entries p') = Suc (length (entries p))"
proof -
  let ?n = "length key + length val"
  let ?e = "\<lparr>key_len = word_of_nat (length key), val_len = word_of_nat (length val),
     cap = word_of_nat ?n, data = key @ val\<rparr> :: slab_entry"
  let ?p' = "p\<lparr>entries := entries p @ [Some ?e]\<rparr>"
  have n: "0 < ?n" "?n < 2 ^ 32" using assms(2) by (auto simp: fits_def)
  then have mx: "max ?n 1 = ?n" by (intro max_absorb1) linarith
  from n(2) have "?n \<le> isize_max" by (simp add: isize_max_def)
  moreover have "(length (entries p) + 1) * 8 \<le> isize_max" using assms(4) by (simp add: isize_max_def)
  ultimately have "slab_alloc p key val = Inr (length (entries p), ?p')"
    using assms(3) unfolding slab_alloc_def Let_def mx
    by (simp add: layout_def copy_pair_def vec_push_ok del: of_nat_add)
  moreover have we: "wf_entry ?e" "entry_key ?e = Inr key" "entry_value ?e = Inr val"
    using n by (auto simp: wf_entry_def entry_key_def entry_value_def simp del: of_nat_add)
  moreover have "wf_pool ?p'"
    using assms(1) we(1) by (auto simp: wf_pool_def)
  moreover have "length (entries p) \<notin> live p" by (simp add: live_def)
  moreover have "live ?p' = insert (length (entries p)) (live p)"
    using assms(3) by (auto simp: live_def)
  moreover have "stored ?p' (length (entries p)) = Inr (key, val)"
    using we by (simp add: stored_def slab_get_def index_ok)
  moreover have "stored ?p' j = stored p j" if "j \<in> live p" for j
    using live_less [OF that] by (intro stored_cong) (auto simp: nth_append)
  ultimately show ?thesis unfolding alloc_post_def by fastforce
qed

lemma slab_alloc_ok:
  assumes "wf_pool p" and "fits key val" and "length (entries p) < 2 ^ 59"
  shows "\<exists>p' i. slab_alloc p key val = Inr (i, p') \<and> alloc_post p key val i p'
     \<and> length (entries p') = max (length (entries p)) (Suc (card (live p)))"
proof (cases "free_list p = []")
  case True
  then have "max (length (entries p)) (Suc (card (live p))) = Suc (length (entries p))"
    by (simp add: live_def)
  then show ?thesis using slab_alloc_grow [OF assms(1,2) True assms(3)] by metis
next
  case False
  then have "card (live p) < length (entries p)"
  proof -
    have "last (free_list p) \<in> {..<length (entries p)}"
      using last_in_set [OF False] assms(1) by (auto simp: wf_pool_def)
    moreover have "last (free_list p) \<notin> live p" using False by (simp add: live_def)
    ultimately have "live p \<subset> {..<length (entries p)}" by (auto simp: live_def)
    then show ?thesis using psubset_card_mono [of "{..<length (entries p)}" "live p"] by simp
  qed
  then have "max (length (entries p)) (Suc (card (live p))) = length (entries p)" by simp
  then show ?thesis using slab_alloc_reuse [OF assms(1,2) False] by metis
qed

lemma slab_drop_ok:
  assumes "wf_pool p"
  shows "\<exists>p'. slab_drop p = Inr p' \<and> (\<forall>e. Some e \<in> set (entries p') \<longrightarrow> data e = [])"
proof -
  have "\<forall>x\<in>set es. \<exists>e. x = Some e \<and> wf_entry e \<Longrightarrow>
     \<exists>es'. drop_entries es = Inr es' \<and> (\<forall>e. Some e \<in> set es' \<longrightarrow> data e = [])" for es
    by (induction es rule: drop_entries.induct) (auto simp: dealloc_ok)
  then show ?thesis using assms by (fastforce simp: slab_drop_def wf_pool_def)
qed

section \<open>The interface the maps rely on\<close>

text \<open>
  An indexed store of key-value pairs: a fresh index per allocation, no effect on the other
  pairs, and growth only when nothing is free. The maps always release the entry of a slot
  before they allocate its replacement; \<open>replace_ok\<close> is that pair of calls.
\<close>

locale entry_store =
  fixes alloc :: "'p \<Rightarrow> 'k \<Rightarrow> 'v \<Rightarrow> (nat \<times> 'p) res"
    and release :: "'p \<Rightarrow> nat \<Rightarrow> 'p res"
    and lookup :: "'p \<Rightarrow> nat \<Rightarrow> ('k \<times> 'v) res"
    and inv :: "'p \<Rightarrow> bool"
    and used :: "'p \<Rightarrow> nat set"
    and ok :: "'k \<Rightarrow> 'v \<Rightarrow> bool"
    and extent :: "'p \<Rightarrow> nat"
    and limit :: nat
  assumes finite_used: "finite (used p)"
    and alloc_law: "inv p \<Longrightarrow> ok k v \<Longrightarrow> extent p < limit \<Longrightarrow>
      \<exists>i p'. alloc p k v = Inr (i, p') \<and> inv p' \<and> i \<notin> used p \<and> used p' = insert i (used p)
        \<and> lookup p' i = Inr (k, v) \<and> (\<forall>j\<in>used p. lookup p' j = lookup p j)
        \<and> extent p' = max (extent p) (Suc (card (used p)))"
    and release_law: "inv p \<Longrightarrow> i \<in> used p \<Longrightarrow> extent p < limit \<Longrightarrow>
      \<exists>p'. release p i = Inr p' \<and> inv p' \<and> used p' = used p - {i}
        \<and> (\<forall>j\<in>used p'. lookup p' j = lookup p j) \<and> extent p' = extent p"
begin

lemma replace_ok:
  assumes "inv p" and "i \<in> used p" and "ok k v" and "extent p < limit"
  shows "\<exists>p1 j p2. release p i = Inr p1 \<and> alloc p1 k v = Inr (j, p2) \<and> inv p2
     \<and> j \<notin> used p - {i} \<and> used p2 = insert j (used p - {i}) \<and> lookup p2 j = Inr (k, v)
     \<and> (\<forall>l\<in>used p - {i}. lookup p2 l = lookup p l)
     \<and> extent p2 = max (extent p) (card (used p))"
proof -
  obtain p1 where p1: "release p i = Inr p1" "inv p1" "used p1 = used p - {i}"
    "\<forall>j\<in>used p1. lookup p1 j = lookup p j" "extent p1 = extent p"
    using release_law [OF assms(1,2,4)] by blast
  have "extent p1 < limit" using p1(5) assms(4) by simp
  then obtain j p2 where p2: "alloc p1 k v = Inr (j, p2)" "inv p2" "j \<notin> used p1"
    "used p2 = insert j (used p1)" "lookup p2 j = Inr (k, v)"
    "\<forall>l\<in>used p1. lookup p2 l = lookup p1 l" "extent p2 = max (extent p1) (Suc (card (used p1)))"
    using alloc_law [OF p1(2) assms(3)] by blast
  have "Suc (card (used p1)) = card (used p)"
    unfolding p1(3) by (rule card_Suc_Diff1 [OF finite_used assms(2)])
  then show ?thesis using p1 p2 by (intro exI [of _ p1] exI [of _ j] exI [of _ p2]) simp
qed

end

interpretation slab: entry_store slab_alloc slab_free stored wf_pool live fits
  "\<lambda>p. length (entries p)" "2 ^ 59"
proof
  show "\<exists>i p'. slab_alloc p k v = Inr (i, p') \<and> wf_pool p' \<and> i \<notin> live p \<and> live p' = insert i (live p)
        \<and> stored p' i = Inr (k, v) \<and> (\<forall>j\<in>live p. stored p' j = stored p j)
        \<and> length (entries p') = max (length (entries p)) (Suc (card (live p)))"
    if "wf_pool p" and "fits k v" and "length (entries p) < 2 ^ 59" for p k v
    using slab_alloc_ok [OF that] unfolding alloc_post_def by blast
  show "\<exists>p'. slab_free p i = Inr p' \<and> wf_pool p' \<and> live p' = live p - {i}
        \<and> (\<forall>j\<in>live p'. stored p' j = stored p j) \<and> length (entries p') = length (entries p)"
    if "wf_pool p" and "i \<in> live p" and "length (entries p) < 2 ^ 59" for p i
  proof -
    from that(3) have "length (entries p) < 2 ^ 60" by simp
    from slab_free_ok [OF that(1,2) this] obtain p' where p': "slab_free p i = Inr p'" "wf_pool p'"
      "live p' = live p - {i}" "entries p' = entries p" by blast
    then have "\<forall>j\<in>live p'. stored p' j = stored p j" by (simp add: stored_def slab_get_def)
    with p' show ?thesis by simp
  qed
qed simp

section \<open>Properties\<close>

text \<open>The pools a client can reach: pairs within the 32-bit limit go in, live indices are released.\<close>

inductive slab_reachable :: "slab_pool \<Rightarrow> bool" where
  start: "slab_reachable slab_new"
| alloc: "slab_reachable p \<Longrightarrow> fits key val \<Longrightarrow> length (entries p) < 2 ^ 59 \<Longrightarrow>
     slab_alloc p key val = Inr (i, p') \<Longrightarrow> slab_reachable p'"
| release: "slab_reachable p \<Longrightarrow> i \<in> live p \<Longrightarrow> length (entries p) < 2 ^ 59 \<Longrightarrow>
     slab_free p i = Inr p' \<Longrightarrow> slab_reachable p'"

lemma slab_reachable_wf: "slab_reachable p \<Longrightarrow> wf_pool p"
proof (induction rule: slab_reachable.induct)
  case start
  show ?case by (rule slab_new_wf)
next
  case (alloc p key val i p')
  then show ?case using slab_alloc_ok [of p key val] by (auto simp: alloc_post_def)
next
  case (release p i p')
  then show ?case using slab_free_ok [of p i] by auto
qed

text \<open>
  C20: memory safety of the slab. In every reachable pool an allocation succeeds with an index not in
  use, stores the pair, leaves every live pair alone and grows the pool only if no freed index is
  left; every live index can be read, every one can be released; and dropping the pool gives every
  block back with the size it was allocated with.
\<close>

theorem slab_memory_safe:
  assumes "slab_reachable p" and "fits key val" and "length (entries p) < 2 ^ 59"
  shows "(\<exists>i p'. slab_alloc p key val = Inr (i, p') \<and> i \<notin> live p \<and> live p' = insert i (live p)
        \<and> stored p' i = Inr (key, val) \<and> (\<forall>j\<in>live p. stored p' j = stored p j)
        \<and> length (entries p') = max (length (entries p)) (Suc (card (live p))))
     \<and> (\<forall>j\<in>live p. (\<exists>k v. stored p j = Inr (k, v)) \<and> (\<exists>p'. slab_free p j = Inr p' \<and> live p' = live p - {j}))
     \<and> (\<exists>p'. slab_drop p = Inr p' \<and> (\<forall>e. Some e \<in> set (entries p') \<longrightarrow> data e = []))"
proof -
  note wf = slab_reachable_wf [OF assms(1)]
  obtain i p' where a: "slab_alloc p key val = Inr (i, p')" "alloc_post p key val i p'"
    "length (entries p') = max (length (entries p)) (Suc (card (live p)))"
    using slab_alloc_ok [OF wf assms(2,3)] by blast
  have "(\<exists>k v. stored p j = Inr (k, v)) \<and> (\<exists>p'. slab_free p j = Inr p' \<and> live p' = live p - {j})" if "j \<in> live p" for j
    using stored_ok [OF wf live_less [OF that]] slab_free_ok [OF wf that] assms(3) by auto
  then show ?thesis using a slab_drop_ok [OF wf] unfolding alloc_post_def by blast
qed

theorem slab_memory_safe_witness:
  "\<exists>p'. slab_alloc slab_new [1, 2, 3, 4, 5, 6, 7] [8] = Inr (0, p') \<and> stored p' 0 = Inr ([1, 2, 3, 4, 5, 6, 7], [8])"
proof -
  have "fits [1, 2, 3, 4, 5, 6, 7] [8]" by (simp add: fits_def)
  moreover have "length (entries slab_new) < 2 ^ 59" by (simp add: slab_new_def)
  ultimately obtain i p' where a: "slab_alloc slab_new [1, 2, 3, 4, 5, 6, 7] [8] = Inr (i, p')"
    "live p' = insert i (live slab_new)" "stored p' i = Inr ([1, 2, 3, 4, 5, 6, 7], [8])"
    "length (entries p') = max (length (entries slab_new)) (Suc (card (live slab_new)))"
    using slab_memory_safe [OF slab_reachable.start, of "[1, 2, 3, 4, 5, 6, 7]" "[8]"] by blast
  have "length (entries p') = 1" using a(4) slab_new_wf(2) by (simp add: slab_new_def)
  then have "i = 0" using a(2) live_less [of i p'] by simp
  then show ?thesis using a(1,3) by blast
qed



end
