(* ===== verification/Slot.thy ===== *)
theory Slot
  imports Hash Slab
begin

text \<open>
  The 14-byte slot, \<^verbatim>\<open>src/src/engine/slot.rs\<close>: either a small key and value inline, or a
  slab index with the extended fingerprint of the key. A slot is its byte array; the array type
  fixes its length, so \<open>length = 14\<close> is part of the well-formedness of every bucket.
\<close>

type_synonym slot = bytes

definition slot_empty :: slot where
  "slot_empty = replicate 14 0"

definition slot_clear :: "slot \<Rightarrow> slot" where
  "slot_clear s = replicate 14 0"

definition get_mode :: "slot \<Rightarrow> u8" where
  "get_mode s = drop_bit 7 (s ! 0) AND 1"

section \<open>Inline mode\<close>

definition set_inline :: "bytes \<Rightarrow> bytes \<Rightarrow> slot res" where
  "set_inline key val =
     (let d = replicate 14 0;
          d = d[0 := push_bit 4 (word_of_nat (length key))
                      OR push_bit 1 (word_of_nat (length val) AND 0x07)]
      in bindR (copy_into d 1 key) (\<lambda>d. copy_into d 7 val))"

definition inline_key_len :: "slot \<Rightarrow> nat" where
  "inline_key_len s = unat (drop_bit 4 (s ! 0) AND 0x07)"

definition inline_key :: "slot \<Rightarrow> bytes" where
  "inline_key s = slice s 1 (inline_key_len s)"

definition inline_val_len :: "slot \<Rightarrow> nat" where
  "inline_val_len s = unat (drop_bit 1 (s ! 0) AND 0x07)"

definition inline_value :: "slot \<Rightarrow> bytes" where
  "inline_value s = slice s 7 (inline_val_len s)"

section \<open>Slab mode\<close>

definition set_slab :: "u8 \<Rightarrow> u32 \<Rightarrow> nat \<Rightarrow> slot res" where
  "set_slab fp_hi fp slab_idx =
     (let d = replicate 14 0;
          d = d[0 := 0x80 OR (fp_hi AND 0x7F)]
      in bindR (copy_into d 1 (to_le 4 fp)) (\<lambda>d.
         let d = d[5 := 0]
         in copy_into d 6 (to_le 8 (word_of_nat slab_idx :: u64))))"

definition slab_idx :: "slot \<Rightarrow> nat" where
  "slab_idx s = unat (from_le (slice s 6 8) :: u64)"

definition get_ext_fp :: "slot \<Rightarrow> u32" where
  "get_ext_fp s = from_le (slice s 1 4)"

definition get_ext_fp_hi :: "slot \<Rightarrow> u8" where
  "get_ext_fp_hi s = s ! 0 AND 0x7F"

definition slab_key :: "slot \<Rightarrow> slab_pool \<Rightarrow> bytes res" where
  "slab_key s pool = bindR (slab_get pool (slab_idx s)) entry_key"

section \<open>Both modes\<close>

definition matches_key :: "slot \<Rightarrow> bytes \<Rightarrow> hash_result \<Rightarrow> slab_pool \<Rightarrow> bool res" where
  "matches_key s key hr pool =
     (if get_mode s = 0 then Inr (inline_key s = key)
      else if get_ext_fp_hi s \<noteq> ext_fp_hi hr \<or> get_ext_fp s \<noteq> ext_fp hr then Inr False
      else bindR (slab_get pool (slab_idx s)) (\<lambda>e. bindR (entry_key e) (\<lambda>k. Inr (k = key))))"

definition get_value :: "slot \<Rightarrow> slab_pool \<Rightarrow> bytes res" where
  "get_value s pool =
     (if get_mode s = 0 then Inr (inline_value s)
      else bindR (slab_get pool (slab_idx s)) entry_value)"

definition get_key_bytes :: "slot \<Rightarrow> slab_pool \<Rightarrow> bytes res" where
  "get_key_bytes s pool =
     (if get_mode s = 0 then Inr (inline_key s)
      else bindR (slab_get pool (slab_idx s)) entry_key)"

definition get_value_bytes :: "slot \<Rightarrow> slab_pool \<Rightarrow> bytes res" where
  "get_value_bytes s pool =
     (if get_mode s = 0 then Inr (inline_value s)
      else bindR (slab_get pool (slab_idx s)) entry_value)"

section \<open>Fragments the maps repeat\<close>

text \<open>
  Writing a pair: inline when it fits, else through the pool. The old slab entry of a slot that
  is overwritten, evicted or removed goes back to the pool first.
\<close>

definition store_entry :: "slab_pool \<Rightarrow> bytes \<Rightarrow> bytes \<Rightarrow> hash_result \<Rightarrow> (slot \<times> slab_pool) res" where
  "store_entry pool key val hr =
     (if length key \<le> 6 \<and> length val \<le> 7
      then bindR (set_inline key val) (\<lambda>s. Inr (s, pool))
      else bindR (slab_alloc pool key val) (\<lambda>(idx, pool).
           bindR (set_slab (ext_fp_hi hr) (ext_fp hr) idx) (\<lambda>s. Inr (s, pool))))"

definition free_slot :: "slab_pool \<Rightarrow> slot \<Rightarrow> slab_pool res" where
  "free_slot pool s = (if get_mode s = 1 then slab_free pool (slab_idx s) else Inr pool)"

section \<open>What a slot holds\<close>

definition inline_pair :: "bytes \<Rightarrow> bytes \<Rightarrow> bool" where
  "inline_pair key val \<longleftrightarrow> length key \<le> 6 \<and> length val \<le> 7"

definition is_slab :: "slot \<Rightarrow> bool" where
  "is_slab s \<longleftrightarrow> get_mode s = 1"

text \<open>A slot in use: its decoded pair, its fingerprint for the key, a live index in slab mode.\<close>

definition holds :: "(bytes \<Rightarrow> u64) \<Rightarrow> slab_pool \<Rightarrow> slot \<Rightarrow> bytes \<Rightarrow> bytes \<Rightarrow> bool" where
  "holds wy pool s key val \<longleftrightarrow>
     length s = 14 \<and>
     (if is_slab s
      then slab_idx s \<in> live pool \<and> stored pool (slab_idx s) = Inr (key, val)
           \<and> get_ext_fp_hi s = ext_fp_hi (compute_hash wy key)
           \<and> get_ext_fp s = ext_fp (compute_hash wy key)
      else inline_key s = key \<and> inline_value s = val)"

abbreviation inline_header :: "nat \<Rightarrow> nat \<Rightarrow> u8" where
  "inline_header a b \<equiv> push_bit 4 (word_of_nat a) OR push_bit 1 (word_of_nat b AND 0x07)"

section \<open>Encoding and decoding\<close>

lemma inline_header_table:
  "list_all (\<lambda>a. list_all (\<lambda>b. drop_bit 7 (inline_header a b) AND 1 = 0
      \<and> unat (drop_bit 4 (inline_header a b) AND 0x07) = a
      \<and> unat (drop_bit 1 (inline_header a b) AND 0x07) = b) [0..<8]) [0..<7]"
  by code_simp

lemma inline_header_fields:
  assumes "a \<le> 6" and "b \<le> 7"
  shows "drop_bit 7 (inline_header a b) AND 1 = 0"
    and "unat (drop_bit 4 (inline_header a b) AND 0x07) = a"
    and "unat (drop_bit 1 (inline_header a b) AND 0x07) = b"
proof -
  have "a \<in> set [0..<7]" "b \<in> set [0..<8]" using assms by auto
  then show "drop_bit 7 (inline_header a b) AND 1 = 0"
    and "unat (drop_bit 4 (inline_header a b) AND 0x07) = a"
    and "unat (drop_bit 1 (inline_header a b) AND 0x07) = b"
    using inline_header_table unfolding list_all_iff by blast+
qed

lemma set_inline_ok:
  assumes "inline_pair key val"
  shows "\<exists>s. set_inline key val = Inr s \<and> length s = 14 \<and> get_mode s = 0
     \<and> inline_key s = key \<and> inline_value s = val"
proof -
  have l: "length key \<le> 6" "length val \<le> 7" using assms by (auto simp: inline_pair_def)
  let ?h = "inline_header (length key) (length val)"
  let ?s = "?h # key @ replicate (6 - length key) 0 @ val @ replicate (7 - length val) 0"
  have d: "(replicate 14 0)[0 := ?h] = ?h # replicate 13 0" by (simp add: numeral_eq_Suc)
  have "copy_into (?h # replicate 13 0) 1 key = Inr (?h # key @ replicate (13 - length key) 0)"
    using l by (simp add: copy_into_def)
  moreover have "copy_into (?h # key @ replicate (13 - length key) 0) 7 val = Inr ?s"
    using l by (simp add: copy_into_def numeral_eq_Suc)
  ultimately have "set_inline key val = Inr ?s" unfolding set_inline_def Let_def d by simp
  moreover have "get_mode ?s = 0" "inline_key ?s = key" "inline_value ?s = val"
    using inline_header_fields [OF l] l
    by (simp_all add: get_mode_def inline_key_def inline_key_len_def inline_value_def inline_val_len_def slice_def)
  moreover have "length ?s = 14" using l by simp
  ultimately show ?thesis by blast
qed

lemma get_mode_cases: "get_mode s = 0 \<or> get_mode s = 1"
proof -
  have "get_mode s = of_bool (bit (s ! 0) 7)"
    by (rule bit_eqI) (auto simp: get_mode_def bit_simps)
  then show ?thesis by auto
qed

lemma not_is_slab: "\<not> is_slab s \<longleftrightarrow> get_mode s = 0"
  using get_mode_cases [of s] by (auto simp: is_slab_def)

lemma set_slab_ok:
  assumes "idx < 2 ^ 64" and "hi AND 0x7F = hi"
  shows "\<exists>s. set_slab hi fp idx = Inr s \<and> length s = 14 \<and> is_slab s
     \<and> slab_idx s = idx \<and> get_ext_fp_hi s = hi \<and> get_ext_fp s = fp"
proof -
  let ?h = "0x80 OR (hi AND 0x7F)"
  let ?s = "?h # to_le 4 fp @ 0 # to_le 8 (word_of_nat idx :: u64)"
  have d: "(replicate 14 0)[0 := ?h] = ?h # replicate 13 0" by (simp add: numeral_eq_Suc)
  have "copy_into (?h # replicate 13 0) 1 (to_le 4 fp) = Inr (?h # to_le 4 fp @ replicate 9 0)"
    by (simp add: copy_into_def)
  moreover have u: "(?h # to_le 4 fp @ replicate 9 0)[5 := 0] = ?h # to_le 4 fp @ replicate 9 0"
    by (simp add: list_update_append numeral_eq_Suc)
  moreover have "copy_into (?h # to_le 4 fp @ replicate 9 0) 6 (to_le 8 (word_of_nat idx :: u64)) = Inr ?s"
    by (simp add: copy_into_def numeral_eq_Suc)
  ultimately have "set_slab hi fp idx = Inr ?s" unfolding set_slab_def Let_def d by simp
  moreover have "get_mode ?s = 1"
    by (rule bit_eqI) (auto simp: get_mode_def bit_simps)
  moreover have "get_ext_fp_hi ?s = hi"
    using assms(2) by (simp add: get_ext_fp_hi_def word_ao_dist)
  moreover have "get_ext_fp ?s = fp"
    by (simp add: get_ext_fp_def slice_def from_to_le)
  moreover have "slab_idx ?s = idx"
    using assms(1) by (simp add: slab_idx_def slice_def from_to_le unat_of_nat)
  ultimately show ?thesis unfolding is_slab_def by fastforce
qed

section \<open>Operations on a slot in use\<close>

lemma stored_parts:
  assumes "stored pool i = Inr (k, v)"
  obtains e where "slab_get pool i = Inr e" and "entry_key e = Inr k" and "entry_value e = Inr v"
  using assms unfolding stored_def by auto

lemma holds_reads:
  assumes "holds wy pool s k v"
  shows "matches_key s key (compute_hash wy key) pool = Inr (k = key)"
    and "get_value s pool = Inr v" and "get_key_bytes s pool = Inr k"
    and "get_value_bytes s pool = Inr v" and "is_slab s \<Longrightarrow> slab_key s pool = Inr k"
proof -
  show "matches_key s key (compute_hash wy key) pool = Inr (k = key)"
    using assms get_mode_cases [of s]
    by (auto simp: holds_def matches_key_def is_slab_def elim!: stored_parts)
  show "get_value s pool = Inr v" "get_key_bytes s pool = Inr k" "get_value_bytes s pool = Inr v"
    "is_slab s \<Longrightarrow> slab_key s pool = Inr k"
    using assms get_mode_cases [of s]
    by (auto simp: holds_def get_value_def get_key_bytes_def get_value_bytes_def slab_key_def
        is_slab_def elim!: stored_parts)
qed

lemma holds_frame:
  assumes "holds wy pool s k v" and "is_slab s \<Longrightarrow> slab_idx s \<in> live pool'"
    and "is_slab s \<Longrightarrow> stored pool' (slab_idx s) = stored pool (slab_idx s)"
  shows "holds wy pool' s k v"
  using assms by (auto simp: holds_def)

lemma holds_unique: "holds wy pool s k v \<Longrightarrow> holds wy pool s k' v' \<Longrightarrow> k = k' \<and> v = v'"
  by (auto simp: holds_def split: if_splits)

lemma slot_empty_props [simp]: "length slot_empty = 14" "\<not> is_slab slot_empty"
  by (simp_all add: slot_empty_def is_slab_def get_mode_def)

lemma slot_clear_eq [simp]: "slot_clear s = slot_empty"
  by (simp add: slot_clear_def slot_empty_def)

text \<open>
  Overwriting a slot: the old entry is released, the new pair stored.
\<close>

lemma free_slot_ok:
  assumes "wf_pool pool" and "holds wy pool s k v" and "length (entries pool) < 2 ^ 59"
  shows "\<exists>pool'. free_slot pool s = Inr pool' \<and> wf_pool pool'
     \<and> live pool' = live pool - (if is_slab s then {slab_idx s} else {})
     \<and> (\<forall>j\<in>live pool'. stored pool' j = stored pool j) \<and> length (entries pool') = length (entries pool)"
  using assms slab.release_law [of pool "slab_idx s"]
  by (cases "is_slab s") (auto simp: free_slot_def is_slab_def holds_def)

lemma store_entry_ok:
  assumes "wf_pool pool" and "length key + length val < 2 ^ 32" and "length (entries pool) < 2 ^ 59"
  shows "\<exists>s pool'. store_entry pool key val (compute_hash wy key) = Inr (s, pool') \<and> wf_pool pool'
     \<and> holds wy pool' s key val \<and> (is_slab s \<longleftrightarrow> \<not> inline_pair key val) \<and> (is_slab s \<longrightarrow> slab_idx s \<notin> live pool)
     \<and> live pool' = live pool \<union> (if is_slab s then {slab_idx s} else {})
     \<and> (\<forall>j\<in>live pool. stored pool' j = stored pool j)
     \<and> length (entries pool') \<le> max (length (entries pool)) (Suc (card (live pool)))"
proof (cases "inline_pair key val")
  case True
  then obtain s where s: "set_inline key val = Inr s" "length s = 14" "get_mode s = 0" "inline_key s = key" "inline_value s = val"
    using set_inline_ok [OF True] by blast
  then have "store_entry pool key val (compute_hash wy key) = Inr (s, pool)" "\<not> is_slab s" "holds wy pool s key val"
    using True by (simp_all add: store_entry_def inline_pair_def is_slab_def holds_def)
  then show ?thesis using True assms(1) by (intro exI [of _ s] exI [of _ pool]) simp
next
  case False
  then have "fits key val" using assms(2) by (auto simp: inline_pair_def fits_def)
  then obtain i pool' where a: "slab_alloc pool key val = Inr (i, pool')" "wf_pool pool'" "i \<notin> live pool"
    "live pool' = insert i (live pool)" "stored pool' i = Inr (key, val)"
    "\<forall>j\<in>live pool. stored pool' j = stored pool j"
    "length (entries pool') = max (length (entries pool)) (Suc (card (live pool)))"
    using slab.alloc_law [OF assms(1) _ assms(3)] by blast
  have "card (live pool) \<le> length (entries pool)"
    using card_mono [of "{..<length (entries pool)}" "live pool"] by (auto simp: live_def)
  with a(7) assms(3) have "length (entries pool') \<le> 2 ^ 59" by simp
  moreover have "i < length (entries pool')" using a(4) by (auto intro: live_less)
  ultimately have "i < 2 ^ 64" by simp
  from set_slab_ok [OF this ext_fp_hi_masked, of wy key "ext_fp (compute_hash wy key)"] obtain s where
    s: "set_slab (ext_fp_hi (compute_hash wy key)) (ext_fp (compute_hash wy key)) i = Inr s"
      "length s = 14" "is_slab s" "slab_idx s = i"
      "get_ext_fp_hi s = ext_fp_hi (compute_hash wy key)" "get_ext_fp s = ext_fp (compute_hash wy key)"
    by blast
  then have "store_entry pool key val (compute_hash wy key) = Inr (s, pool')"
    using False a(1) by (auto simp: store_entry_def inline_pair_def)
  moreover have "holds wy pool' s key val" using a s by (simp add: holds_def)
  ultimately show ?thesis using a s False by (intro exI [of _ s] exI [of _ pool']) simp
qed

section \<open>Properties\<close>

text \<open>
  C31: slots are faithful. Storing a pair below the 32-bit limit fills one 14-byte slot, inline
  exactly when the key has at most 6 and the value at most 7 bytes; both parts are read back
  unchanged through every accessor, the slot matches its own key and no other, and no live slab entry
  changes.
\<close>

theorem slot_roundtrip:
  assumes "wf_pool pool" and "length key + length val < 2 ^ 32" and "length (entries pool) < 2 ^ 59"
  shows "\<exists>s pool'. store_entry pool key val (compute_hash wy key) = Inr (s, pool') \<and> length s = 14
     \<and> (get_mode s = 0 \<longleftrightarrow> length key \<le> 6 \<and> length val \<le> 7)
     \<and> get_key_bytes s pool' = Inr key \<and> get_value_bytes s pool' = Inr val \<and> get_value s pool' = Inr val
     \<and> (\<forall>key'. matches_key s key' (compute_hash wy key') pool' = Inr (key' = key))
     \<and> (\<forall>j\<in>live pool. stored pool' j = stored pool j)"
proof -
  obtain s pool' where s: "store_entry pool key val (compute_hash wy key) = Inr (s, pool')" "wf_pool pool'"
    "holds wy pool' s key val" "\<forall>j\<in>live pool. stored pool' j = stored pool j" "is_slab s \<longleftrightarrow> \<not> inline_pair key val"
    using store_entry_ok [OF assms, of wy] by blast
  have "get_mode s = 0 \<longleftrightarrow> inline_pair key val" using s(5) not_is_slab by blast
  moreover have "length s = 14" using s(3) by (simp add: holds_def)
  ultimately show ?thesis using s holds_reads [OF s(3)] by (auto simp: inline_pair_def)
qed

theorem slot_roundtrip_witness:
  "\<exists>s p. store_entry slab_new [1, 2] [3] (compute_hash demo_hash [1, 2]) = Inr (s, p)
     \<and> get_mode s = 0 \<and> get_value s p = Inr [3]"
  using slot_roundtrip [of slab_new "[1, 2]" "[3]" demo_hash] slab_new_wf by (auto simp: slab_new_def)

end
