(* ===== verification/Table.thy ===== *)
theory Table
  imports Meta Slot
begin

text \<open>
  Buckets (\<^verbatim>\<open>src/src/engine/bucket.rs\<close>) and the table they form with a slab pool, the
  storage both \<^verbatim>\<open>PulseMapRaw\<close> and \<^verbatim>\<open>ConcurrentPulseMap\<close> work on. The
  invariant \<open>table_inv\<close> ties the byte-level state to a ghost map from positions
  (bucket, slot) to key-value pairs; the lemmas give the effect of the three steps the maps are
  made of: releasing a slot, storing a pair in a slot, and finding a key in its bucket.
\<close>

record bucket =
  meta :: u64
  slots :: "slot list"

definition bucket_empty :: bucket where
  "bucket_empty = \<lparr>meta = meta_empty, slots = replicate 4 slot_empty\<rparr>"

text \<open>The candidate loop of \<^verbatim>\<open>insert\<close>, \<^verbatim>\<open>get\<close>, \<^verbatim>\<open>peek\<close> and \<^verbatim>\<open>remove\<close>.\<close>

definition find_in_bucket :: "slab_pool \<Rightarrow> bucket \<Rightarrow> bytes \<Rightarrow> hash_result \<Rightarrow> nat option res" where
  "find_in_bucket pool b key hr =
     match_loop (\<lambda>i. bindR (index (slots b) i) (\<lambda>s. matches_key s key hr pool))
       (match_mask (meta b) (h2 hr))"

section \<open>Positions and contents\<close>

type_synonym position = "nat \<times> nat"
type_synonym ghost = "position \<Rightarrow> (bytes \<times> bytes) option"

definition cells :: "bucket list \<Rightarrow> position set" where
  "cells bs = {..<length bs} \<times> {..<4}"

definition slot_at :: "bucket list \<Rightarrow> position \<Rightarrow> slot" where
  "slot_at bs pos = slots (bs ! fst pos) ! snd pos"

definition state_at :: "bucket list \<Rightarrow> position \<Rightarrow> slot_state" where
  "state_at bs pos = get_state (meta (bs ! fst pos)) (snd pos)"

definition h2_at :: "bucket list \<Rightarrow> position \<Rightarrow> u8" where
  "h2_at bs pos = get_h2 (meta (bs ! fst pos)) (snd pos)"

text \<open>The pair a position holds, read the way the iterator reads it.\<close>

definition contents :: "bucket list \<Rightarrow> slab_pool \<Rightarrow> ghost" where
  "contents bs pool pos =
     (if fst pos < length bs \<and> snd pos < 4 \<and> state_at bs pos = Full
      then (case (get_key_bytes (slot_at bs pos) pool, get_value (slot_at bs pos) pool) of
              (Inr k, Inr v) \<Rightarrow> Some (k, v)
            | _ \<Rightarrow> None)
      else None)"

definition put_slot :: "bucket list \<Rightarrow> position \<Rightarrow> slot \<Rightarrow> u64 \<Rightarrow> bucket list" where
  "put_slot bs pos s m =
     bs[fst pos := (bs ! fst pos)\<lparr>slots := (slots (bs ! fst pos))[snd pos := s], meta := m\<rparr>]"

section \<open>The invariant\<close>

definition bucket_shape :: "bucket list \<Rightarrow> bool" where
  "bucket_shape bs \<longleftrightarrow>
     (\<forall>b<length bs. length (slots (bs ! b)) = 4 \<and> (\<forall>i<4. length (slots (bs ! b) ! i) = 14))"

text \<open>
  \<open>repr\<close>: the pairs of the ghost map are stored in their slots, fingerprinted and bucketed by
  their hash, no key twice, and the live slab indices are exactly those of the slab-mode slots,
  each used once. \<open>table_inv\<close> adds that the Full slots are exactly the positions in use.
\<close>

definition slab_cells :: "bucket list \<Rightarrow> ghost \<Rightarrow> position set" where
  "slab_cells bs C = {pos \<in> dom C. is_slab (slot_at bs pos)}"

definition repr :: "(bytes \<Rightarrow> u64) \<Rightarrow> (u64 \<Rightarrow> nat) \<Rightarrow> bucket list \<Rightarrow> slab_pool \<Rightarrow> ghost \<Rightarrow> bool" where
  "repr wy ix bs pool C \<longleftrightarrow>
     wf_pool pool \<and> bucket_shape bs \<and> dom C \<subseteq> cells bs
     \<and> (\<forall>pos k v. C pos = Some (k, v) \<longrightarrow>
          holds wy pool (slot_at bs pos) k v \<and> h2_at bs pos = h2 (compute_hash wy k)
          \<and> ix (wy k) = fst pos)
     \<and> (\<forall>pos pos' k v v'. C pos = Some (k, v) \<longrightarrow> C pos' = Some (k, v') \<longrightarrow> pos = pos')
     \<and> bij_betw (\<lambda>pos. slab_idx (slot_at bs pos)) (slab_cells bs C) (live pool)
     \<and> length (entries pool) \<le> 4 * length bs"

definition table_inv :: "(bytes \<Rightarrow> u64) \<Rightarrow> (u64 \<Rightarrow> nat) \<Rightarrow> bucket list \<Rightarrow> slab_pool \<Rightarrow> ghost \<Rightarrow> bool" where
  "table_inv wy ix bs pool C \<longleftrightarrow>
     repr wy ix bs pool C \<and> (\<forall>pos\<in>cells bs. state_at bs pos = Full \<longleftrightarrow> pos \<in> dom C)"

text \<open>
  A metadata word that agrees on states and fingerprints except at one slot: what every update of
  a bucket produces.
\<close>

definition same_except :: "nat \<Rightarrow> u64 \<Rightarrow> u64 \<Rightarrow> bool" where
  "same_except i m m' \<longleftrightarrow>
     (\<forall>j<4. j \<noteq> i \<longrightarrow> get_state m' j = get_state m j \<and> get_h2 m' j = get_h2 m j)"

section \<open>Reading\<close>

lemma in_cells: "pos \<in> cells bs \<longleftrightarrow> fst pos < length bs \<and> snd pos < 4"
  by (cases pos) (simp add: cells_def)

lemma finite_cells [simp]: "finite (cells bs)" and card_cells: "card (cells bs) = 4 * length bs"
  by (simp_all add: cells_def card_cartesian_product)

lemma reprD:
  assumes "repr wy ix bs pool C"
  shows "wf_pool pool" and "bucket_shape bs" and "dom C \<subseteq> cells bs"
    and "C pos = Some (k, v) \<Longrightarrow> holds wy pool (slot_at bs pos) k v"
    and "C pos = Some (k, v) \<Longrightarrow> h2_at bs pos = h2 (compute_hash wy k)"
    and "C pos = Some (k, v) \<Longrightarrow> ix (wy k) = fst pos"
    and "C pos = Some (k, v) \<Longrightarrow> C pos' = Some (k, v') \<Longrightarrow> pos = pos'"
    and "bij_betw (\<lambda>pos. slab_idx (slot_at bs pos)) (slab_cells bs C) (live pool)"
    and "length (entries pool) \<le> 4 * length bs"
    and "finite (dom C)"
  using assms finite_subset [of "dom C" "cells bs"] unfolding repr_def by (blast, blast, blast, blast, blast, blast, metis, blast, blast, simp)

lemma inv_repr: "table_inv wy ix bs pool C \<Longrightarrow> repr wy ix bs pool C"
  by (simp add: table_inv_def)

lemma inv_full:
  "table_inv wy ix bs pool C \<Longrightarrow> pos \<in> cells bs \<Longrightarrow> state_at bs pos = Full \<longleftrightarrow> (\<exists>k v. C pos = Some (k, v))"
  unfolding table_inv_def by fastforce

lemma table_inv_contents:
  assumes "table_inv wy ix bs pool C"
  shows "contents bs pool = C"
proof
  fix pos
  note r = inv_repr [OF assms]
  show "contents bs pool pos = C pos"
  proof (cases "C pos")
    case None
    then have "pos \<notin> dom C" by auto
    then show ?thesis using assms None
      by (auto simp: contents_def table_inv_def in_cells)
  next
    case (Some kv)
    obtain k v where kv: "kv = (k, v)" by fastforce
    have "pos \<in> dom C" using Some by auto
    then have c: "pos \<in> cells bs" using reprD(3) [OF r] by blast
    with assms \<open>pos \<in> dom C\<close> have "state_at bs pos = Full" by (simp add: table_inv_def)
    with c show ?thesis using holds_reads [OF reprD(4) [OF r Some [unfolded kv]]] Some kv
      by (simp add: contents_def in_cells)
  qed
qed

lemma find_SomeD: "find P xs = Some x \<Longrightarrow> x \<in> set xs \<and> P x"
  by (auto simp: find_Some_iff)

lemma find_in_bucket_ok:
  assumes inv: "table_inv wy ix bs pool C" and b: "b < length bs"
  shows "\<exists>r. find_in_bucket pool (bs ! b) key (compute_hash wy key) = Inr r
     \<and> (case r of Some i \<Rightarrow> i < 4 \<and> (\<exists>v. C (b, i) = Some (key, v))
        | None \<Rightarrow> \<forall>i v. C (b, i) \<noteq> Some (key, v))"
proof -
  note r = inv_repr [OF inv]
  let ?m = "match_mask (meta (bs ! b)) (h2 (compute_hash wy key))"
  let ?test = "\<lambda>i. bindR (index (slots (bs ! b)) i) (\<lambda>s. matches_key s key (compute_hash wy key) pool)"
  let ?P = "\<lambda>i. \<exists>v. C (b, i) = Some (key, v)"
  have test: "?test i = Inr (?P i)" if i4: "i < 4" and c: "bit ?m i" for i
  proof -
    have "state_at bs (b, i) = Full" using c by (simp add: bit_match_mask state_at_def)
    then obtain k v where kv: "C (b, i) = Some (k, v)"
      using inv_full [OF inv, of "(b, i)"] b i4 by (auto simp: in_cells)
    have "length (slots (bs ! b)) = 4" using reprD(2) [OF r] b by (simp add: bucket_shape_def)
    then show ?thesis
      using i4 holds_reads(1) [OF reprD(4) [OF r kv]] kv by (simp add: index_ok slot_at_def)
  qed
  have cand: "bit ?m i" if "i < 4" "?P i" for i
  proof -
    from that obtain v where v: "C (b, i) = Some (key, v)" by blast
    then have "state_at bs (b, i) = Full"
      using inv_full [OF inv, of "(b, i)"] b that(1) by (auto simp: in_cells)
    with reprD(5) [OF r v] that(1) show ?thesis
      by (simp add: bit_match_mask state_at_def h2_at_def)
  qed
  have slot4: "i < 4" if "?P i" for i
    using that reprD(3) [OF r] by (auto simp: cells_def)
  have "find_in_bucket pool (bs ! b) key (compute_hash wy key) = Inr (find ?P (filter (bit ?m) [0..<4]))"
    unfolding find_in_bucket_def by (rule match_loop_eq [OF match_mask_less]) (rule test)
  moreover have "case find ?P (filter (bit ?m) [0..<4]) of Some i \<Rightarrow> i < 4 \<and> ?P i | None \<Rightarrow> \<forall>i. \<not> ?P i"
    using cand slot4 by (auto simp: find_None_iff dest!: find_SomeD split: option.split)
  ultimately show ?thesis by (auto split: option.splits)
qed

section \<open>Writing\<close>

lemma put_slot_length [simp]: "length (put_slot bs pos s m) = length bs"
  by (simp add: put_slot_def)

lemma put_slot_cells [simp]: "cells (put_slot bs pos s m) = cells bs"
  by (simp add: cells_def)

lemma put_slot_slot_at:
  assumes "bucket_shape bs" and "pos \<in> cells bs" and "pos' \<in> cells bs"
  shows "slot_at (put_slot bs pos s m) pos' = (if pos' = pos then s else slot_at bs pos')"
  using assms by (cases pos; cases pos') (auto simp: put_slot_def slot_at_def cells_def bucket_shape_def nth_list_update)

lemma put_slot_meta:
  assumes "pos \<in> cells bs" and "b < length bs"
  shows "meta (put_slot bs pos s m ! b) = (if b = fst pos then m else meta (bs ! b))"
  using assms by (simp add: put_slot_def in_cells nth_list_update)

lemma put_slot_state_at:
  assumes "pos \<in> cells bs" and "pos' \<in> cells bs"
  shows "state_at (put_slot bs pos s m) pos' =
     (if fst pos' = fst pos then get_state m (snd pos') else state_at bs pos')"
  using assms by (simp add: state_at_def put_slot_meta in_cells)

lemma put_slot_h2_at:
  assumes "pos \<in> cells bs" and "pos' \<in> cells bs"
  shows "h2_at (put_slot bs pos s m) pos' =
     (if fst pos' = fst pos then get_h2 m (snd pos') else h2_at bs pos')"
  using assms by (simp add: h2_at_def put_slot_meta in_cells)

lemma put_slot_shape:
  assumes "bucket_shape bs" and "pos \<in> cells bs" and "length s = 14"
  shows "bucket_shape (put_slot bs pos s m)"
  using assms by (auto simp: bucket_shape_def put_slot_def in_cells nth_list_update)

lemma repr_release:
  assumes r: "repr wy ix bs pool C" and c: "C pos = Some (k, v)" and n: "length bs < 2 ^ 57"
  shows "\<exists>pool'. free_slot pool (slot_at bs pos) = Inr pool' \<and> repr wy ix bs pool' (C(pos := None))"
proof -
  let ?s = "slot_at bs pos" and ?f = "\<lambda>pos. slab_idx (slot_at bs pos)"
  have e: "length (entries pool) < 2 ^ 59" using reprD(9) [OF r] n by simp
  obtain pool' where p: "free_slot pool ?s = Inr pool'" "wf_pool pool'"
    "live pool' = live pool - (if is_slab ?s then {slab_idx ?s} else {})"
    "\<forall>j\<in>live pool'. stored pool' j = stored pool j" "length (entries pool') = length (entries pool)"
    using free_slot_ok [OF reprD(1) [OF r] reprD(4) [OF r c] e] by blast
  have bij: "bij_betw ?f (slab_cells bs C) (live pool)" by (rule reprD(8) [OF r])
  have cells': "slab_cells bs (C(pos := None)) = slab_cells bs C - {pos}"
    by (auto simp: slab_cells_def)
  have bij': "bij_betw ?f (slab_cells bs (C(pos := None))) (live pool')"
  proof (cases "is_slab ?s")
    case True
    then have "pos \<in> slab_cells bs C" using c by (auto simp: slab_cells_def)
    then show ?thesis using bij p(3) True unfolding cells'
      by (auto simp: bij_betw_def inj_on_diff inj_on_image_set_diff [where C = "slab_cells bs C"])
  next
    case False
    then have "pos \<notin> slab_cells bs C" by (simp add: slab_cells_def)
    then show ?thesis using bij p(3) False unfolding cells' by simp
  qed
  have "holds wy pool' (slot_at bs q) k' v'" if "C q = Some (k', v')" "q \<noteq> pos" for q k' v'
  proof (rule holds_frame [OF reprD(4) [OF r that(1)]])
    assume s: "is_slab (slot_at bs q)"
    then have "q \<in> slab_cells bs (C(pos := None))" using that by (auto simp: slab_cells_def)
    then show "?f q \<in> live pool'" using bij' by (auto simp: bij_betw_def)
    then show "stored pool' (?f q) = stored pool (?f q)" using p(4) by blast
  qed
  then have "repr wy ix bs pool' (C(pos := None))"
    using r p(2,5) bij' unfolding repr_def by (auto split: if_splits; metis)
  with p(1) show ?thesis by blast
qed

lemma repr_room:
  assumes r: "repr wy ix bs pool C" and "pos \<in> cells bs" and "C pos = None"
  shows "Suc (card (live pool)) \<le> 4 * length bs"
proof -
  have "card (live pool) = card (slab_cells bs C)"
    using bij_betw_same_card [OF reprD(8) [OF r]] by simp
  moreover have "slab_cells bs C \<subseteq> cells bs - {pos}"
    using reprD(3) [OF r] assms(3) by (auto simp: slab_cells_def)
  then have "card (slab_cells bs C) \<le> card (cells bs - {pos})"
    by (intro card_mono) auto
  moreover have "card (cells bs - {pos}) = 4 * length bs - 1"
    using assms(2) by (simp add: card_cells)
  moreover have "0 < length bs" using assms(2) by (auto simp: in_cells)
  ultimately show ?thesis by linarith
qed

text \<open>What storing a pair promises of the slot and the pool, as one predicate.\<close>

definition stored_in :: "(bytes \<Rightarrow> u64) \<Rightarrow> slab_pool \<Rightarrow> slab_pool \<Rightarrow> slot \<Rightarrow> bytes \<Rightarrow> bytes \<Rightarrow> bool" where
  "stored_in wy pool pool' s key val \<longleftrightarrow> wf_pool pool' \<and> holds wy pool' s key val
     \<and> (is_slab s \<longrightarrow> slab_idx s \<notin> live pool)
     \<and> live pool' = live pool \<union> (if is_slab s then {slab_idx s} else {})
     \<and> (\<forall>j\<in>live pool. stored pool' j = stored pool j)
     \<and> length (entries pool') \<le> max (length (entries pool)) (Suc (card (live pool)))"

lemma stored_in_old:
  assumes r: "repr wy ix bs pool C" and st: "stored_in wy pool pool' s key val" and "C q = Some (k, v)"
  shows "holds wy pool' (slot_at bs q) k v"
proof (rule holds_frame [OF reprD(4) [OF r assms(3)]])
  assume "is_slab (slot_at bs q)"
  then have "slab_idx (slot_at bs q) \<in> live pool" using reprD(4) [OF r assms(3)] by (simp add: holds_def)
  then show "slab_idx (slot_at bs q) \<in> live pool'"
    and "stored pool' (slab_idx (slot_at bs q)) = stored pool (slab_idx (slot_at bs q))"
    using st by (auto simp: stored_in_def)
qed

lemma stored_in_bij:
  assumes r: "repr wy ix bs pool C" and st: "stored_in wy pool pool' s key val"
    and pos: "pos \<in> cells bs" and free: "C pos = None"
  shows "bij_betw (\<lambda>q. slab_idx (slot_at (put_slot bs pos s m) q))
     (slab_cells (put_slot bs pos s m) (C(pos \<mapsto> (key, val)))) (live pool')"
proof -
  let ?bs = "put_slot bs pos s m" and ?C = "C(pos \<mapsto> (key, val))"
  note at = put_slot_slot_at [OF reprD(2) [OF r] pos]
  have at_old: "slot_at ?bs q = slot_at bs q" if "C q = Some kv" for q kv
  proof -
    have "q \<in> cells bs" using reprD(3) [OF r] that by blast
    moreover have "q \<noteq> pos" using that free by auto
    ultimately show ?thesis by (simp add: at)
  qed
  have cells': "slab_cells ?bs ?C = slab_cells bs C \<union> (if is_slab s then {pos} else {})"
    using free at [OF pos] by (auto simp: slab_cells_def at_old split: if_splits)
  have new: "pos \<notin> slab_cells bs C" using free by (auto simp: slab_cells_def)
  have bij: "bij_betw (\<lambda>q. slab_idx (slot_at ?bs q)) (slab_cells bs C) (live pool)"
    using reprD(8) [OF r] reprD(3) [OF r] new
    by (subst bij_betw_cong [where g = "\<lambda>q. slab_idx (slot_at bs q)"]) (auto simp: slab_cells_def at_old)
  show ?thesis
  proof (cases "is_slab s")
    case True
    then show ?thesis using notIn_Un_bij_betw [OF new _ bij] st
      by (simp add: cells' at pos stored_in_def)
  next
    case False
    then show ?thesis using bij st by (simp add: cells' stored_in_def)
  qed
qed

lemma repr_put:
  assumes r: "repr wy ix bs pool C" and st: "stored_in wy pool pool' s key val"
    and pos: "pos \<in> cells bs" and free: "C pos = None"
    and ix: "ix (wy key) = fst pos" and new: "\<And>q v. C q \<noteq> Some (key, v)"
    and m: "same_except (snd pos) (meta (bs ! fst pos)) m" "get_h2 m (snd pos) = h2 (compute_hash wy key)"
  shows "repr wy ix (put_slot bs pos s m) pool' (C(pos \<mapsto> (key, val)))"
proof -
  let ?bs = "put_slot bs pos s m" and ?C = "C(pos \<mapsto> (key, val))"
  have s: "wf_pool pool'" "holds wy pool' s key val"
    "length (entries pool') \<le> max (length (entries pool)) (Suc (card (live pool)))"
    using st by (auto simp: stored_in_def)
  have shape: "bucket_shape bs" by (rule reprD(2) [OF r])
  have len: "length s = 14" using s(2) by (simp add: holds_def)
  note at = put_slot_slot_at [OF shape pos]
  have dom: "dom C \<subseteq> cells bs" by (rule reprD(3) [OF r])
  have h2: "h2_at ?bs q = h2_at bs q" if "q \<in> cells bs" "q \<noteq> pos" for q
    using that m(1) pos by (cases q; cases pos) (auto simp: put_slot_meta same_except_def h2_at_def in_cells)
  have "length (entries pool') \<le> 4 * length bs"
    using s(3) reprD(9) [OF r] repr_room [OF r pos free] by simp
  moreover have "h2_at ?bs pos = h2 (compute_hash wy key)" using m(2) pos by (simp add: put_slot_h2_at)
  moreover have "dom ?C \<subseteq> cells bs" using dom pos by auto
  moreover have "holds wy pool' (slot_at ?bs q) k v \<and> h2_at ?bs q = h2 (compute_hash wy k) \<and> ix (wy k) = fst q"
    if "?C q = Some (k, v)" for q k v
  proof (cases "q = pos")
    case True
    then show ?thesis using that s(2) ix calculation by (simp add: at pos)
  next
    case False
    with that have "C q = Some (k, v)" by simp
    moreover from this have "q \<in> cells bs" using dom by auto
    ultimately show ?thesis using False reprD(5,6) [OF r] stored_in_old [OF r st] by (simp add: at h2)
  qed
  moreover have "q = q'" if "?C q = Some (k, v)" "?C q' = Some (k, v')" for q q' k v v'
    using that new reprD(7) [OF r] by (auto split: if_splits)
  ultimately show ?thesis
    unfolding repr_def using s(1) put_slot_shape [OF shape pos len] stored_in_bij [OF r st pos free, of m]
    by (auto simp del: fun_upd_apply)
qed

lemma repr_store:
  assumes r: "repr wy ix bs pool C" and pos: "pos \<in> cells bs" and free: "C pos = None"
    and ix: "ix (wy key) = fst pos" and new: "\<And>q v. C q \<noteq> Some (key, v)"
    and sz: "length key + length val < 2 ^ 32" and n: "length bs < 2 ^ 57"
  shows "\<exists>s pool'. store_entry pool key val (compute_hash wy key) = Inr (s, pool')
     \<and> (\<forall>m. same_except (snd pos) (meta (bs ! fst pos)) m \<longrightarrow>
            get_h2 m (snd pos) = h2 (compute_hash wy key) \<longrightarrow>
            repr wy ix (put_slot bs pos s m) pool' (C(pos \<mapsto> (key, val))))"
proof -
  have e: "length (entries pool) < 2 ^ 59" using reprD(9) [OF r] n by simp
  obtain s pool' where s: "store_entry pool key val (compute_hash wy key) = Inr (s, pool')"
    "stored_in wy pool pool' s key val"
    using store_entry_ok [OF reprD(1) [OF r] sz e, of wy] unfolding stored_in_def by blast
  with repr_put [OF r s(2) pos free ix new] show ?thesis by blast
qed

lemma repr_overwrite_free:
  assumes r: "repr wy ix bs pool C" and pos: "pos \<in> cells bs" and free: "C pos = None"
    and s: "length s = 14" and m: "same_except (snd pos) (meta (bs ! fst pos)) m"
  shows "repr wy ix (put_slot bs pos s m) pool C"
proof -
  let ?bs = "put_slot bs pos s m"
  have old: "slot_at ?bs q = slot_at bs q \<and> h2_at ?bs q = h2_at bs q" if "C q = Some kv" for q kv
  proof -
    have q: "q \<in> cells bs" "q \<noteq> pos" using reprD(3) [OF r] that free by auto
    then have "h2_at ?bs q = h2_at bs q"
      using m pos by (cases q; cases pos) (auto simp: put_slot_meta same_except_def h2_at_def in_cells)
    with q show ?thesis by (simp add: put_slot_slot_at [OF reprD(2) [OF r] pos])
  qed
  have cells': "slab_cells ?bs C = slab_cells bs C" by (auto simp: slab_cells_def old)
  have "bij_betw (\<lambda>q. slab_idx (slot_at ?bs q)) (slab_cells ?bs C) (live pool)"
    unfolding cells' using reprD(8) [OF r]
    by (subst bij_betw_cong [where g = "\<lambda>q. slab_idx (slot_at bs q)"]) (auto simp: slab_cells_def old)
  then show ?thesis
    unfolding repr_def using reprD [OF r] put_slot_shape [OF reprD(2) [OF r] pos s] old
    by (simp add: old)
qed

lemma new_key:
  "repr wy ix bs pool C \<Longrightarrow> ix (wy key) = b \<Longrightarrow> (\<And>i v. C (b, i) \<noteq> Some (key, v)) \<Longrightarrow> C q \<noteq> Some (key, v)"
  using reprD(6) [of wy ix bs pool C q key v] by (cases q) auto

lemma state_put:
  assumes inv: "table_inv wy ix bs pool C" and pos: "pos \<in> cells bs"
    and m: "same_except (snd pos) (meta (bs ! fst pos)) m" and q: "q \<in> cells bs" "q \<noteq> pos"
  shows "state_at (put_slot bs pos s m) q = Full \<longleftrightarrow> q \<in> dom C"
proof -
  have "state_at (put_slot bs pos s m) q = state_at bs q"
    using m pos q by (cases q; cases pos) (auto simp: put_slot_meta same_except_def state_at_def in_cells)
  then show ?thesis using inv q(1) by (simp add: table_inv_def)
qed

lemma same_except_update: "i < 4 \<Longrightarrow> same_except i m (on_access m i)"
  and same_except_insert: "i < 4 \<Longrightarrow> same_except i m (on_insert (set_h2 (set_state m i Full) i h) i)"
  and same_except_remove: "i < 4 \<Longrightarrow> same_except i m (set_state m i Tombstone)"
  by (simp_all add: same_except_def)

lemma table_store:
  assumes inv: "table_inv wy ix bs pool C" and r: "repr wy ix bs pool1 (C(pos := None))"
    and pos: "pos \<in> cells bs" and ix: "ix (wy key) = fst pos"
    and new: "\<And>q v. q \<noteq> pos \<Longrightarrow> C q \<noteq> Some (key, v)"
    and sz: "length key + length val < 2 ^ 32" and n: "length bs < 2 ^ 57"
    and m: "same_except (snd pos) (meta (bs ! fst pos)) m" "get_state m (snd pos) = Full"
      "get_h2 m (snd pos) = h2 (compute_hash wy key)"
  shows "\<exists>s pool'. store_entry pool1 key val (compute_hash wy key) = Inr (s, pool')
     \<and> table_inv wy ix (put_slot bs pos s m) pool' (C(pos \<mapsto> (key, val)))"
proof -
  obtain s pool' where s: "store_entry pool1 key val (compute_hash wy key) = Inr (s, pool')"
    "repr wy ix (put_slot bs pos s m) pool' (C(pos := None, pos \<mapsto> (key, val)))"
    using repr_store [OF r pos _ ix _ sz n] new m by (metis fun_upd_same fun_upd_other option.distinct(1))
  moreover have "state_at (put_slot bs pos s m) q = Full \<longleftrightarrow> q \<in> dom (C(pos \<mapsto> (key, val)))"
    if "q \<in> cells bs" for q
    using state_put [OF inv pos m(1) that] m(2) pos that by (cases "q = pos") (auto simp: put_slot_state_at)
  ultimately show ?thesis by (auto simp: table_inv_def)
qed

lemma table_update:
  assumes inv: "table_inv wy ix bs pool C" and c: "C (b, i) = Some (key, v)"
    and sz: "length key + length val < 2 ^ 32" and n: "length bs < 2 ^ 57"
  shows "\<exists>pool1 s pool'. free_slot pool (slots (bs ! b) ! i) = Inr pool1
     \<and> store_entry pool1 key val (compute_hash wy key) = Inr (s, pool')
     \<and> table_inv wy ix (put_slot bs (b, i) s (on_access (meta (bs ! b)) i)) pool' (C((b, i) \<mapsto> (key, val)))"
proof -
  note r = inv_repr [OF inv]
  have pos: "(b, i) \<in> cells bs" using reprD(3) [OF r] c by blast
  then have i: "i < 4" by (simp add: in_cells)
  obtain pool1 where p1: "free_slot pool (slot_at bs (b, i)) = Inr pool1"
    "repr wy ix bs pool1 (C((b, i) := None))"
    using repr_release [OF r c n] by blast
  have full: "get_state (meta (bs ! b)) i = Full" using inv_full [OF inv pos] c by (simp add: state_at_def)
  have h: "get_h2 (meta (bs ! b)) i = h2 (compute_hash wy key)"
    using reprD(5) [OF r c] by (simp add: h2_at_def)
  have "C q \<noteq> Some (key, v')" if "q \<noteq> (b, i)" for q v'
    using reprD(7) [OF r c] that by metis
  then show ?thesis
    using table_store [OF inv p1(2) pos _ _ sz n, of "on_access (meta (bs ! b)) i"]
      p1(1) i full h reprD(6) [OF r c] same_except_update by (auto simp: slot_at_def)
qed

lemma table_place:
  assumes inv: "table_inv wy ix bs pool C" and pos: "(b, i) \<in> cells bs" and ix: "ix (wy key) = b"
    and new: "\<And>i v. C (b, i) \<noteq> Some (key, v)"
    and sz: "length key + length val < 2 ^ 32" and n: "length bs < 2 ^ 57"
  shows "\<exists>pool1 s pool'.
     (if get_state (meta (bs ! b)) i = Full then free_slot pool (slots (bs ! b) ! i) else Inr pool) = Inr pool1
     \<and> store_entry pool1 key val (compute_hash wy key) = Inr (s, pool')
     \<and> table_inv wy ix
         (put_slot bs (b, i) s
           (on_insert (set_h2 (set_state (meta (bs ! b)) i Full) i (h2 (compute_hash wy key))) i))
         pool' (C((b, i) \<mapsto> (key, val)))"
proof -
  note r = inv_repr [OF inv]
  have i: "i < 4" using pos by (simp add: in_cells)
  let ?m = "on_insert (set_h2 (set_state (meta (bs ! b)) i Full) i (h2 (compute_hash wy key))) i"
  obtain pool1 where p1: "(if get_state (meta (bs ! b)) i = Full then free_slot pool (slots (bs ! b) ! i)
      else Inr pool) = Inr pool1" "repr wy ix bs pool1 (C((b, i) := None))"
  proof (cases "get_state (meta (bs ! b)) i = Full")
    case True
    then obtain k v where "C (b, i) = Some (k, v)" using inv_full [OF inv pos] by (auto simp: state_at_def)
    then show ?thesis using repr_release [OF r _ n, of "(b, i)" k v] that True by (auto simp: slot_at_def)
  next
    case False
    then have "C (b, i) = None" using inv_full [OF inv pos] by (cases "C (b, i)") (auto simp: state_at_def)
    then have "C((b, i) := None) = C" by auto
    then show ?thesis using that r False by simp
  qed
  have nk: "C q \<noteq> Some (key, v)" for q v
    using new_key [OF r ix] new by blast
  have "\<exists>s pool'. store_entry pool1 key val (compute_hash wy key) = Inr (s, pool')
     \<and> table_inv wy ix (put_slot bs (b, i) s ?m) pool' (C((b, i) \<mapsto> (key, val)))"
    by (rule table_store [OF inv p1(2) pos _ _ sz n])
      (use nk ix i same_except_insert in \<open>auto simp del: h2_masked simp: h2_masked\<close>)
  with p1(1) show ?thesis by blast
qed

lemma table_clear:
  assumes inv: "table_inv wy ix bs pool C" and c: "C (b, i) = Some (key, v)" and n: "length bs < 2 ^ 57"
  shows "\<exists>pool'. free_slot pool (slots (bs ! b) ! i) = Inr pool'
     \<and> table_inv wy ix (put_slot bs (b, i) (slot_clear (slots (bs ! b) ! i))
          (set_state (meta (bs ! b)) i Tombstone)) pool' (C((b, i) := None))"
proof -
  note r = inv_repr [OF inv]
  let ?m = "set_state (meta (bs ! b)) i Tombstone"
  have pos: "(b, i) \<in> cells bs" using reprD(3) [OF r] c by blast
  then have i: "i < 4" by (simp add: in_cells)
  obtain pool' where p: "free_slot pool (slot_at bs (b, i)) = Inr pool'"
    "repr wy ix bs pool' (C((b, i) := None))"
    using repr_release [OF r c n] by blast
  have "repr wy ix (put_slot bs (b, i) slot_empty ?m) pool' (C((b, i) := None))"
    by (rule repr_overwrite_free [OF p(2) pos]) (use same_except_remove i in auto)
  moreover have "state_at (put_slot bs (b, i) slot_empty ?m) q = Full \<longleftrightarrow> q \<in> dom (C((b, i) := None))"
    if "q \<in> cells bs" for q
    using state_put [OF inv pos _ that, of ?m slot_empty] pos that i same_except_remove [OF i]
    by (cases "q = (b, i)") (auto simp: put_slot_state_at)
  ultimately show ?thesis using p(1) by (auto simp: table_inv_def slot_at_def)
qed

lemma table_touch:
  assumes inv: "table_inv wy ix bs pool C" and b: "b < length bs" and i: "i < 4"
  shows "table_inv wy ix (bs[b := (bs ! b)\<lparr>meta := on_access (meta (bs ! b)) i\<rparr>]) pool C"
proof -
  let ?bs = "bs[b := (bs ! b)\<lparr>meta := on_access (meta (bs ! b)) i\<rparr>]"
  have s: "slot_at ?bs = slot_at bs"
    by (rule ext) (use b in \<open>auto simp: slot_at_def nth_list_update\<close>)
  have c: "cells ?bs = cells bs" by (simp add: cells_def)
  have f: "h2_at ?bs q = h2_at bs q" "state_at ?bs q = state_at bs q" if "q \<in> cells bs" for q
    using that b i by (auto simp: h2_at_def state_at_def in_cells nth_list_update)
  have sh: "bucket_shape ?bs = bucket_shape bs"
    using b by (auto simp: bucket_shape_def nth_list_update)
  have "h2_at ?bs q = h2_at bs q" if "C q = Some kv" for q kv
    using f(1) [of q] reprD(3) [OF inv_repr [OF inv]] that by blast
  with inv show ?thesis
    unfolding table_inv_def repr_def slab_cells_def s sh c length_list_update by (simp add: f)
qed

lemma get_state_empty [simp]: "i < 4 \<Longrightarrow> get_state meta_empty i = Empty"
  by (simp add: get_state_def meta_empty_def shr64_def from_bits_def)

lemma table_inv_empty: "table_inv wy ix (replicate n bucket_empty) slab_new (\<lambda>_. None)"
proof -
  have "bucket_shape (replicate n bucket_empty)"
    by (simp add: bucket_shape_def bucket_empty_def)
  moreover have "state_at (replicate n bucket_empty) pos \<noteq> Full" if "pos \<in> cells (replicate n bucket_empty)" for pos
    using that by (simp add: state_at_def in_cells bucket_empty_def)
  ultimately show ?thesis
    using slab_new_wf by (simp add: table_inv_def repr_def slab_cells_def bij_betw_def slab_new_def)
qed

lemma bucket_full_iff:
  assumes "table_inv wy ix bs pool C" and "b < length bs" and "j < 4"
  shows "get_state (meta (bs ! b)) j = Full \<longleftrightarrow> C (b, j) \<noteq> None"
  using inv_full [OF assms(1), of "(b, j)"] assms(2,3) by (cases "C (b, j)") (auto simp: in_cells state_at_def)

end
