(* ===== verification/View.thy ===== *)
theory View
  imports Table
begin

text \<open>
  Per-slot TTL stamps (\<^verbatim>\<open>SlotTTL\<close> of \<^verbatim>\<open>src/src/raw.rs\<close>, shared by
  \<^verbatim>\<open>src/src/sync.rs\<close>) and the abstract state of a table: a finite map from keys to a value
  with its stamp. The lemmas say how the map changes when one position of the table changes.
\<close>

record slot_ttl =
  st_epoch :: u64
  st_ttl :: u64

definition slot_ttl_default :: slot_ttl where
  "slot_ttl_default = \<lparr>st_epoch = 0, st_ttl = 0\<rparr>"

text \<open>The expiry test on a stamp; \<^verbatim>\<open>u64::MAX\<close> is the word \<open>- 1\<close>.\<close>

definition ttl_expired :: "u64 \<Rightarrow> u64 \<Rightarrow> slot_ttl \<Rightarrow> bool" where
  "ttl_expired now dflt entry =
     (let effective_ttl = (if st_ttl entry = 0 then dflt else st_ttl entry) in
      if effective_ttl = 0 \<or> effective_ttl = - 1 then False
      else effective_ttl < now - st_epoch entry)"

type_synonym stored_map = "bytes \<rightharpoonup> bytes \<times> slot_ttl"

definition has_key :: "ghost \<Rightarrow> bytes \<Rightarrow> position \<Rightarrow> bool" where
  "has_key C key pos \<longleftrightarrow> (case C pos of None \<Rightarrow> False | Some (k, v) \<Rightarrow> k = key)"

text \<open>The entry of a key: its slot in the bucket that its hash selects, with the slot's stamp.\<close>

definition view :: "(bytes \<Rightarrow> nat) \<Rightarrow> ghost \<Rightarrow> slot_ttl list \<Rightarrow> stored_map" where
  "view bx C T key =
     (case find (\<lambda>i. has_key C key (bx key, i)) [0..<4] of
        None \<Rightarrow> None
      | Some i \<Rightarrow> Some (snd (the (C (bx key, i))), T ! (bx key * 4 + i)))"

definition stamp_index :: "position \<Rightarrow> nat" where
  "stamp_index pos = fst pos * 4 + snd pos"

text \<open>What remains of the map when the entry at a position is dropped.\<close>

definition without :: "ghost \<Rightarrow> position \<Rightarrow> stored_map \<Rightarrow> stored_map" where
  "without C pos V = (case C pos of None \<Rightarrow> V | Some (k, v) \<Rightarrow> V(k := None))"

text \<open>The live part of the map: what a lookup may return.\<close>

definition live_value :: "u64 \<Rightarrow> u64 \<Rightarrow> (bytes \<times> slot_ttl) option \<Rightarrow> bytes option" where
  "live_value now dflt r =
     (case r of None \<Rightarrow> None | Some (v, t) \<Rightarrow> if ttl_expired now dflt t then None else Some v)"

section \<open>Positions\<close>

text \<open>Positions are kept whole: quantifiers over them are not split into components.\<close>

declare split_paired_All [simp del] split_paired_Ex [simp del]

lemma stamp_index_parts: "snd pos < 4 \<Longrightarrow> stamp_index pos div 4 = fst pos \<and> stamp_index pos mod 4 = snd pos"
  by (simp add: stamp_index_def)

lemma stamp_index_inj:
  "p \<in> cells bs \<Longrightarrow> q \<in> cells bs \<Longrightarrow> stamp_index p = stamp_index q \<longleftrightarrow> p = q"
  using stamp_index_parts [of p] stamp_index_parts [of q] by (metis in_cells prod_eqI)

lemma stamp_index_less: "p \<in> cells bs \<Longrightarrow> stamp_index p < 4 * length bs"
  by (simp add: stamp_index_def in_cells)

lemma has_key_iff: "has_key C key pos \<longleftrightarrow> (\<exists>v. C pos = Some (key, v))"
  by (auto simp: has_key_def split: option.split)

section \<open>The view of a table\<close>

text \<open>Only these facts of a represented table matter: keys sit in their bucket, once.\<close>

definition keyed :: "(bytes \<Rightarrow> nat) \<Rightarrow> bucket list \<Rightarrow> ghost \<Rightarrow> bool" where
  "keyed bx bs C \<longleftrightarrow>
     dom C \<subseteq> cells bs \<and> (\<forall>pos k v. C pos = Some (k, v) \<longrightarrow> fst pos = bx k)
     \<and> (\<forall>pos pos' k v v'. C pos = Some (k, v) \<longrightarrow> C pos' = Some (k, v') \<longrightarrow> pos = pos')"

lemma keyedD:
  assumes "keyed bx bs C"
  shows "C pos = Some (k, v) \<Longrightarrow> pos \<in> cells bs" and "C pos = Some (k, v) \<Longrightarrow> fst pos = bx k"
    and "C pos = Some (k, v) \<Longrightarrow> C pos' = Some (k, v') \<Longrightarrow> pos' = pos"
  using assms unfolding keyed_def by blast+

lemma repr_keyed: "repr wy ix bs pool C \<Longrightarrow> keyed (\<lambda>k. ix (wy k)) bs C"
  unfolding keyed_def using reprD(3,6,7) [of wy ix bs pool C] by metis

lemma table_keyed: "table_inv wy ix bs pool C \<Longrightarrow> keyed (\<lambda>k. ix (wy k)) bs C"
  by (rule repr_keyed [OF inv_repr])

lemma view_Some:
  assumes "keyed bx bs C"
  shows "view bx C T key = Some (v, t) \<longleftrightarrow> (\<exists>pos. C pos = Some (key, v) \<and> t = T ! stamp_index pos)"
proof
  assume "view bx C T key = Some (v, t)"
  then obtain i where i: "has_key C key (bx key, i)" "v = snd (the (C (bx key, i)))"
      "t = T ! (bx key * 4 + i)"
    by (auto simp: view_def find_Some_iff split: option.splits)
  then show "\<exists>pos. C pos = Some (key, v) \<and> t = T ! stamp_index pos"
    by (intro exI [of _ "(bx key, i)"]) (auto simp: has_key_iff stamp_index_def)
next
  assume "\<exists>pos. C pos = Some (key, v) \<and> t = T ! stamp_index pos"
  then obtain pos where p: "C pos = Some (key, v)" "t = T ! stamp_index pos" by blast
  define i where "i = snd pos"
  have "pos = (bx key, i)" using keyedD(2) [OF assms p(1)] by (simp add: i_def prod_eq_iff)
  with p have c: "C (bx key, i) = Some (key, v)" and t: "t = T ! (bx key * 4 + i)"
    by (simp_all add: stamp_index_def)
  have i: "i < 4" using keyedD(1) [OF assms c] by (simp add: in_cells)
  have u: "j = i" if "has_key C key (bx key, j)" for j
    using that keyedD(3) [OF assms c] by (auto simp: has_key_iff)
  have "find (\<lambda>i. has_key C key (bx key, i)) [0..<4] = Some i"
    using i c u by (auto simp: find_upt_Some has_key_iff)
  then show "view bx C T key = Some (v, t)" by (simp add: view_def c t)
qed

lemma view_None:
  assumes "keyed bx bs C"
  shows "view bx C T key = None \<longleftrightarrow> (\<forall>pos v. C pos \<noteq> Some (key, v))"
proof -
  have "view bx C T key = None \<longleftrightarrow> (\<forall>v t. view bx C T key \<noteq> Some (v, t))"
    by (cases "view bx C T key") auto
  then show ?thesis unfolding view_Some [OF assms] by blast
qed

text \<open>A map is determined by its positions.\<close>

lemma view_eqI:
  assumes "keyed bx bs C"
    and "\<And>v t. V key = Some (v, t) \<longleftrightarrow> (\<exists>pos. C pos = Some (key, v) \<and> t = T ! stamp_index pos)"
  shows "view bx C T key = V key"
proof (cases "V key")
  case None
  then have "view bx C T key = None" using assms(2) by (metis option.distinct(1) view_None [OF assms(1)])
  with None show ?thesis by simp
next
  case (Some p)
  then show ?thesis using assms(2) [of "fst p" "snd p"] view_Some [OF assms(1), of T key "fst p" "snd p"]
    by simp
qed

lemma keyed_store:
  assumes "keyed bx bs C" and "pos \<in> cells bs" and "fst pos = bx key"
    and "\<And>q v. q \<noteq> pos \<Longrightarrow> C q \<noteq> Some (key, v)"
  shows "keyed bx bs (C(pos \<mapsto> (key, val)))"
  using assms unfolding keyed_def by (auto split: if_splits)

lemma keyed_drop: "keyed bx bs C \<Longrightarrow> keyed bx bs (C(pos := None))"
  unfolding keyed_def by auto

lemma without_Some:
  assumes "keyed bx bs C"
  shows "without C pos (view bx C T) k = Some (v, t) \<longleftrightarrow>
     (\<exists>q. q \<noteq> pos \<and> C q = Some (k, v) \<and> t = T ! stamp_index q)"
proof (cases "C pos")
  case None
  then show ?thesis using view_Some [OF assms] by (simp add: without_def) (metis option.distinct(1))
next
  case (Some kv)
  obtain k' v' where kv: "kv = (k', v')" by fastforce
  have u: "q = pos" if "C q = Some (k', w)" for q w
    using that Some kv assms unfolding keyed_def by blast
  show ?thesis
  proof (cases "k = k'")
    case True
    have "\<not> (q \<noteq> pos \<and> C q = Some (k, v) \<and> t = T ! stamp_index q)" for q
      using u [of q v] True by blast
    moreover have "without C pos (view bx C T) k = None" using Some kv True by (simp add: without_def)
    ultimately show ?thesis by simp
  next
    case False
    then have "C q = Some (k, v) \<Longrightarrow> q \<noteq> pos" for q using Some kv by auto
    with False show ?thesis using Some kv view_Some [OF assms, of T k v] by (simp add: without_def) metis
  qed
qed

lemma view_store:
  assumes k: "keyed bx bs C" and pos: "pos \<in> cells bs" "fst pos = bx key"
    and new: "\<And>q v. q \<noteq> pos \<Longrightarrow> C q \<noteq> Some (key, v)" and len: "length T = 4 * length bs"
  shows "view bx (C(pos \<mapsto> (key, val))) (T[stamp_index pos := t]) =
     (without C pos (view bx C T))(key \<mapsto> (val, t))"
proof
  fix key'
  let ?C = "C(pos \<mapsto> (key, val))" and ?T = "T[stamp_index pos := t]"
  note k' = keyed_store [OF k pos new, of val]
  have at: "?T ! stamp_index q = (if q = pos then t else T ! stamp_index q)" if "q \<in> cells bs" for q
    using that pos(1) len stamp_index_inj [of q bs pos] stamp_index_less [of pos bs]
    by (auto simp: nth_list_update)
  have dom: "q \<in> cells bs" if "C q = Some kv" for q kv using that k by (auto simp: keyed_def)
  show "view bx ?C ?T key' = ((without C pos (view bx C T))(key \<mapsto> (val, t))) key'"
  proof (rule view_eqI [OF k'])
    fix v t'
    show "((without C pos (view bx C T))(key \<mapsto> (val, t))) key' = Some (v, t') \<longleftrightarrow>
       (\<exists>q. ?C q = Some (key', v) \<and> t' = ?T ! stamp_index q)"
    proof (cases "key' = key")
      case True
      then show ?thesis using new at [OF pos(1)] by (auto split: if_splits)
    next
      case False
      then have "((without C pos (view bx C T))(key \<mapsto> (val, t))) key' = Some (v, t') \<longleftrightarrow>
         (\<exists>q. q \<noteq> pos \<and> C q = Some (key', v) \<and> t' = T ! stamp_index q)"
        by (simp add: without_Some [OF k])
      also have "\<dots> \<longleftrightarrow> (\<exists>q. ?C q = Some (key', v) \<and> t' = ?T ! stamp_index q)"
        using False at dom by (intro ex_cong1) auto
      finally show ?thesis .
    qed
  qed
qed

lemma view_drop:
  assumes k: "keyed bx bs C"
  shows "view bx (C(pos := None)) T = without C pos (view bx C T)"
proof
  fix key
  show "view bx (C(pos := None)) T key = without C pos (view bx C T) key"
    by (rule view_eqI [OF keyed_drop [OF k]]) (auto simp: without_Some [OF k])
qed

lemma without_same:
  "(\<And>k v. C pos = Some (k, v) \<Longrightarrow> k = key) \<Longrightarrow> (without C pos V)(key \<mapsto> x) = V(key \<mapsto> x)"
  by (auto simp: without_def split: option.split)

lemma view_empty: "view bx (\<lambda>_. None) T = Map.empty"
  by (rule ext) (simp add: view_def has_key_def find_upt_None split: option.split)

text \<open>The table holds one entry per key, so its occupied slots are counted by the map's domain.\<close>

lemma card_view:
  assumes k: "keyed bx bs C"
  shows "card (dom (view bx C T)) = card (dom C)" and "finite (dom (view bx C T))"
proof -
  let ?f = "\<lambda>pos. fst (the (C pos))"
  have inj: "inj_on ?f (dom C)"
    by (rule inj_onI) (use keyedD(3) [OF k] in \<open>fastforce simp: dom_def\<close>)
  have dom: "dom (view bx C T) = ?f ` dom C"
  proof (intro equalityI subsetI)
    fix key assume "key \<in> dom (view bx C T)"
    then obtain pos v where "C pos = Some (key, v)" using view_Some [OF k, of T key] by fastforce
    then show "key \<in> ?f ` dom C" by (intro image_eqI [of _ _ pos]) auto
  next
    fix key assume "key \<in> ?f ` dom C"
    then obtain pos v where "C pos = Some (key, v)" by (auto simp: dom_def)
    then show "key \<in> dom (view bx C T)" using view_Some [OF k, of T key v "T ! stamp_index pos"] by auto
  qed
  show "card (dom (view bx C T)) = card (dom C)" unfolding dom by (rule card_image [OF inj])
  have "finite (dom C)" using k finite_subset [of "dom C" "cells bs"] by (simp add: keyed_def)
  then show "finite (dom (view bx C T))" unfolding dom by simp
qed

lemma card_cells_le: "keyed bx bs C \<Longrightarrow> card (dom C) \<le> 4 * length bs"
  using card_mono [of "cells bs" "dom C"] by (simp add: keyed_def card_cells)

lemma view_hit:
  "keyed bx bs C \<Longrightarrow> C (bx key, i) = Some (key, v) \<Longrightarrow> view bx C T key = Some (v, T ! stamp_index (bx key, i))"
  using view_Some [of bx bs C T key v] by blast

lemma view_miss:
  "keyed bx bs C \<Longrightarrow> (\<And>i v. C (bx key, i) \<noteq> Some (key, v)) \<Longrightarrow> view bx C T key = None"
  using view_None [of bx bs C T key] keyedD(2) [of bx bs C _ key] by (metis prod.collapse)

lemma put_slot_pair:
  "put_slot bs (b, i) s v = bs[b := (bs ! b)\<lparr>slots := (slots (bs ! b))[i := s], meta := v\<rparr>]"
  by (simp add: put_slot_def)

lemma card_dom_update:
  "finite (dom C) \<Longrightarrow> card (dom (C(pos \<mapsto> x))) = (if C pos = None then card (dom C) + 1 else card (dom C))"
  by (auto simp: card_insert_if insert_absorb domI domIff)

lemma unat_Suc: "unat (w :: usize) + 1 < 2 ^ 64 \<Longrightarrow> unat (w + 1) = unat w + 1"
  by (simp add: unat_word_ariths)

section \<open>The slot an insertion takes\<close>

text \<open>The key's own slot, or any slot of its bucket when the key is not there.\<close>

definition slot_for :: "ghost \<Rightarrow> bytes \<Rightarrow> nat \<Rightarrow> nat \<Rightarrow> bool" where
  "slot_for C key b i \<longleftrightarrow> i < 4 \<and> (has_key C key (b, i) \<or> (\<forall>j. \<not> has_key C key (b, j)))"

lemma slot_for_new:
  assumes ky: "keyed bx bs C" and tgt: "slot_for C key (bx key) i" and q: "q \<noteq> (bx key, i)"
  shows "C q \<noteq> Some (key, v)"
proof
  assume c: "C q = Some (key, v)"
  then have e: "q = (bx key, snd q)" using keyedD(2) [OF ky c] by (simp add: prod_eq_iff)
  from tgt consider v' where "C (bx key, i) = Some (key, v')" | "\<forall>j v. C (bx key, j) \<noteq> Some (key, v)"
    unfolding slot_for_def has_key_iff by blast
  then show False
  proof cases
    case 1
    then show False using keyedD(3) [OF ky c] q by blast
  next
    case 2
    then show False using c e by metis
  qed
qed

end
