(* ===== verification/Cache.thy ===== *)
theory Cache
  imports View
begin

text \<open>
  The contract every map of the crate offers, as a locale: the abstract state is a finite map
  from keys to a value and its TTL stamp; an insertion may drop one other entry (eviction) but
  always stores its own pair, a lookup returns the stored value unless it has expired, a removal
  drops exactly its key. The invariant is indexed by the number of insertions the state still has
  room to grow for, which a map of fixed size ignores; the epoch counter an entry is stamped from
  may depend on its key, as it does in a sharded map. Two consequences are proved once for every provider: read-your-write,
  and agreement of any run of operations with a shadow map that never evicts.
\<close>

text \<open>An insertable pair: the 32-bit length fields of a slab entry can hold it.\<close>

definition small_pair :: "bytes \<Rightarrow> bytes \<Rightarrow> bool" where
  "small_pair key val \<longleftrightarrow> length key + length val < 2 ^ 32"

text \<open>The map after an insertion that evicts \<open>victim\<close>.\<close>

definition stored_after :: "stored_map \<Rightarrow> bytes option \<Rightarrow> bytes \<Rightarrow> bytes \<times> slot_ttl \<Rightarrow> stored_map" where
  "stored_after V victim key entry =
     (case victim of None \<Rightarrow> V | Some k \<Rightarrow> V(k := None))(key \<mapsto> entry)"

lemma without_victim:
  assumes ky: "keyed bx bs C" and tgt: "slot_for C key (bx key) i"
  defines "victim \<equiv> if has_key C key (bx key, i) then None else map_option fst (C (bx key, i))"
  shows "(without C (bx key, i) (view bx C T))(key \<mapsto> x) = stored_after (view bx C T) victim key x"
    and "victim = Some z \<Longrightarrow> z \<noteq> key \<and> view bx C T key = None \<and> view bx C T z \<noteq> None"
    and "victim = None \<longleftrightarrow> C (bx key, i) = None \<or> has_key C key (bx key, i)"
proof -
  show "(without C (bx key, i) (view bx C T))(key \<mapsto> x) = stored_after (view bx C T) victim key x"
    by (auto simp: without_def stored_after_def victim_def has_key_def split: option.split)
  show "victim = None \<longleftrightarrow> C (bx key, i) = None \<or> has_key C key (bx key, i)"
    by (auto simp: victim_def)
  assume "victim = Some z"
  then obtain v where v: "C (bx key, i) = Some (z, v)" "z \<noteq> key"
    by (auto simp: victim_def has_key_iff split: if_splits)
  then have "\<And>j v. C (bx key, j) \<noteq> Some (key, v)" using tgt by (auto simp: slot_for_def has_key_iff)
  then have "view bx C T key = None" by (rule view_miss [OF ky])
  moreover have "view bx C T z \<noteq> None" using v(1) view_None [OF ky, of T z] by blast
  ultimately show "z \<noteq> key \<and> view bx C T key = None \<and> view bx C T z \<noteq> None" using v(2) by simp
qed

section \<open>Runs of operations\<close>

datatype command = Insert bytes bytes u64 | Get bytes | Remove bytes

datatype outcome = Done | Value "bytes option" | Removed bool

type_synonym 's insert_op = "'s \<Rightarrow> bytes \<Rightarrow> bytes \<Rightarrow> u64 \<Rightarrow> 's res"
type_synonym 's get_op = "'s \<Rightarrow> bytes \<Rightarrow> (bytes option \<times> 's) res"
type_synonym 's remove_op = "'s \<Rightarrow> bytes \<Rightarrow> (bool \<times> 's) res"

fun run :: "'s insert_op \<Rightarrow> 's get_op \<Rightarrow> 's remove_op \<Rightarrow> command list \<Rightarrow> 's \<Rightarrow> (outcome list \<times> 's) res" where
  "run ins gt rm [] s = Inr ([], s)"
| "run ins gt rm (Insert k v ttl # cs) s =
     bindR (ins s k v ttl) (\<lambda>s. bindR (run ins gt rm cs s) (\<lambda>(os, s). Inr (Done # os, s)))"
| "run ins gt rm (Get k # cs) s =
     bindR (gt s k) (\<lambda>(r, s). bindR (run ins gt rm cs s) (\<lambda>(os, s). Inr (Value r # os, s)))"
| "run ins gt rm (Remove k # cs) s =
     bindR (rm s k) (\<lambda>(r, s). bindR (run ins gt rm cs s) (\<lambda>(os, s). Inr (Removed r # os, s)))"

text \<open>The reference: a map that never evicts and never expires an entry.\<close>

fun shadow_step :: "(bytes \<rightharpoonup> bytes) \<Rightarrow> command \<Rightarrow> (bytes \<rightharpoonup> bytes)" where
  "shadow_step M (Insert k v ttl) = M(k \<mapsto> v)"
| "shadow_step M (Get k) = M"
| "shadow_step M (Remove k) = M(k := None)"

fun outcome_ok :: "(bytes \<rightharpoonup> bytes) \<Rightarrow> command \<Rightarrow> outcome \<Rightarrow> bool" where
  "outcome_ok M (Insert k v ttl) Done = True"
| "outcome_ok M (Get k) (Value r) = (r = None \<or> r = M k)"
| "outcome_ok M (Remove k) (Removed r) = (r \<longrightarrow> M k \<noteq> None)"
| "outcome_ok M _ _ = False"

fun trace_ok :: "(bytes \<rightharpoonup> bytes) \<Rightarrow> command list \<Rightarrow> outcome list \<Rightarrow> bool" where
  "trace_ok M [] [] = True"
| "trace_ok M (c # cs) (r # rs) = (outcome_ok M c r \<and> trace_ok (shadow_step M c) cs rs)"
| "trace_ok M _ _ = False"

text \<open>Two maps may answer a lookup differently only if one of them misses.\<close>

fun no_conflict :: "outcome \<Rightarrow> outcome \<Rightarrow> bool" where
  "no_conflict (Value (Some v)) (Value (Some w)) = (v = w)"
| "no_conflict _ _ = True"

lemma no_conflict_refl [simp]: "no_conflict r r"
  by (cases "(r, r)" rule: no_conflict.cases) auto

lemma trace_ok_no_conflict: "trace_ok M cs os \<Longrightarrow> trace_ok M cs os' \<Longrightarrow> list_all2 no_conflict os os'"
proof (induction M cs os arbitrary: os' rule: trace_ok.induct)
  case (2 M c cs r rs)
  then obtain r' rs' where os': "os' = r' # rs'" by (cases os') auto
  have "no_conflict r r'" using 2(2,3) unfolding os'
    by (cases "(M, c, r)" rule: outcome_ok.cases; cases "(M, c, r')" rule: outcome_ok.cases) auto
  then show ?case using 2 os' by simp
next
  case (1 M)
  then show ?case by (cases os') auto
qed auto

fun small_command :: "command \<Rightarrow> bool" where
  "small_command (Insert k v ttl) = small_pair k v"
| "small_command _ = True"

fun inserts :: "command list \<Rightarrow> nat" where
  "inserts [] = 0"
| "inserts (Insert k v ttl # cs) = Suc (inserts cs)"
| "inserts (_ # cs) = inserts cs"

text \<open>Every stored value is the one the reference recorded.\<close>

definition recorded_in :: "stored_map \<Rightarrow> (bytes \<rightharpoonup> bytes) \<Rightarrow> bool" where
  "recorded_in V M \<longleftrightarrow> (\<forall>k v t. V k = Some (v, t) \<longrightarrow> M k = Some v)"

lemma recorded_in_insert: "recorded_in V M \<Longrightarrow> recorded_in (stored_after V x k (v, t)) (M(k \<mapsto> v))"
  by (auto simp: recorded_in_def stored_after_def split: option.splits if_splits)

lemma recorded_in_remove: "recorded_in V M \<Longrightarrow> recorded_in (V(k := None)) (M(k := None))"
  by (simp add: recorded_in_def)

lemma recorded_in_get: "recorded_in V M \<Longrightarrow> live_value now d (V k) = None \<or> live_value now d (V k) = M k"
  by (auto simp: recorded_in_def live_value_def split: option.splits if_splits)

lemma recorded_in_dom: "recorded_in V M \<Longrightarrow> V k \<noteq> None \<Longrightarrow> M k \<noteq> None"
  by (auto simp: recorded_in_def)

lemma fresh_not_expired: "\<not> ttl_expired now d \<lparr>st_epoch = now, st_ttl = ttl\<rparr>"
  by (simp add: ttl_expired_def Let_def)

section \<open>The contract\<close>

locale byte_cache =
  fixes inv :: "nat \<Rightarrow> 's \<Rightarrow> bool" and entries_of :: "'s \<Rightarrow> stored_map"
    and now :: "'s \<Rightarrow> bytes \<Rightarrow> u64" and dflt :: "'s \<Rightarrow> u64" and evictions :: "'s \<Rightarrow> u64"
    and ins :: "'s insert_op" and gt :: "'s get_op" and rm :: "'s remove_op"
  assumes insert_law: "inv (Suc n) s \<Longrightarrow> small_pair k v \<Longrightarrow>
      \<exists>s' victim. ins s k v ttl = Inr s' \<and> inv n s' \<and> now s' k = now s k + 1 \<and> dflt s' = dflt s
        \<and> entries_of s' = stored_after (entries_of s) victim k (v, \<lparr>st_epoch = now s k + 1, st_ttl = ttl\<rparr>)
        \<and> (case victim of
             None \<Rightarrow> evictions s' = evictions s
           | Some x \<Rightarrow> x \<noteq> k \<and> entries_of s k = None \<and> entries_of s x \<noteq> None
                       \<and> evictions s' = evictions s + 1)"
    and get_law: "inv n s \<Longrightarrow>
      \<exists>s'. gt s k = Inr (live_value (now s k) (dflt s) (entries_of s k), s') \<and> inv n s'
        \<and> entries_of s' = entries_of s \<and> (\<forall>j. now s' j = now s j) \<and> dflt s' = dflt s
        \<and> evictions s' = evictions s"
    and remove_law: "inv n s \<Longrightarrow>
      \<exists>s'. rm s k = Inr (entries_of s k \<noteq> None, s') \<and> inv n s'
        \<and> entries_of s' = (entries_of s)(k := None) \<and> (\<forall>j. now s' j = now s j) \<and> dflt s' = dflt s
        \<and> evictions s' = evictions s"
begin

lemma run_sound:
  assumes "inv (inserts cs + n) s" and "recorded_in (entries_of s) M" and "list_all small_command cs"
  shows "\<exists>os s'. run ins gt rm cs s = Inr (os, s') \<and> inv n s' \<and> trace_ok M cs os
     \<and> recorded_in (entries_of s') (foldl shadow_step M cs)"
  using assms
proof (induction cs arbitrary: s M)
  case Nil
  then show ?case by simp
next
  case (Cons c cs)
  show ?case
  proof (cases c)
    case (Insert k v ttl)
    obtain s' x where i: "ins s k v ttl = Inr s'" "inv (inserts cs + n) s'"
      "entries_of s' = stored_after (entries_of s) x k (v, \<lparr>st_epoch = now s k + 1, st_ttl = ttl\<rparr>)"
      using insert_law [of "inserts cs + n" s k v ttl] Cons.prems Insert by auto
    have "recorded_in (entries_of s') (M(k \<mapsto> v))" unfolding i(3) by (rule recorded_in_insert [OF Cons.prems(2)])
    from Cons.IH [OF i(2) this] Cons.prems(3) obtain os s'' where "run ins gt rm cs s' = Inr (os, s'')" "inv n s''" "trace_ok (M(k \<mapsto> v)) cs os"
      "recorded_in (entries_of s'') (foldl shadow_step (M(k \<mapsto> v)) cs)" by (auto simp del: fun_upd_apply)
    then show ?thesis using i(1) Insert by simp
  next
    case (Get k)
    obtain s' where g: "gt s k = Inr (live_value (now s k) (dflt s) (entries_of s k), s')" "inv (inserts cs + n) s'"
      "entries_of s' = entries_of s" using get_law [of "inserts cs + n" s k] Cons.prems Get by auto
    have "recorded_in (entries_of s') M" unfolding g(3) by (rule Cons.prems(2))
    from Cons.IH [OF g(2) this] Cons.prems(3) obtain os s'' where "run ins gt rm cs s' = Inr (os, s'')" "inv n s''" "trace_ok M cs os"
      "recorded_in (entries_of s'') (foldl shadow_step M cs)" by auto
    then show ?thesis using g(1) Get recorded_in_get [OF Cons.prems(2)] by simp
  next
    case (Remove k)
    obtain s' where r: "rm s k = Inr (entries_of s k \<noteq> None, s')" "inv (inserts cs + n) s'"
      "entries_of s' = (entries_of s)(k := None)" using remove_law [of "inserts cs + n" s k] Cons.prems Remove by auto
    have "recorded_in (entries_of s') (M(k := None))" unfolding r(3) by (rule recorded_in_remove [OF Cons.prems(2)])
    from Cons.IH [OF r(2) this] Cons.prems(3) obtain os s'' where "run ins gt rm cs s' = Inr (os, s'')" "inv n s''" "trace_ok (M(k := None)) cs os"
      "recorded_in (entries_of s'') (foldl shadow_step (M(k := None)) cs)" by (auto simp del: fun_upd_apply)
    then show ?thesis using r(1) Remove recorded_in_dom [OF Cons.prems(2)] by simp
  qed
qed

lemma read_your_write:
  assumes "inv (Suc n) s" and "small_pair k v"
  shows "\<exists>s' s''. ins s k v ttl = Inr s' \<and> gt s' k = Inr (Some v, s'') \<and> inv n s''"
proof -
  obtain s' x where i: "ins s k v ttl = Inr s'" "inv n s'" "now s' k = now s k + 1"
    "entries_of s' = stored_after (entries_of s) x k (v, \<lparr>st_epoch = now s k + 1, st_ttl = ttl\<rparr>)"
    using insert_law [OF assms, of ttl] by auto
  obtain s'' where "gt s' k = Inr (live_value (now s' k) (dflt s') (entries_of s' k), s'')" "inv n s''"
    using get_law [OF i(2), of k] by auto
  then show ?thesis using i by (simp add: stored_after_def live_value_def fresh_not_expired)
qed

end

end
