(* ===== verification/Raw.thy ===== *)
theory Raw
  imports Complex_Main Cache
begin

text \<open>
  The byte-level map \<^verbatim>\<open>PulseMapRaw\<close>, \<^verbatim>\<open>src/src/raw.rs\<close>: construction, TTL,
  insertion with in-place update, expired-slot reuse and eviction, lookup with and without
  promotion, removal and statistics. Every operation returns its panic, if any, as a value; the
  receiver \<^verbatim>\<open>&mut self\<close> (and the priority words that \<^verbatim>\<open>get\<close> updates behind
  \<^verbatim>\<open>&self\<close>) is passed and returned. The prefetch hint of \<^verbatim>\<open>get\<close> has no effect on
  the state and is left out.
\<close>

section \<open>State\<close>

record pulse_map_raw =
  buckets :: "bucket list"
  pool :: slab_pool
  num_buckets :: nat
  bucket_mask :: usize
  count :: usize
  eviction_count :: usize
  slots_ttl :: "slot_ttl list"
  current_epoch :: u64
  default_ttl :: u64

text \<open>
  \<^verbatim>\<open>PulseMapRaw::new\<close>. Both vectors take 64 bytes per bucket, so the allocation panics
  above \<^verbatim>\<open>isize::MAX\<close> bytes.
\<close>

definition raw_new :: "nat \<Rightarrow> pulse_map_raw res" where
  "raw_new n =
     (let actual = next_power_of_two (max n 1) in
      if isize_max < actual * 64 then Inl CapacityOverflow
      else Inr \<lparr>buckets = replicate actual bucket_empty,
                pool = slab_new,
                num_buckets = actual,
                bucket_mask = word_of_nat actual - 1,
                count = 0,
                eviction_count = 0,
                slots_ttl = replicate (actual * 4) slot_ttl_default,
                current_epoch = 0,
                default_ttl = 0\<rparr>)"

section \<open>TTL\<close>

definition raw_set_ttl :: "pulse_map_raw \<Rightarrow> u64 \<Rightarrow> pulse_map_raw" where
  "raw_set_ttl m ttl_epochs = m\<lparr>default_ttl := ttl_epochs\<rparr>"

definition raw_get_ttl :: "pulse_map_raw \<Rightarrow> u64" where
  "raw_get_ttl m = default_ttl m"

definition raw_current_epoch :: "pulse_map_raw \<Rightarrow> u64" where
  "raw_current_epoch m = current_epoch m"

definition is_expired :: "pulse_map_raw \<Rightarrow> nat \<Rightarrow> nat \<Rightarrow> bool res" where
  "is_expired m bucket_idx slot_idx =
     bindR (index (slots_ttl m) (bucket_idx * 4 + slot_idx)) (\<lambda>entry.
     Inr (ttl_expired (current_epoch m) (default_ttl m) entry))"

definition stamp_slot_ttl :: "pulse_map_raw \<Rightarrow> nat \<Rightarrow> nat \<Rightarrow> u64 \<Rightarrow> pulse_map_raw res" where
  "stamp_slot_ttl m bucket_idx slot_idx ttl =
     bindR (index (slots_ttl m) (bucket_idx * 4 + slot_idx)) (\<lambda>_.
     Inr (m\<lparr>slots_ttl := (slots_ttl m)[bucket_idx * 4 + slot_idx :=
              \<lparr>st_epoch = current_epoch m, st_ttl = ttl\<rparr>]\<rparr>))"

section \<open>Insertion\<close>

definition bucket_ix :: "pulse_map_raw \<Rightarrow> u64 \<Rightarrow> nat" where
  "bucket_ix m hash = unat (hash AND bucket_mask m)"

text \<open>\<^verbatim>\<open>find_free_or_expired\<close>: the first slot that is not Full or whose entry has expired.\<close>

fun free_or_expired_loop :: "pulse_map_raw \<Rightarrow> nat \<Rightarrow> bucket \<Rightarrow> nat list \<Rightarrow> nat option res" where
  "free_or_expired_loop m bucket_idx b [] = Inr None"
| "free_or_expired_loop m bucket_idx b (i # is) =
     (if get_state (meta b) i \<noteq> Full then Inr (Some i)
      else bindR (is_expired m bucket_idx i) (\<lambda>expired.
           if expired then Inr (Some i) else free_or_expired_loop m bucket_idx b is))"

definition find_free_or_expired :: "pulse_map_raw \<Rightarrow> nat \<Rightarrow> nat option res" where
  "find_free_or_expired m bucket_idx =
     bindR (index (buckets m) bucket_idx) (\<lambda>b. free_or_expired_loop m bucket_idx b [0..<4])"

text \<open>Step 1: the key is present in slot \<open>i\<close>; its entry is replaced in place.\<close>

definition insert_update ::
  "pulse_map_raw \<Rightarrow> nat \<Rightarrow> bucket \<Rightarrow> nat \<Rightarrow> bytes \<Rightarrow> bytes \<Rightarrow> hash_result \<Rightarrow> u64 \<Rightarrow> pulse_map_raw res" where
  "insert_update m bucket_idx b i key val hr ttl =
     bindR (index (slots b) i) (\<lambda>s.
     bindR (free_slot (pool m) s) (\<lambda>p.
     bindR (store_entry p key val hr) (\<lambda>(s, p).
     let b = b\<lparr>slots := (slots b)[i := s], meta := on_access (meta b) i\<rparr>
     in stamp_slot_ttl (m\<lparr>buckets := (buckets m)[bucket_idx := b], pool := p\<rparr>) bucket_idx i ttl)))"

text \<open>
  Step 2: the slot to fill and whether that evicts, with the old slab entry released and the
  eviction counted; \<^const>\<open>None\<close> when neither a free slot nor a victim exists.
\<close>

definition evict_slot :: "pulse_map_raw \<Rightarrow> bucket \<Rightarrow> nat \<Rightarrow> pulse_map_raw res" where
  "evict_slot m b i =
     bindR (index (slots b) i) (\<lambda>old_slot.
     bindR (free_slot (pool m) old_slot) (\<lambda>p.
     Inr (m\<lparr>pool := p, eviction_count := eviction_count m + 1\<rparr>)))"

definition choose_target :: "pulse_map_raw \<Rightarrow> nat \<Rightarrow> (pulse_map_raw \<times> (nat \<times> bool) option) res" where
  "choose_target m bucket_idx =
     bindR (find_free_or_expired m bucket_idx) (\<lambda>r.
     bindR (index (buckets m) bucket_idx) (\<lambda>b.
     case r of
       Some free \<Rightarrow>
         let is_ev = (get_state (meta b) free = Full) in
         if is_ev then bindR (evict_slot m b free) (\<lambda>m. Inr (m, Some (free, True)))
         else Inr (m, Some (free, False))
     | None \<Rightarrow>
         (case find_evict_target (meta b) of
            Some evict \<Rightarrow> bindR (evict_slot m b evict) (\<lambda>m. Inr (m, Some (evict, True)))
          | None \<Rightarrow> Inr (m, None))))"

text \<open>Step 3: write the entry, its metadata and its stamp.\<close>

definition insert_fill ::
  "pulse_map_raw \<Rightarrow> nat \<Rightarrow> nat \<Rightarrow> bool \<Rightarrow> bytes \<Rightarrow> bytes \<Rightarrow> hash_result \<Rightarrow> u64 \<Rightarrow> pulse_map_raw res" where
  "insert_fill m bucket_idx i is_eviction key val hr ttl =
     bindR (index (buckets m) bucket_idx) (\<lambda>b.
     bindR (store_entry (pool m) key val hr) (\<lambda>(s, p).
     bindR (index (slots b) i) (\<lambda>_.
     let v = set_state (meta b) i Full;
         v = set_h2 v i (h2 hr);
         v = on_insert v i;
         b = b\<lparr>slots := (slots b)[i := s], meta := v\<rparr>
     in bindR (stamp_slot_ttl (m\<lparr>buckets := (buckets m)[bucket_idx := b], pool := p\<rparr>) bucket_idx i ttl) (\<lambda>m.
        Inr (if \<not> is_eviction then m\<lparr>count := count m + 1\<rparr> else m)))))"

definition insert_internal ::
  "(bytes \<Rightarrow> u64) \<Rightarrow> pulse_map_raw \<Rightarrow> bytes \<Rightarrow> bytes \<Rightarrow> u64 \<Rightarrow> pulse_map_raw res" where
  "insert_internal wy m key val ttl =
     (let m = m\<lparr>current_epoch := current_epoch m + 1\<rparr>;
          hr = compute_hash wy key;
          bucket_idx = bucket_ix m (h1 hr)
      in bindR (index (buckets m) bucket_idx) (\<lambda>b.
         bindR (find_in_bucket (pool m) b key hr) (\<lambda>found.
         case found of
           Some i \<Rightarrow> insert_update m bucket_idx b i key val hr ttl
         | None \<Rightarrow>
             bindR (choose_target m bucket_idx) (\<lambda>(m, target).
             case target of
               Some (i, is_eviction) \<Rightarrow> insert_fill m bucket_idx i is_eviction key val hr ttl
             | None \<Rightarrow> Inr m))))"

definition raw_insert :: "(bytes \<Rightarrow> u64) \<Rightarrow> pulse_map_raw \<Rightarrow> bytes \<Rightarrow> bytes \<Rightarrow> pulse_map_raw res" where
  "raw_insert wy m key val = insert_internal wy m key val 0"

definition raw_insert_ttl ::
  "(bytes \<Rightarrow> u64) \<Rightarrow> pulse_map_raw \<Rightarrow> bytes \<Rightarrow> bytes \<Rightarrow> u64 \<Rightarrow> pulse_map_raw res" where
  "raw_insert_ttl wy m key val ttl = insert_internal wy m key val ttl"

section \<open>Lookup and removal\<close>

definition raw_get ::
  "(bytes \<Rightarrow> u64) \<Rightarrow> pulse_map_raw \<Rightarrow> bytes \<Rightarrow> (bytes option \<times> pulse_map_raw) res" where
  "raw_get wy m key =
     (let hr = compute_hash wy key; bucket_idx = bucket_ix m (h1 hr)
      in bindR (index (buckets m) bucket_idx) (\<lambda>b.
         bindR (find_in_bucket (pool m) b key hr) (\<lambda>found.
         case found of
           None \<Rightarrow> Inr (None, m)
         | Some i \<Rightarrow>
             bindR (is_expired m bucket_idx i) (\<lambda>expired.
             if expired then Inr (None, m)
             else let m = m\<lparr>buckets := (buckets m)[bucket_idx := b\<lparr>meta := on_access (meta b) i\<rparr>]\<rparr>
                  in bindR (index (slots b) i) (\<lambda>s.
                     bindR (get_value s (pool m)) (\<lambda>v. Inr (Some v, m)))))))"

definition raw_peek :: "(bytes \<Rightarrow> u64) \<Rightarrow> pulse_map_raw \<Rightarrow> bytes \<Rightarrow> bytes option res" where
  "raw_peek wy m key =
     (let hr = compute_hash wy key; bucket_idx = bucket_ix m (h1 hr)
      in bindR (index (buckets m) bucket_idx) (\<lambda>b.
         bindR (find_in_bucket (pool m) b key hr) (\<lambda>found.
         case found of
           None \<Rightarrow> Inr None
         | Some i \<Rightarrow>
             bindR (is_expired m bucket_idx i) (\<lambda>expired.
             if expired then Inr None
             else bindR (index (slots b) i) (\<lambda>s.
                  bindR (get_value s (pool m)) (\<lambda>v. Inr (Some v)))))))"

definition raw_remove ::
  "(bytes \<Rightarrow> u64) \<Rightarrow> pulse_map_raw \<Rightarrow> bytes \<Rightarrow> (bool \<times> pulse_map_raw) res" where
  "raw_remove wy m key =
     (let hr = compute_hash wy key; bucket_idx = bucket_ix m (h1 hr)
      in bindR (index (buckets m) bucket_idx) (\<lambda>b.
         bindR (find_in_bucket (pool m) b key hr) (\<lambda>found.
         case found of
           None \<Rightarrow> Inr (False, m)
         | Some i \<Rightarrow>
             bindR (index (slots b) i) (\<lambda>s.
             bindR (free_slot (pool m) s) (\<lambda>p.
             let b = b\<lparr>slots := (slots b)[i := slot_clear s], meta := set_state (meta b) i Tombstone\<rparr>
             in Inr (True, m\<lparr>buckets := (buckets m)[bucket_idx := b], pool := p,
                             count := count m - 1\<rparr>))))))"

section \<open>Statistics\<close>

definition raw_len :: "pulse_map_raw \<Rightarrow> nat" where
  "raw_len m = unat (count m)"

definition raw_is_empty :: "pulse_map_raw \<Rightarrow> bool" where
  "raw_is_empty m \<longleftrightarrow> count m = 0"

definition raw_capacity :: "pulse_map_raw \<Rightarrow> nat" where
  "raw_capacity m = num_buckets m * 4"

definition raw_num_buckets :: "pulse_map_raw \<Rightarrow> nat" where
  "raw_num_buckets m = num_buckets m"

text \<open>
  The quotient of two \<^verbatim>\<open>f64\<close> values. The capacity is a power of two, so for fewer than
  \<open>2 ^ 53\<close> entries both conversions and the division are exact.
\<close>

definition raw_load_factor :: "pulse_map_raw \<Rightarrow> real" where
  "raw_load_factor m = real (unat (count m)) / real (raw_capacity m)"

definition raw_eviction_count :: "pulse_map_raw \<Rightarrow> nat" where
  "raw_eviction_count m = unat (eviction_count m)"

section \<open>Invariant and abstraction\<close>

text \<open>
  A power of two of buckets, the mask that goes with it and four stamps per bucket; the stored
  pairs; and the count of the occupied slots.
\<close>

definition geometry :: "pulse_map_raw \<Rightarrow> nat \<Rightarrow> bool" where
  "geometry m k \<longleftrightarrow>
     k \<le> 56 \<and> num_buckets m = 2 ^ k \<and> length (buckets m) = 2 ^ k \<and> bucket_mask m = mask k
     \<and> length (slots_ttl m) = 4 * 2 ^ k"

definition raw_inv :: "(bytes \<Rightarrow> u64) \<Rightarrow> pulse_map_raw \<Rightarrow> bool" where
  "raw_inv wy m \<longleftrightarrow>
     (\<exists>k. geometry m k)
     \<and> table_inv wy (bucket_ix m) (buckets m) (pool m) (contents (buckets m) (pool m))
     \<and> unat (count m) = card (dom (contents (buckets m) (pool m)))"

text \<open>The abstract state: each stored key with its value and its stamp.\<close>

definition raw_lookup :: "(bytes \<Rightarrow> u64) \<Rightarrow> pulse_map_raw \<Rightarrow> stored_map" where
  "raw_lookup wy m =
     view (\<lambda>k. bucket_ix m (wy k)) (contents (buckets m) (pool m)) (slots_ttl m)"

section \<open>Lemmas on the state\<close>

lemma bucket_ix_update [simp]:
  "bucket_ix (m\<lparr>buckets := bs\<rparr>) = bucket_ix m" "bucket_ix (m\<lparr>pool := p\<rparr>) = bucket_ix m"
  "bucket_ix (m\<lparr>count := c\<rparr>) = bucket_ix m" "bucket_ix (m\<lparr>eviction_count := c\<rparr>) = bucket_ix m"
  "bucket_ix (m\<lparr>slots_ttl := T\<rparr>) = bucket_ix m" "bucket_ix (m\<lparr>current_epoch := e\<rparr>) = bucket_ix m"
  "bucket_ix (m\<lparr>default_ttl := e\<rparr>) = bucket_ix m"
  by (simp_all add: bucket_ix_def fun_eq_iff)

lemma bucket_ix_less: "geometry m k \<Longrightarrow> bucket_ix m h < 2 ^ k"
  by (simp add: bucket_ix_def geometry_def take_bit_eq_mask [symmetric] unsigned_take_bit_eq)

lemma geometry_small: "geometry m k \<Longrightarrow> length (buckets m) < 2 ^ 57"
proof -
  assume "geometry m k"
  then have "length (buckets m) = 2 ^ k" "k < 57" by (simp_all add: geometry_def)
  then show ?thesis using power_strict_increasing [of k 57 "2::nat"] by linarith
qed

lemma raw_invE:
  assumes "raw_inv wy m"
  obtains k C where "geometry m k" and "table_inv wy (bucket_ix m) (buckets m) (pool m) C"
    and "unat (count m) = card (dom C)" and "contents (buckets m) (pool m) = C"
    and "raw_lookup wy m = view (\<lambda>k. bucket_ix m (wy k)) C (slots_ttl m)"
    and "keyed (\<lambda>k. bucket_ix m (wy k)) (buckets m) C"
  using assms table_keyed unfolding raw_inv_def raw_lookup_def by blast

lemma raw_invI:
  assumes "geometry m k" and "table_inv wy (bucket_ix m) (buckets m) (pool m) C"
    and "unat (count m) = card (dom C)"
  shows "raw_inv wy m" and "raw_lookup wy m = view (\<lambda>k. bucket_ix m (wy k)) C (slots_ttl m)"
  using assms table_inv_contents [OF assms(2)] by (auto simp: raw_inv_def raw_lookup_def)

lemma is_expired_ok:
  "geometry m k \<Longrightarrow> b < 2 ^ k \<Longrightarrow> i < 4 \<Longrightarrow>
   is_expired m b i = Inr (ttl_expired (current_epoch m) (default_ttl m) (slots_ttl m ! stamp_index (b, i)))"
  by (simp add: is_expired_def index_ok geometry_def stamp_index_def)

lemma stamp_slot_ttl_ok:
  "geometry m k \<Longrightarrow> b < 2 ^ k \<Longrightarrow> i < 4 \<Longrightarrow>
   stamp_slot_ttl m b i ttl =
     Inr (m\<lparr>slots_ttl := (slots_ttl m)[stamp_index (b, i) := \<lparr>st_epoch = current_epoch m, st_ttl = ttl\<rparr>]\<rparr>)"
  by (simp add: stamp_slot_ttl_def index_ok geometry_def stamp_index_def)

text \<open>The bucket of a key and the outcome of its candidate loop.\<close>

lemma bucket_search:
  assumes g: "geometry m k" and inv: "table_inv wy (bucket_ix m) (buckets m) (pool m) C"
  obtains (found) i v where "i < 4" and "C (bucket_ix m (wy key), i) = Some (key, v)"
      and "find_in_bucket (pool m) (buckets m ! bucket_ix m (wy key)) key (compute_hash wy key) = Inr (Some i)"
  | (missing) "\<And>i v. C (bucket_ix m (wy key), i) \<noteq> Some (key, v)"
      and "find_in_bucket (pool m) (buckets m ! bucket_ix m (wy key)) key (compute_hash wy key) = Inr None"
proof -
  have "bucket_ix m (wy key) < length (buckets m)"
    using bucket_ix_less [OF g] g by (simp add: geometry_def)
  from find_in_bucket_ok [OF inv this, of key] show thesis
    using found missing by (auto split: option.splits)
qed

section \<open>Construction\<close>

lemma raw_new_ok:
  assumes "n \<le> 2 ^ 56"
  obtains m k where "raw_new n = Inr m" and "raw_inv wy m" and "raw_lookup wy m = Map.empty"
    and "num_buckets m = 2 ^ k" and "max n 1 \<le> 2 ^ k" and "2 ^ k < 2 * max n 1"
    and "count m = 0" and "eviction_count m = 0" and "current_epoch m = 0" and "default_ttl m = 0"
proof -
  have n: "max n 1 \<le> 2 ^ 56" "max n 1 \<le> 2 ^ 63" "0 < max n 1" using assms by auto
  obtain k where k: "next_power_of_two (max n 1) = 2 ^ k" "k \<le> 56"
    using next_power_of_two_le [OF n(1)] by auto
  have "(2::nat) ^ k \<le> 2 ^ 56" using k(2) by (rule power_increasing) simp
  then have fits: "\<not> isize_max < 2 ^ k * 64" by (simp add: isize_max_def)
  define m where "m = \<lparr>buckets = replicate (2 ^ k) bucket_empty, pool = slab_new, num_buckets = 2 ^ k,
    bucket_mask = word_of_nat (2 ^ k) - 1, count = 0, eviction_count = 0,
    slots_ttl = replicate (2 ^ k * 4) slot_ttl_default, current_epoch = 0, default_ttl = 0\<rparr>"
  have new: "raw_new n = Inr m" using fits unfolding raw_new_def k(1) m_def Let_def by simp
  have g: "geometry m k" using k(2) by (simp add: geometry_def m_def mask_eq_exp_minus_1)
  have t: "table_inv wy (bucket_ix m) (buckets m) (pool m) (\<lambda>_. None)"
    using table_inv_empty by (simp add: m_def)
  note i = raw_invI [OF g t]
  have "raw_lookup wy m = Map.empty" using i(2) view_empty by (simp add: m_def)
  moreover have "raw_inv wy m" using i(1) by (simp add: m_def)
  moreover have "max n 1 \<le> 2 ^ k" "2 ^ k < 2 * max n 1"
    using next_power_of_two_ge [OF n(2)] next_power_of_two_less_double [OF n(3)] k(1) by simp_all
  ultimately show thesis using that new by (simp add: m_def)
qed

section \<open>Reading\<close>

lemma raw_peek_ok:
  assumes "raw_inv wy m"
  shows "raw_peek wy m key = Inr (live_value (current_epoch m) (default_ttl m) (raw_lookup wy m key))"
proof -
  from assms obtain k C where g: "geometry m k"
    and inv: "table_inv wy (bucket_ix m) (buckets m) (pool m) C"
    and l: "raw_lookup wy m = view (\<lambda>k. bucket_ix m (wy k)) C (slots_ttl m)"
    and ky: "keyed (\<lambda>k. bucket_ix m (wy k)) (buckets m) C" by (rule raw_invE)
  have b: "bucket_ix m (wy key) < length (buckets m)" "bucket_ix m (wy key) < 2 ^ k"
    using bucket_ix_less [OF g] g by (simp_all add: geometry_def)
  show ?thesis
  proof (cases rule: bucket_search [OF g inv, of key, case_names found missing])
    case (found i v)
    have "length (slots (buckets m ! bucket_ix m (wy key))) = 4"
      using reprD(2) [OF inv_repr [OF inv]] b(1) by (simp add: bucket_shape_def)
    then show ?thesis
      using found b is_expired_ok [OF g b(2) found(1)] view_hit [OF ky found(2)]
        holds_reads [OF reprD(4) [OF inv_repr [OF inv] found(2)]]
      by (simp add: raw_peek_def index_ok live_value_def l slot_at_def Let_def)
  next
    case missing
    then show ?thesis using b view_miss [OF ky missing(1)]
      by (simp add: raw_peek_def index_ok live_value_def l Let_def)
  qed
qed

lemma raw_get_ok:
  assumes "raw_inv wy m"
  obtains m' where "raw_get wy m key = Inr (live_value (current_epoch m) (default_ttl m) (raw_lookup wy m key), m')"
    and "raw_inv wy m'" and "raw_lookup wy m' = raw_lookup wy m"
    and "current_epoch m' = current_epoch m" and "default_ttl m' = default_ttl m"
    and "eviction_count m' = eviction_count m" and "num_buckets m' = num_buckets m"
    and "live_value (current_epoch m) (default_ttl m) (raw_lookup wy m key) = None \<Longrightarrow> m' = m"
proof -
  from assms obtain k C where g: "geometry m k"
    and inv: "table_inv wy (bucket_ix m) (buckets m) (pool m) C"
    and cnt: "unat (count m) = card (dom C)"
    and l: "raw_lookup wy m = view (\<lambda>k. bucket_ix m (wy k)) C (slots_ttl m)"
    and ky: "keyed (\<lambda>k. bucket_ix m (wy k)) (buckets m) C" by (rule raw_invE)
  let ?b = "bucket_ix m (wy key)"
  have b: "?b < length (buckets m)" "?b < 2 ^ k"
    using bucket_ix_less [OF g] g by (simp_all add: geometry_def)
  show thesis
  proof (cases rule: bucket_search [OF g inv, of key, case_names found missing])
    case (found i v)
    have s4: "length (slots (buckets m ! ?b)) = 4"
      using reprD(2) [OF inv_repr [OF inv]] b(1) by (simp add: bucket_shape_def)
    let ?e = "ttl_expired (current_epoch m) (default_ttl m) (slots_ttl m ! stamp_index (?b, i))"
    let ?m = "m\<lparr>buckets := (buckets m)[?b := (buckets m ! ?b)\<lparr>meta := on_access (meta (buckets m ! ?b)) i\<rparr>]\<rparr>"
    have "geometry ?m k" using g by (simp add: geometry_def)
    moreover have "table_inv wy (bucket_ix ?m) (buckets ?m) (pool ?m) C"
      using table_touch [OF inv b(1) found(1)] by simp
    ultimately have m': "raw_inv wy ?m" "raw_lookup wy ?m = raw_lookup wy m"
      using raw_invI [of ?m k wy C] cnt by (simp_all add: l)
    have "raw_get wy m key = Inr (if ?e then (None, m) else (Some v, ?m))"
      using found b is_expired_ok [OF g b(2) found(1)] s4
        holds_reads [OF reprD(4) [OF inv_repr [OF inv] found(2)]]
      by (simp add: raw_get_def index_ok slot_at_def Let_def)
    moreover have "live_value (current_epoch m) (default_ttl m) (raw_lookup wy m key) = (if ?e then None else Some v)"
      using view_hit [OF ky found(2)] by (simp add: l live_value_def)
    ultimately show thesis
      using that [of m] that [of ?m] m' assms by (cases ?e) simp_all
  next
    case missing
    then have "raw_get wy m key = Inr (None, m)" using b by (simp add: raw_get_def index_ok Let_def)
    then show thesis using that [of m] assms view_miss [OF ky missing(1)] by (simp add: l live_value_def)
  qed
qed

section \<open>Removal\<close>

lemma raw_remove_ok:
  assumes "raw_inv wy m"
  obtains m' where "raw_remove wy m key = Inr (raw_lookup wy m key \<noteq> None, m')"
    and "raw_inv wy m'" and "raw_lookup wy m' = (raw_lookup wy m)(key := None)"
    and "current_epoch m' = current_epoch m" and "default_ttl m' = default_ttl m"
    and "eviction_count m' = eviction_count m" and "num_buckets m' = num_buckets m"
    and "raw_lookup wy m key = None \<Longrightarrow> m' = m"
proof -
  from assms obtain k C where g: "geometry m k"
    and inv: "table_inv wy (bucket_ix m) (buckets m) (pool m) C"
    and cnt: "unat (count m) = card (dom C)"
    and l: "raw_lookup wy m = view (\<lambda>k. bucket_ix m (wy k)) C (slots_ttl m)"
    and ky: "keyed (\<lambda>k. bucket_ix m (wy k)) (buckets m) C" by (rule raw_invE)
  let ?b = "bucket_ix m (wy key)"
  have b: "?b < length (buckets m)" "?b < 2 ^ k"
    using bucket_ix_less [OF g] g by (simp_all add: geometry_def)
  show thesis
  proof (cases rule: bucket_search [OF g inv, of key, case_names found missing])
    case (found i v)
    let ?bk = "buckets m ! ?b"
    have s4: "length (slots ?bk) = 4"
      using reprD(2) [OF inv_repr [OF inv]] b(1) by (simp add: bucket_shape_def)
    obtain p where p: "free_slot (pool m) (slots ?bk ! i) = Inr p"
      "table_inv wy (bucket_ix m) (put_slot (buckets m) (?b, i) (slot_clear (slots ?bk ! i))
         (set_state (meta ?bk) i Tombstone)) p (C((?b, i) := None))"
      using table_clear [OF inv found(2) geometry_small [OF g]] by blast
    let ?m = "m\<lparr>buckets := put_slot (buckets m) (?b, i) (slot_clear (slots ?bk ! i))
         (set_state (meta ?bk) i Tombstone), pool := p, count := count m - 1\<rparr>"
    have rm: "raw_remove wy m key = Inr (True, ?m)"
      using found p(1) b s4 by (simp add: raw_remove_def index_ok put_slot_pair Let_def)
    have fin: "finite (dom C)" by (rule reprD(10) [OF inv_repr [OF inv]])
    have "(?b, i) \<in> dom C" using found(2) by auto
    then have "card (dom (C((?b, i) := None))) = card (dom C) - 1" "card (dom C) \<noteq> 0"
      using fin by auto
    then have c: "unat (count ?m) = card (dom (C((?b, i) := None)))"
      using cnt unat_minus_one [of "count m"] by (cases "count m = 0") auto
    have "geometry ?m k" using g by (simp add: geometry_def)
    then have m': "raw_inv wy ?m"
      "raw_lookup wy ?m = view (\<lambda>k. bucket_ix m (wy k)) (C((?b, i) := None)) (slots_ttl m)"
      using raw_invI [of ?m k wy "C((?b, i) := None)"] p(2) c by simp_all
    have "raw_lookup wy ?m = (raw_lookup wy m)(key := None)"
      unfolding m'(2) view_drop [OF ky] by (simp add: without_def found(2) l)
    then show thesis
      using that [of ?m] rm m'(1) view_hit [OF ky found(2)] by (simp add: l)
  next
    case missing
    then have "raw_remove wy m key = Inr (False, m)" using b by (simp add: raw_remove_def index_ok Let_def)
    moreover have "raw_lookup wy m key = None" using view_miss [OF ky missing(1)] by (simp add: l)
    ultimately show thesis using that [of m] assms by (simp add: fun_upd_idem)
  qed
qed

section \<open>Insertion\<close>

text \<open>
  The slot an insertion writes: the key's own slot, or else a free slot, an expired entry, or,
  when the bucket holds four unexpired entries, one of minimal priority.
\<close>

definition insert_target :: "pulse_map_raw \<Rightarrow> ghost \<Rightarrow> bytes \<Rightarrow> nat \<Rightarrow> nat \<Rightarrow> bool" where
  "insert_target m C key b i \<longleftrightarrow> i < 4 \<and>
     ((\<exists>v. C (b, i) = Some (key, v))
      \<or> (\<forall>j v. C (b, j) \<noteq> Some (key, v))
        \<and> (C (b, i) = None
           \<or> ttl_expired (current_epoch m + 1) (default_ttl m) (slots_ttl m ! stamp_index (b, i))
           \<or> (\<forall>j<4. C (b, j) \<noteq> None
                \<and> \<not> ttl_expired (current_epoch m + 1) (default_ttl m) (slots_ttl m ! stamp_index (b, j))
                \<and> get_priority (meta (buckets m ! b)) i \<le> get_priority (meta (buckets m ! b)) j)))"

lemma insert_target_slot: "insert_target m C key b i \<Longrightarrow> slot_for C key b i"
  by (auto simp: insert_target_def slot_for_def has_key_iff)

lemma free_or_expired_loop_ok:
  assumes g: "geometry m k" and b: "b < 2 ^ k" and xs: "set is \<subseteq> {..<4}"
  shows "free_or_expired_loop m b bk is =
     Inr (find (\<lambda>i. get_state (meta bk) i \<noteq> Full
            \<or> ttl_expired (current_epoch m) (default_ttl m) (slots_ttl m ! stamp_index (b, i))) is)"
  using xs by (induction "is") (auto simp: is_expired_ok [OF g b])

lemma choose_target_ok:
  assumes g: "geometry m k" and b: "b < 2 ^ k" and bk: "buckets m ! b = bk" and s4: "length (slots bk) = 4"
    and eqs: "pool m = pl" "eviction_count m = ec" "slots_ttl m = T" "current_epoch m = now" "default_ttl m = d"
  obtains i where "i < 4"
    and "\<And>p. (if get_state (meta bk) i = Full then free_slot pl (slots bk ! i) else Inr pl) = Inr p \<Longrightarrow>
         choose_target m b =
           (if get_state (meta bk) i = Full
            then Inr (m\<lparr>pool := p, eviction_count := ec + 1\<rparr>, Some (i, True))
            else Inr (m, Some (i, False)))"
    and "get_state (meta bk) i \<noteq> Full \<or> ttl_expired now d (T ! stamp_index (b, i))
         \<or> (\<forall>j<4. get_state (meta bk) j = Full \<and> \<not> ttl_expired now d (T ! stamp_index (b, j))
              \<and> get_priority (meta bk) i \<le> get_priority (meta bk) j)"
proof -
  let ?v = "meta bk"
  let ?P = "\<lambda>i. get_state ?v i \<noteq> Full \<or> ttl_expired now d (T ! stamp_index (b, i))"
  have bl: "b < length (buckets m)" using g b by (simp add: geometry_def)
  have ff: "find_free_or_expired m b = Inr (find ?P [0..<4])"
    using free_or_expired_loop_ok [OF g b, of "[0..<4]" bk] bl eqs bk
    by (simp add: find_free_or_expired_def index_ok subset_iff)
  show thesis
  proof (cases "find ?P [0..<4]")
    case (Some i)
    then have i: "i < 4" "?P i" by (simp_all add: find_upt_Some)
    show thesis
      by (rule that [OF i(1)])
        (use i ff Some bl s4 eqs bk in \<open>auto simp: choose_target_def index_ok evict_slot_def Let_def\<close>)
  next
    case None
    then have all: "\<not> ?P j" if "j < 4" for j using that by (simp add: find_upt_None)
    then have "find_evict_target ?v \<noteq> None" unfolding find_evict_target_None by force
    then obtain i where e: "find_evict_target ?v = Some i" by auto
    note i = find_evict_target_Some [OF e]
    show thesis
      by (rule that [OF i(1)])
        (use i all ff None e bl s4 eqs bk in \<open>auto simp: choose_target_def index_ok evict_slot_def Let_def\<close>)
  qed
qed

text \<open>The state after writing the pair at position \<open>(b, i)\<close>.\<close>

definition after_insert ::
  "pulse_map_raw \<Rightarrow> ghost \<Rightarrow> bytes \<Rightarrow> nat \<Rightarrow> nat \<Rightarrow> u64 \<Rightarrow> bucket list \<Rightarrow> slab_pool \<Rightarrow> pulse_map_raw" where
  "after_insert m C key b i ttl bs p =
     m\<lparr>buckets := bs, pool := p,
       count := (if C (b, i) = None then count m + 1 else count m),
       eviction_count :=
         (if C (b, i) = None \<or> has_key C key (b, i) then eviction_count m else eviction_count m + 1),
       slots_ttl := (slots_ttl m)[stamp_index (b, i) := \<lparr>st_epoch = current_epoch m + 1, st_ttl = ttl\<rparr>],
       current_epoch := current_epoch m + 1\<rparr>"

lemma insert_update_ok:
  assumes g: "geometry m k" and inv: "table_inv wy (bucket_ix m) (buckets m) (pool m) C"
    and c: "C (b, i) = Some (key, v)" and b: "b < 2 ^ k" and i: "i < 4" and sz: "small_pair key val"
  obtains bs p where
    "insert_update (m\<lparr>current_epoch := current_epoch m + 1\<rparr>) b (buckets m ! b) i key val (compute_hash wy key) ttl
       = Inr (after_insert m C key b i ttl bs p)"
    and "table_inv wy (bucket_ix m) bs p (C((b, i) \<mapsto> (key, val)))"
    and "length bs = length (buckets m)"
proof -
  obtain p1 s p' where u: "free_slot (pool m) (slots (buckets m ! b) ! i) = Inr p1"
    "store_entry p1 key val (compute_hash wy key) = Inr (s, p')"
    "table_inv wy (bucket_ix m) (put_slot (buckets m) (b, i) s (on_access (meta (buckets m ! b)) i)) p'
       (C((b, i) \<mapsto> (key, val)))"
    using table_update [OF inv c sz [unfolded small_pair_def] geometry_small [OF g]] by blast
  have "b < length (buckets m)" using g b by (simp add: geometry_def)
  then have s4: "length (slots (buckets m ! b)) = 4"
    using reprD(2) [OF inv_repr [OF inv]] by (simp add: bucket_shape_def)
  show thesis
    by (rule that [OF _ u(3) put_slot_length])
      (use u(1,2) s4 g b i c in \<open>simp add: insert_update_def index_ok put_slot_pair stamp_slot_ttl_def
        stamp_index_def geometry_def after_insert_def has_key_def Let_def\<close>)
qed

lemma insert_place_ok:
  assumes g: "geometry m k" and inv: "table_inv wy (bucket_ix m) (buckets m) (pool m) C"
    and b: "bucket_ix m (wy key) = b" and new: "\<And>i v. C (b, i) \<noteq> Some (key, v)"
    and sz: "small_pair key val"
  obtains i bs p where "insert_target m C key b i"
    and "bindR (choose_target (m\<lparr>current_epoch := current_epoch m + 1\<rparr>) b) (\<lambda>(m, target).
             case target of
               Some (i, is_eviction) \<Rightarrow> insert_fill m b i is_eviction key val (compute_hash wy key) ttl
             | None \<Rightarrow> Inr m)
       = Inr (after_insert m C key b i ttl bs p)"
    and "table_inv wy (bucket_ix m) bs p (C((b, i) \<mapsto> (key, val)))"
    and "length bs = length (buckets m)"
proof -
  let ?m = "m\<lparr>current_epoch := current_epoch m + 1\<rparr>" and ?bk = "buckets m ! b"
  have b2: "b < 2 ^ k" "b < length (buckets m)"
    using bucket_ix_less [OF g, of "wy key"] g b by (simp_all add: geometry_def)
  have s4: "length (slots ?bk) = 4"
    using reprD(2) [OF inv_repr [OF inv]] b2(2) by (simp add: bucket_shape_def)
  have g': "geometry ?m k" using g by (simp add: geometry_def)
  note full = bucket_full_iff [OF inv b2(2)]
  obtain i where i: "i < 4"
    and ch: "\<And>p. (if get_state (meta ?bk) i = Full then free_slot (pool m) (slots ?bk ! i)
           else Inr (pool m)) = Inr p \<Longrightarrow>
         choose_target ?m b =
           (if get_state (meta ?bk) i = Full
            then Inr (?m\<lparr>pool := p, eviction_count := eviction_count m + 1\<rparr>, Some (i, True))
            else Inr (?m, Some (i, False)))"
    and t: "get_state (meta ?bk) i \<noteq> Full
         \<or> ttl_expired (current_epoch m + 1) (default_ttl m) (slots_ttl m ! stamp_index (b, i))
         \<or> (\<forall>j<4. get_state (meta ?bk) j = Full
              \<and> \<not> ttl_expired (current_epoch m + 1) (default_ttl m) (slots_ttl m ! stamp_index (b, j))
              \<and> get_priority (meta ?bk) i \<le> get_priority (meta ?bk) j)"
    by (rule choose_target_ok [OF g' b2(1), of ?bk "pool m" "eviction_count m" "slots_ttl m" "current_epoch m + 1" "default_ttl m"])
      (simp_all add: s4)
  have tgt: "insert_target m C key b i"
    using t i full new by (auto simp: insert_target_def)
  have pos: "(b, i) \<in> cells (buckets m)" using b2 i by (simp add: in_cells)
  let ?v = "on_insert (set_h2 (set_state (meta ?bk) i Full) i (h2 (compute_hash wy key))) i"
  obtain p1 s p' where u:
    "(if get_state (meta ?bk) i = Full then free_slot (pool m) (slots ?bk ! i) else Inr (pool m)) = Inr p1"
    "store_entry p1 key val (compute_hash wy key) = Inr (s, p')"
    "table_inv wy (bucket_ix m) (put_slot (buckets m) (b, i) s ?v) p' (C((b, i) \<mapsto> (key, val)))"
    using table_place [OF inv pos b new sz [unfolded small_pair_def] geometry_small [OF g]] by blast
  have fill: "insert_fill m1 b i ev key val (compute_hash wy key) ttl =
      Inr (m1\<lparr>buckets := put_slot (buckets m) (b, i) s ?v, pool := p',
        slots_ttl := (slots_ttl m)[stamp_index (b, i) := \<lparr>st_epoch = current_epoch m1, st_ttl = ttl\<rparr>],
        count := if ev then count m1 else count m1 + 1\<rparr>)"
    if m1: "buckets m1 = buckets m" "pool m1 = p1" "slots_ttl m1 = slots_ttl m" for m1 ev
    using m1 u(2) b2 s4 i g by (simp add: insert_fill_def index_ok put_slot_pair stamp_slot_ttl_def
        stamp_index_def geometry_def Let_def)
  show thesis
  proof (rule that [OF tgt _ u(3) put_slot_length])
    show "bindR (choose_target ?m b) (\<lambda>(m, target).
             case target of
               Some (i, is_eviction) \<Rightarrow> insert_fill m b i is_eviction key val (compute_hash wy key) ttl
             | None \<Rightarrow> Inr m)
       = Inr (after_insert m C key b i ttl (put_slot (buckets m) (b, i) s ?v) p')"
      using ch [OF u(1)] u(1) full [OF i] new [of i] fill
      by (auto simp: after_insert_def has_key_iff split: if_splits)
  qed
qed

lemma insert_internal_pos:
  assumes g: "geometry m k" and inv: "table_inv wy (bucket_ix m) (buckets m) (pool m) C"
    and sz: "small_pair key val"
  obtains i bs p where "insert_target m C key (bucket_ix m (wy key)) i"
    and "insert_internal wy m key val ttl = Inr (after_insert m C key (bucket_ix m (wy key)) i ttl bs p)"
    and "table_inv wy (bucket_ix m) bs p (C((bucket_ix m (wy key), i) \<mapsto> (key, val)))"
    and "length bs = length (buckets m)"
proof -
  let ?b = "bucket_ix m (wy key)"
  have b: "?b < 2 ^ k" "?b < length (buckets m)"
    using bucket_ix_less [OF g] g by (simp_all add: geometry_def)
  show thesis
  proof (cases rule: bucket_search [OF g inv, of key, case_names found missing])
    case (found i v)
    have "insert_target m C key ?b i" using found by (auto simp: insert_target_def)
    then show thesis
      using insert_update_ok [OF g inv found(2) b(1) found(1) sz, of ttl] that found(3) b(2)
      by (auto simp: insert_internal_def index_ok Let_def)
  next
    case missing
    from insert_place_ok [OF g inv refl missing(1) sz, of ttl] obtain i bs p where
      "insert_target m C key ?b i"
      "bindR (choose_target (m\<lparr>current_epoch := current_epoch m + 1\<rparr>) ?b) (\<lambda>(m, target).
             case target of
               Some (i, is_eviction) \<Rightarrow> insert_fill m ?b i is_eviction key val (compute_hash wy key) ttl
             | None \<Rightarrow> Inr m)
       = Inr (after_insert m C key ?b i ttl bs p)"
      "table_inv wy (bucket_ix m) bs p (C((?b, i) \<mapsto> (key, val)))"
      "length bs = length (buckets m)" by blast
    then show thesis using that missing(2) b(2) by (simp add: insert_internal_def index_ok Let_def)
  qed
qed

lemma geometry_after [simp]:
  "length bs = length (buckets m) \<Longrightarrow> geometry (after_insert m C key b i ttl bs p) k = geometry m k"
  by (simp add: geometry_def after_insert_def)

lemma after_insert_fields [simp]:
  "buckets (after_insert m C key b i ttl bs p) = bs" "pool (after_insert m C key b i ttl bs p) = p"
  "bucket_ix (after_insert m C key b i ttl bs p) = bucket_ix m"
  "current_epoch (after_insert m C key b i ttl bs p) = current_epoch m + 1"
  "default_ttl (after_insert m C key b i ttl bs p) = default_ttl m"
  "num_buckets (after_insert m C key b i ttl bs p) = num_buckets m"
  by (simp_all add: after_insert_def)

lemma insert_internal_ok:
  assumes "raw_inv wy m" and sz: "small_pair key val"
  defines "C \<equiv> contents (buckets m) (pool m)" and "b \<equiv> bucket_ix m (wy key)"
  obtains i m' where "insert_internal wy m key val ttl = Inr m'" and "raw_inv wy m'"
    and "insert_target m C key b i"
    and "m' = after_insert m C key b i ttl (buckets m') (pool m')"
    and "raw_lookup wy m' =
      (without C (b, i) (raw_lookup wy m))(key \<mapsto> (val, \<lparr>st_epoch = current_epoch m + 1, st_ttl = ttl\<rparr>))"
proof -
  from assms(1) obtain k C' where g: "geometry m k"
    and inv: "table_inv wy (bucket_ix m) (buckets m) (pool m) C'"
    and cnt: "unat (count m) = card (dom C')" and C': "contents (buckets m) (pool m) = C'"
    and l: "raw_lookup wy m = view (\<lambda>k. bucket_ix m (wy k)) C' (slots_ttl m)"
    and ky: "keyed (\<lambda>k. bucket_ix m (wy k)) (buckets m) C'" by (rule raw_invE)
  have C: "C = C'" by (simp add: C_def C')
  obtain i bs p where i: "insert_target m C key b i"
    "insert_internal wy m key val ttl = Inr (after_insert m C key b i ttl bs p)"
    "table_inv wy (bucket_ix m) bs p (C((b, i) \<mapsto> (key, val)))" "length bs = length (buckets m)"
    by (rule insert_internal_pos [OF g inv sz, of ttl]) (auto simp: C b_def)
  let ?m = "after_insert m C key b i ttl bs p"
  have pos: "(b, i) \<in> cells (buckets m)"
    using bucket_ix_less [OF g] g i(1) by (simp add: in_cells geometry_def insert_target_def b_def)
  have fin: "finite (dom C)" using reprD(10) [OF inv_repr [OF inv]] by (simp add: C)
  have "card (dom C) \<le> 4 * length (buckets m)" using card_cells_le [OF ky] by (simp add: C)
  then have "unat (count m) + 1 < 2 ^ 64" using geometry_small [OF g] cnt by (simp add: C)
  then have c: "unat (count ?m) = card (dom (C((b, i) \<mapsto> (key, val))))"
    using cnt unfolding card_dom_update [OF fin] by (simp add: after_insert_def C unat_Suc)
  have g': "geometry ?m k" using g i(4) by simp
  have t': "table_inv wy (bucket_ix ?m) (buckets ?m) (pool ?m) (C((b, i) \<mapsto> (key, val)))"
    using i(3) by simp
  note m' = raw_invI [OF g' t' c]
  have "raw_lookup wy ?m =
      (without C (b, i) (raw_lookup wy m))(key \<mapsto> (val, \<lparr>st_epoch = current_epoch m + 1, st_ttl = ttl\<rparr>))"
    unfolding m'(2) l C [symmetric]
    using view_store [OF ky pos, of key "slots_ttl m" val] slot_for_new [OF ky, of key i] insert_target_slot [OF i(1)] g
    by (simp add: after_insert_def b_def C geometry_def)
  then show thesis using that i(1,2) m'(1) by simp
qed

lemma insert_num_buckets:
  assumes "raw_inv wy m" and "small_pair key val" and "insert_internal wy m key val ttl = Inr m'"
  shows "num_buckets m' = num_buckets m"
proof (rule insert_internal_ok [OF assms(1,2), of ttl])
  fix i m'' assume "insert_internal wy m key val ttl = Inr m''"
    "m'' = after_insert m (contents (buckets m) (pool m)) key (bucket_ix m (wy key)) i ttl (buckets m'') (pool m'')"
  then show ?thesis using assms(3) by (metis after_insert_fields(6) Inr_inject)
qed

section \<open>The contract\<close>

lemma raw_insert_law:
  assumes m: "raw_inv wy m" and sz: "small_pair key val"
  shows "\<exists>m' victim. insert_internal wy m key val ttl = Inr m' \<and> raw_inv wy m'
     \<and> current_epoch m' = current_epoch m + 1 \<and> default_ttl m' = default_ttl m
     \<and> raw_lookup wy m' =
         stored_after (raw_lookup wy m) victim key (val, \<lparr>st_epoch = current_epoch m + 1, st_ttl = ttl\<rparr>)
     \<and> (case victim of
          None \<Rightarrow> eviction_count m' = eviction_count m
        | Some x \<Rightarrow> x \<noteq> key \<and> raw_lookup wy m key = None \<and> raw_lookup wy m x \<noteq> None
                    \<and> eviction_count m' = eviction_count m + 1)"
proof -
  let ?C = "contents (buckets m) (pool m)" and ?bx = "\<lambda>k. bucket_ix m (wy k)"
  have ky: "keyed ?bx (buckets m) ?C" and l: "raw_lookup wy m = view ?bx ?C (slots_ttl m)"
    using m by (auto elim!: raw_invE)
  obtain i m' where i: "insert_internal wy m key val ttl = Inr m'" "raw_inv wy m'"
    "insert_target m ?C key (?bx key) i"
    "m' = after_insert m ?C key (?bx key) i ttl (buckets m') (pool m')"
    "raw_lookup wy m' = (without ?C (?bx key, i) (raw_lookup wy m))
       (key \<mapsto> (val, \<lparr>st_epoch = current_epoch m + 1, st_ttl = ttl\<rparr>))"
    using insert_internal_ok [OF m sz, of ttl] by blast
  let ?x = "if has_key ?C key (?bx key, i) then None else map_option fst (?C (?bx key, i))"
  note v = without_victim(1,2) [OF ky insert_target_slot [OF i(3)], where T = "slots_ttl m"] without_victim(3) [OF ky insert_target_slot [OF i(3)]]
  have e: "eviction_count m' = (if ?x = None then eviction_count m else eviction_count m + 1)"
    unfolding v(3) by (subst i(4)) (simp add: after_insert_def)
  have "current_epoch m' = current_epoch m + 1" "default_ttl m' = default_ttl m"
    by (subst i(4), simp)+
  then show ?thesis using i(1,2,5) v(1,2) e
    by (intro exI [of _ m'] exI [of _ ?x]) (auto simp: l split: option.split simp del: fun_upd_apply)
qed

interpretation raw: byte_cache "\<lambda>_. raw_inv wy" "raw_lookup wy" "\<lambda>m _. current_epoch m" default_ttl eviction_count
  "insert_internal wy" "raw_get wy" "raw_remove wy" for wy
proof unfold_locales
  fix s k
  assume s: "raw_inv wy s"
  show "\<exists>s'. raw_get wy s k = Inr (live_value (current_epoch s) (default_ttl s) (raw_lookup wy s k), s')
      \<and> raw_inv wy s' \<and> raw_lookup wy s' = raw_lookup wy s \<and> (\<forall>j :: bytes. current_epoch s' = current_epoch s)
      \<and> default_ttl s' = default_ttl s \<and> eviction_count s' = eviction_count s"
    by (rule raw_get_ok [OF s, of k]) blast
  show "\<exists>s'. raw_remove wy s k = Inr (raw_lookup wy s k \<noteq> None, s') \<and> raw_inv wy s'
      \<and> raw_lookup wy s' = (raw_lookup wy s)(k := None) \<and> (\<forall>j :: bytes. current_epoch s' = current_epoch s)
      \<and> default_ttl s' = default_ttl s \<and> eviction_count s' = eviction_count s"
    by (rule raw_remove_ok [OF s, of k]) blast
qed (rule raw_insert_law)

lemma raw_set_ttl_ok: "raw_inv wy (raw_set_ttl m t) = raw_inv wy m \<and> raw_lookup wy (raw_set_ttl m t) = raw_lookup wy m"
  by (simp add: raw_inv_def raw_lookup_def geometry_def raw_set_ttl_def)

lemma raw_bounds:
  assumes "raw_inv wy m"
  shows "raw_len m = card (dom (raw_lookup wy m))" and "finite (dom (raw_lookup wy m))"
    and "raw_len m \<le> raw_capacity m" and "length (entries (pool m)) \<le> raw_capacity m"
    and "0 < raw_capacity m"
proof -
  from assms obtain k C where g: "geometry m k"
    and inv: "table_inv wy (bucket_ix m) (buckets m) (pool m) C"
    and cnt: "unat (count m) = card (dom C)"
    and l: "raw_lookup wy m = view (\<lambda>k. bucket_ix m (wy k)) C (slots_ttl m)"
    and ky: "keyed (\<lambda>k. bucket_ix m (wy k)) (buckets m) C" by (rule raw_invE)
  show "raw_len m = card (dom (raw_lookup wy m))" "finite (dom (raw_lookup wy m))"
    using card_view [OF ky, of "slots_ttl m"] cnt by (simp_all add: l raw_len_def)
  show "raw_len m \<le> raw_capacity m" "length (entries (pool m)) \<le> raw_capacity m" "0 < raw_capacity m"
    using card_cells_le [OF ky] reprD(9) [OF inv_repr [OF inv]] g cnt
    by (simp_all add: raw_len_def raw_capacity_def geometry_def)
qed

lemma raw_new_start:
  assumes "n \<le> 2 ^ 56"
  shows "raw_inv wy (projr (raw_new n))" and "raw_lookup wy (projr (raw_new n)) = Map.empty"
    and "raw_new n = Inr (projr (raw_new n))"
  by (rule raw_new_ok [OF assms, of wy], simp)+

section \<open>Properties\<close>

text \<open>
  C1: insertion refines the map. From any reachable state, \<^verbatim>\<open>insert_ttl\<close> never panics,
  keeps the invariant, advances the epoch by one, and stores its pair stamped with the new epoch
  and the given TTL. Every other entry keeps its value and stamp, but for at most one victim; a
  victim is dropped only if the key was absent, and exactly then the eviction count goes up and
  the length stays.
\<close>

theorem raw_insert_refines:
  assumes "raw_inv wy m" and "small_pair key val"
  shows "\<exists>m' victim. raw_insert_ttl wy m key val ttl = Inr m' \<and> raw_inv wy m'
     \<and> current_epoch m' = current_epoch m + 1
     \<and> raw_lookup wy m' =
         stored_after (raw_lookup wy m) victim key (val, \<lparr>st_epoch = current_epoch m + 1, st_ttl = ttl\<rparr>)
     \<and> (case victim of
          None \<Rightarrow> eviction_count m' = eviction_count m
            \<and> raw_len m' = (if raw_lookup wy m key = None then raw_len m + 1 else raw_len m)
        | Some x \<Rightarrow> x \<noteq> key \<and> raw_lookup wy m key = None \<and> raw_lookup wy m x \<noteq> None
            \<and> eviction_count m' = eviction_count m + 1 \<and> raw_len m' = raw_len m)"
proof -
  let ?V = "raw_lookup wy m"
  obtain m' victim where i: "insert_internal wy m key val ttl = Inr m'" "raw_inv wy m'"
    "current_epoch m' = current_epoch m + 1"
    "raw_lookup wy m' = stored_after ?V victim key (val, \<lparr>st_epoch = current_epoch m + 1, st_ttl = ttl\<rparr>)"
    "case victim of None \<Rightarrow> eviction_count m' = eviction_count m
        | Some x \<Rightarrow> x \<noteq> key \<and> ?V key = None \<and> ?V x \<noteq> None \<and> eviction_count m' = eviction_count m + 1"
    using raw.insert_law [OF assms, of ttl] by blast
  have fin: "finite (dom ?V)" by (rule raw_bounds(2) [OF assms(1)])
  have "raw_len m' = (if victim = None \<and> ?V key = None then raw_len m + 1 else raw_len m)"
  proof (cases victim)
    case None
    then show ?thesis
      using card_dom_update [OF fin] i(4) by (simp add: raw_bounds(1) [OF i(2)] raw_bounds(1) [OF assms(1)] stored_after_def del: dom_fun_upd)
  next
    case (Some x)
    with i(5) have x: "x \<noteq> key" "?V key = None" "x \<in> dom ?V" by auto
    have "card (dom (?V(x := None))) + 1 = card (dom ?V)" using fin x(3) by (simp add: card_Suc_Diff1 del: card_Diff_insert)
    then have "card (dom ((?V(x := None))(key \<mapsto> (val, \<lparr>st_epoch = current_epoch m + 1, st_ttl = ttl\<rparr>)))) = card (dom ?V)"
      using fin x by (subst card_dom_update) (auto simp del: dom_fun_upd simp: dom_fun_upd)
    then show ?thesis using i(4) Some by (simp add: raw_bounds(1) [OF i(2)] raw_bounds(1) [OF assms(1)] stored_after_def del: dom_fun_upd)
  qed
  then show ?thesis using i unfolding raw_insert_ttl_def
    by (intro exI [of _ m'] exI [of _ victim]) (auto split: option.splits)
qed

theorem raw_insert_refines_witness:
  "\<exists>m' victim. raw_insert_ttl demo_hash (projr (raw_new 1)) [1] [2] 7 = Inr m' \<and> raw_inv demo_hash m'
     \<and> raw_lookup demo_hash m' [1] =
         Some ([2], \<lparr>st_epoch = current_epoch (projr (raw_new 1)) + 1, st_ttl = 7\<rparr>)"
  using raw_insert_refines [of demo_hash "projr (raw_new 1)" "[1]" "[2]" 7] raw_new_start(1,2) [where n = 1 and wy = demo_hash]
  by (auto simp: small_pair_def stored_after_def)

text \<open>
  C13: the choice of victim. An insertion that evicts \<open>x\<close> takes it from the bucket of the
  inserted key, and \<open>x\<close> had either expired at the new epoch, or all four slots of the bucket held
  unexpired entries and none of them had a lower priority than \<open>x\<close>.
\<close>

theorem raw_insert_victim:
  assumes "raw_inv wy m" and "small_pair key val"
    and "raw_insert_ttl wy m key val ttl = Inr m'"
    and "raw_lookup wy m x \<noteq> None" and "raw_lookup wy m' x = None"
  defines "b \<equiv> bucket_ix m (wy key)"
  shows "bucket_ix m (wy x) = b \<and> raw_lookup wy m key = None
     \<and> (\<exists>i<4. has_key (contents (buckets m) (pool m)) x (b, i)
          \<and> (ttl_expired (current_epoch m + 1) (default_ttl m) (slots_ttl m ! (b * 4 + i))
             \<or> (\<forall>j<4. get_state (meta (buckets m ! b)) j = Full
                  \<and> \<not> ttl_expired (current_epoch m + 1) (default_ttl m) (slots_ttl m ! (b * 4 + j))
                  \<and> get_priority (meta (buckets m ! b)) i \<le> get_priority (meta (buckets m ! b)) j)))"
proof -
  let ?bx = "\<lambda>k. bucket_ix m (wy k)"
  from assms(1) obtain k C where g: "geometry m k"
    and inv: "table_inv wy (bucket_ix m) (buckets m) (pool m) C" and C: "contents (buckets m) (pool m) = C"
    and l: "raw_lookup wy m = view ?bx C (slots_ttl m)"
    and ky: "keyed ?bx (buckets m) C" by (rule raw_invE)
  obtain i where i: "insert_target m C key b i"
    "raw_lookup wy m' = (without C (b, i) (raw_lookup wy m))
       (key \<mapsto> (val, \<lparr>st_epoch = current_epoch m + 1, st_ttl = ttl\<rparr>))"
    using insert_internal_ok [OF assms(1,2), of ttl] assms(3) by (auto simp: C b_def raw_insert_ttl_def)
  from i(2) assms(4,5) have x: "x \<noteq> key" "without C (b, i) (raw_lookup wy m) x \<noteq> raw_lookup wy m x"
    by (auto split: if_splits)
  then obtain v where v: "C (b, i) = Some (x, v)"
    by (auto simp: without_def split: option.splits if_splits)
  have new: "\<And>j v. C (b, j) \<noteq> Some (key, v)" using i(1) v x(1) by (auto simp: insert_target_def)
  then have "raw_lookup wy m key = None" using view_miss [OF ky] by (simp add: l b_def)
  moreover have "bucket_ix m (wy x) = b" using keyedD(2) [OF ky v] by simp
  moreover have "get_state (meta (buckets m ! b)) j = Full" if "j < 4" "C (b, j) \<noteq> None" for j
    using bucket_full_iff [OF inv _ that(1), of b] that(2) bucket_ix_less [OF g, of "wy key"] g
    by (simp add: b_def geometry_def)
  ultimately show ?thesis
    using i(1) v new unfolding C insert_target_def stamp_index_def by (auto simp: has_key_iff)
qed

text \<open>
  C2: lookups. \<^verbatim>\<open>get\<close> and \<^verbatim>\<open>peek\<close> never panic and both return the stored value
  unless it has expired; \<^verbatim>\<open>get\<close> leaves every entry, stamp, counter and the invariant as
  they were.
\<close>

theorem raw_get_refines:
  assumes "raw_inv wy m"
  shows "raw_peek wy m key = Inr (live_value (current_epoch m) (default_ttl m) (raw_lookup wy m key))
     \<and> (\<exists>m'. raw_get wy m key = Inr (live_value (current_epoch m) (default_ttl m) (raw_lookup wy m key), m')
          \<and> raw_inv wy m' \<and> raw_lookup wy m' = raw_lookup wy m \<and> raw_len m' = raw_len m
          \<and> current_epoch m' = current_epoch m \<and> eviction_count m' = eviction_count m)"
proof -
  obtain m' where m': "raw_get wy m key = Inr (live_value (current_epoch m) (default_ttl m) (raw_lookup wy m key), m')"
    "raw_inv wy m'" "raw_lookup wy m' = raw_lookup wy m" "current_epoch m' = current_epoch m"
    "eviction_count m' = eviction_count m"
    using raw.get_law [OF assms, of key] by blast
  then have "raw_len m' = raw_len m" using raw_bounds(1) [OF m'(2)] raw_bounds(1) [OF assms] by simp
  with m' raw_peek_ok [OF assms] show ?thesis by blast
qed

theorem raw_get_refines_witness:
  "raw_peek demo_hash (projr (raw_new 1)) [1] = Inr None
     \<and> (\<exists>m'. raw_get demo_hash (projr (raw_new 1)) [1] = Inr (None, m') \<and> raw_inv demo_hash m')"
  using raw_get_refines [of demo_hash "projr (raw_new 1)" "[1]"]
    raw_new_start(1,2) [where n = 1 and wy = demo_hash]
  by (auto simp: live_value_def)

text \<open>
  C3: removal. \<^verbatim>\<open>remove\<close> never panics, reports whether the key was stored (expired or
  not), drops exactly that key, releases its slab entry, and lowers the length by one if it was
  there.
\<close>

theorem raw_remove_refines:
  assumes "raw_inv wy m"
  shows "\<exists>m'. raw_remove wy m key = Inr (raw_lookup wy m key \<noteq> None, m') \<and> raw_inv wy m'
     \<and> raw_lookup wy m' = (raw_lookup wy m)(key := None)
     \<and> raw_len m' + (if raw_lookup wy m key = None then 0 else 1) = raw_len m
     \<and> raw_peek wy m' key = Inr None"
proof -
  obtain m' where m': "raw_remove wy m key = Inr (raw_lookup wy m key \<noteq> None, m')" "raw_inv wy m'"
    "raw_lookup wy m' = (raw_lookup wy m)(key := None)"
    using raw.remove_law [OF assms, of key] by blast
  have "raw_len m' + (if raw_lookup wy m key = None then 0 else 1) = raw_len m"
  proof (cases "raw_lookup wy m key = None")
    case True
    then have "raw_lookup wy m' = raw_lookup wy m" using m'(3) by (simp add: fun_upd_idem)
    then show ?thesis using True raw_bounds(1) [OF m'(2)] raw_bounds(1) [OF assms] by simp
  next
    case False
    then have "key \<in> dom (raw_lookup wy m)" by blast
    then have "card (dom (raw_lookup wy m) - {key}) + 1 = card (dom (raw_lookup wy m))"
      using raw_bounds(2) [OF assms] by (simp add: card_Suc_Diff1 del: card_Diff_insert)
    then show ?thesis using False m'(3) raw_bounds(1) [OF m'(2)] raw_bounds(1) [OF assms] by simp
  qed
  moreover have "raw_peek wy m' key = Inr None"
    using raw_peek_ok [OF m'(2), of key] m'(3) by (simp add: live_value_def)
  ultimately show ?thesis using m' by blast
qed

theorem raw_remove_refines_witness:
  "\<exists>m'. raw_remove demo_hash (projr (raw_new 1)) [1] = Inr (False, m') \<and> raw_inv demo_hash m'"
  using raw_remove_refines [of demo_hash "projr (raw_new 1)" "[1]"]
    raw_new_start(1,2) [where n = 1 and wy = demo_hash]
  by auto

text \<open>
  Bounds. The length is the number of stored keys and never exceeds the capacity, the load
  factor lies between 0 and 1, and the slab pool never grows beyond one entry per slot, however
  many insertions, updates, evictions and removals have happened.
\<close>

theorem raw_size_bounds:
  assumes "raw_inv wy m"
  shows "raw_len m = card (dom (raw_lookup wy m)) \<and> raw_len m \<le> raw_capacity m
     \<and> 0 \<le> raw_load_factor m \<and> raw_load_factor m \<le> 1
     \<and> length (entries (pool m)) \<le> raw_capacity m"
  using raw_bounds [OF assms] by (simp add: raw_load_factor_def raw_len_def)

theorem raw_size_bounds_witness:
  "raw_len (projr (raw_new 1)) = 0 \<and> length (entries (pool (projr (raw_new 1)))) \<le> raw_capacity (projr (raw_new 1))"
  using raw_size_bounds [of demo_hash "projr (raw_new 1)"] raw_new_start(1,2) [where n = 1 and wy = demo_hash]
  by simp

text \<open>
  Construction. For at most \<open>2 ^ 56\<close> buckets \<^verbatim>\<open>new\<close> does not panic and yields an empty
  map whose number of buckets is the least power of two that is at least the requested one, with
  four slots each.
\<close>

theorem raw_new_correct:
  assumes "n \<le> 2 ^ 56"
  shows "\<exists>m k. raw_new n = Inr m \<and> raw_inv wy m \<and> raw_lookup wy m = Map.empty
     \<and> raw_num_buckets m = 2 ^ k \<and> raw_capacity m = 4 * 2 ^ k \<and> raw_len m = 0
     \<and> max n 1 \<le> 2 ^ k \<and> 2 ^ k < 2 * max n 1"
  by (rule raw_new_ok [OF assms, of wy])
    (auto simp: raw_num_buckets_def raw_capacity_def raw_len_def)

theorem raw_new_correct_witness:
  "\<exists>m k. raw_new 5 = Inr m \<and> raw_num_buckets m = 2 ^ k \<and> (5 :: nat) \<le> 2 ^ k \<and> 2 ^ k < (10 :: nat)"
  using raw_new_correct [of 5 demo_hash] by auto



end
