(* ===== verification/Fuzz.thy ===== *)
theory Fuzz
  imports Raw
begin

text \<open>
  The fuzz target \<^verbatim>\<open>src/fuzz/fuzz_targets/fuzz_sequences.rs\<close>: it reads arbitrary bytes as
  a stream of operations on a \<^verbatim>\<open>PulseMap\<close>, mirrors them in a shadow \<^verbatim>\<open>HashMap\<close> and
  asserts that every hit is the right one. The harness is modelled with its parser, its assertions
  are error values, and it is shown to pass on every input.
\<close>

definition NUM_BUCKETS :: nat where "NUM_BUCKETS = 16"
definition MAX_KEY_LEN :: nat where "MAX_KEY_LEN = 32"
definition MAX_VAL_LEN :: nat where "MAX_VAL_LEN = 32"

section \<open>The operation stream\<close>

fun read_bytes :: "bytes \<Rightarrow> nat \<Rightarrow> (bytes \<times> bytes) option" where
  "read_bytes [] max_len = None"
| "read_bytes (len_byte # rest) max_len =
     (let len = unat len_byte mod (max_len + 1) in
      if length rest < len then None else Some (take len rest, drop len rest))"

datatype op =
    OpInsert bytes bytes
  | OpGet bytes
  | OpRemove bytes
  | OpPeek bytes
  | OpInsertTtl bytes bytes u64
  | OpAdvanceEpoch u8

fun split_first :: "'a list \<Rightarrow> ('a \<times> 'a list) option" where
  "split_first [] = None"
| "split_first (x # xs) = Some (x, xs)"

definition parse_op :: "bytes \<Rightarrow> (op \<times> bytes) option" where
  "parse_op input =
     Option.bind (split_first input) (\<lambda>(tag, rest).
     let t = unat tag mod 6 in
     if t = 0 then
       Option.bind (read_bytes rest MAX_KEY_LEN) (\<lambda>(key, rest).
       Option.bind (read_bytes rest MAX_VAL_LEN) (\<lambda>(val, rest).
       Some (OpInsert key val, rest)))
     else if t = 1 then
       Option.bind (read_bytes rest MAX_KEY_LEN) (\<lambda>(key, rest). Some (OpGet key, rest))
     else if t = 2 then
       Option.bind (read_bytes rest MAX_KEY_LEN) (\<lambda>(key, rest). Some (OpRemove key, rest))
     else if t = 3 then
       Option.bind (read_bytes rest MAX_KEY_LEN) (\<lambda>(key, rest).
       Option.bind (read_bytes rest MAX_VAL_LEN) (\<lambda>(val, rest).
       Option.bind (split_first rest) (\<lambda>(ttl_byte, rest).
       Some (OpInsertTtl key val (ucast ttl_byte), rest))))
     else if t = 4 then
       Option.bind (split_first rest) (\<lambda>(steps, rest).
       Some (OpAdvanceEpoch (word_of_nat (unat steps mod 16) + 1), rest))
     else
       Option.bind (read_bytes rest MAX_KEY_LEN) (\<lambda>(key, rest). Some (OpPeek key, rest)))"

section \<open>The harness\<close>

definition assert_that :: "bool \<Rightarrow> unit res" where
  "assert_that b = (if b then Inr () else Inl AssertionFailed)"

definition check_hit :: "(bytes \<rightharpoonup> bytes) \<Rightarrow> bytes \<Rightarrow> bytes option \<Rightarrow> unit res" where
  "check_hit shadow key got =
     (case got of
        None \<Rightarrow> Inr ()
      | Some val \<Rightarrow>
          (case shadow key of
             Some expected \<Rightarrow> assert_that (val = expected)
           | None \<Rightarrow> Inl AssertionFailed))"

type_synonym fuzz_state = "pulse_map_raw \<times> (bytes \<rightharpoonup> bytes)"

text \<open>The loop of \<^verbatim>\<open>AdvanceEpoch\<close> over \<open>i = 0, ..., steps - 1\<close>.\<close>

fun advance :: "(bytes \<Rightarrow> u64) \<Rightarrow> nat list \<Rightarrow> fuzz_state \<Rightarrow> fuzz_state res" where
  "advance wy [] st = Inr st"
| "advance wy (i # is) (m, shadow) =
     (let dummy_key = [0xAA, word_of_nat i, 0xFF]; dummy_val = [0x00] in
      bindR (raw_insert wy m dummy_key dummy_val) (\<lambda>m.
      advance wy is (m, shadow(dummy_key \<mapsto> dummy_val))))"

fun apply_op :: "(bytes \<Rightarrow> u64) \<Rightarrow> op \<Rightarrow> fuzz_state \<Rightarrow> fuzz_state res" where
  "apply_op wy (OpInsert key val) (m, shadow) =
     bindR (raw_insert wy m key val) (\<lambda>m. Inr (m, shadow(key \<mapsto> val)))"
| "apply_op wy (OpGet key) (m, shadow) =
     bindR (raw_get wy m key) (\<lambda>(r, m).
     bindR (check_hit shadow key r) (\<lambda>_. Inr (m, shadow)))"
| "apply_op wy (OpRemove key) (m, shadow) =
     bindR (raw_remove wy m key) (\<lambda>(was_present, m).
     let shadow = shadow(key := None) in
     bindR (raw_get wy m key) (\<lambda>(r, m).
     bindR (assert_that (r = None)) (\<lambda>_. Inr (m, shadow))))"
| "apply_op wy (OpPeek key) (m, shadow) =
     bindR (raw_peek wy m key) (\<lambda>peek_result.
     bindR (raw_get wy m key) (\<lambda>(get_result, m).
     bindR (assert_that ((peek_result \<noteq> None) = (get_result \<noteq> None))) (\<lambda>_.
     bindR (check_hit shadow key peek_result) (\<lambda>_.
     bindR (check_hit shadow key get_result) (\<lambda>_. Inr (m, shadow))))))"
| "apply_op wy (OpInsertTtl key val ttl) (m, shadow) =
     bindR (raw_insert_ttl wy m key val ttl) (\<lambda>m. Inr (m, shadow(key \<mapsto> val)))"
| "apply_op wy (OpAdvanceEpoch steps) (m, shadow) = advance wy [0..<unat steps] (m, shadow)"

definition fuzz_step :: "(bytes \<Rightarrow> u64) \<Rightarrow> op \<Rightarrow> fuzz_state \<Rightarrow> fuzz_state res" where
  "fuzz_step wy op st =
     bindR (apply_op wy op st) (\<lambda>(m, shadow).
     bindR (assert_that (raw_len m \<le> raw_capacity m)) (\<lambda>_.
     bindR (assert_that (0 \<le> raw_load_factor m \<and> raw_load_factor m \<le> 1)) (\<lambda>_.
     Inr (m, shadow))))"

lemma read_bytes_shorter: "read_bytes input n = Some (bs, rest) \<Longrightarrow> length rest < length input"
  by (cases input) (auto simp: Let_def split: if_splits)

lemma split_first_shorter: "split_first input = Some (x, rest) \<Longrightarrow> length rest < length input"
  by (cases input) auto

lemma parse_op_shorter: "parse_op input = Some (op, rest) \<Longrightarrow> length rest < length input"
  by (fastforce simp: parse_op_def Let_def split: bind_splits if_splits
      dest!: read_bytes_shorter split_first_shorter)

function fuzz_loop :: "(bytes \<Rightarrow> u64) \<Rightarrow> bytes \<Rightarrow> fuzz_state \<Rightarrow> fuzz_state res" where
  "fuzz_loop wy remaining st =
     (case parse_op remaining of
        None \<Rightarrow> Inr st
      | Some (op, rest) \<Rightarrow> bindR (fuzz_step wy op st) (\<lambda>st. fuzz_loop wy rest st))"
  by pat_completeness auto
termination
  by (relation "measure (\<lambda>(wy, remaining, st). length remaining)") (auto simp: parse_op_shorter)

declare fuzz_loop.simps [simp del]

definition fuzz_target :: "(bytes \<Rightarrow> u64) \<Rightarrow> bytes \<Rightarrow> unit res" where
  "fuzz_target wy input =
     bindR (raw_new NUM_BUCKETS) (\<lambda>m.
     bindR (fuzz_loop wy input (m, Map.empty)) (\<lambda>_. Inr ()))"

section \<open>The harness passes\<close>

fun fuzz_ok :: "(bytes \<Rightarrow> u64) \<Rightarrow> fuzz_state \<Rightarrow> bool" where
  "fuzz_ok wy (m, shadow) \<longleftrightarrow> raw_inv wy m \<and> recorded_in (raw_lookup wy m) shadow"

fun small_op :: "op \<Rightarrow> bool" where
  "small_op (OpInsert key val) = small_pair key val"
| "small_op (OpInsertTtl key val ttl) = small_pair key val"
| "small_op _ = True"

lemma read_bytes_length: "read_bytes input n = Some (bs, rest) \<Longrightarrow> length bs \<le> n"
proof (cases input)
  case (Cons b bs')
  assume "read_bytes input n = Some (bs, rest)"
  then have "bs = take (unat b mod (n + 1)) bs'" using Cons by (auto simp: Let_def split: if_splits)
  then have "length bs \<le> unat b mod Suc n" by simp
  also have "\<dots> \<le> n" using mod_less_divisor [of "Suc n" "unat b"] by linarith
  finally show ?thesis .
qed simp

lemma parse_op_small: "parse_op input = Some (op, rest) \<Longrightarrow> small_op op"
  by (fastforce simp: parse_op_def Let_def small_pair_def MAX_KEY_LEN_def MAX_VAL_LEN_def
      split: bind_splits if_splits dest!: read_bytes_length)

lemma insert_step:
  assumes "fuzz_ok wy (m, shadow)" and "small_pair key val"
  shows "\<exists>m'. insert_internal wy m key val ttl = Inr m' \<and> fuzz_ok wy (m', shadow(key \<mapsto> val))"
  using raw.insert_law [of wy m key val ttl] recorded_in_insert [of "raw_lookup wy m" shadow] assms
  by fastforce

lemma hit_ok: "recorded_in V shadow \<Longrightarrow> check_hit shadow key (live_value now d (V key)) = Inr ()"
  using recorded_in_get [of V shadow now d key]
  by (auto simp: check_hit_def assert_that_def split: option.split)

lemma advance_ok:
  "fuzz_ok wy st \<Longrightarrow> \<exists>st'. advance wy is st = Inr st' \<and> fuzz_ok wy st'"
proof (induction "is" arbitrary: st)
  case (Cons i "is")
  obtain m shadow where st: "st = (m, shadow)" by fastforce
  have "small_pair [0xAA, word_of_nat i, 0xFF] [0x00]" by (simp add: small_pair_def)
  from insert_step [OF Cons.prems [unfolded st] this, of 0] Cons.IH
  show ?case by (fastforce simp: st raw_insert_def Let_def simp del: fuzz_ok.simps fun_upd_apply)
qed simp

lemma apply_op_ok:
  assumes ok: "fuzz_ok wy (m, shadow)" and small: "small_op op"
  shows "\<exists>st'. apply_op wy op (m, shadow) = Inr st' \<and> fuzz_ok wy st'"
proof (cases op)
  case (OpInsert key val)
  then show ?thesis using insert_step [OF ok, of key val 0] small
    by (auto simp: raw_insert_def simp del: fuzz_ok.simps)
next
  case (OpInsertTtl key val ttl)
  then show ?thesis using insert_step [OF ok, of key val ttl] small
    by (auto simp: raw_insert_ttl_def simp del: fuzz_ok.simps)
next
  case (OpGet key)
  then show ?thesis using raw.get_law [of wy m key] ok hit_ok by fastforce
next
  case (OpPeek key)
  then show ?thesis using raw.get_law [of wy m key] raw_peek_ok [of wy m key] ok hit_ok
    by (fastforce simp: assert_that_def)
next
  case (OpAdvanceEpoch steps)
  then show ?thesis using advance_ok [OF ok] by simp
next
  case (OpRemove key)
  obtain m1 where r: "raw_remove wy m key = Inr (raw_lookup wy m key \<noteq> None, m1)" "raw_inv wy m1"
    "raw_lookup wy m1 = (raw_lookup wy m)(key := None)"
    using raw.remove_law [of wy m key] ok by auto
  obtain m2 where g: "raw_get wy m1 key = Inr (None, m2)" "raw_inv wy m2"
    "raw_lookup wy m2 = raw_lookup wy m1"
    using raw.get_law [OF r(2), of key] r(3) by (auto simp: live_value_def)
  have "recorded_in (raw_lookup wy m2) (shadow(key := None))"
    unfolding g(3) r(3) using recorded_in_remove ok by simp
  then show ?thesis using OpRemove r(1) g(1,2) by (simp add: assert_that_def)
qed

lemma fuzz_step_ok:
  assumes "fuzz_ok wy st" and "small_op op"
  shows "\<exists>st'. fuzz_step wy op st = Inr st' \<and> fuzz_ok wy st'"
proof -
  obtain m shadow where st: "st = (m, shadow)" by fastforce
  obtain m' shadow' where a: "apply_op wy op (m, shadow) = Inr (m', shadow')" "fuzz_ok wy (m', shadow')"
    using apply_op_ok [OF assms(1) [unfolded st] assms(2)] by auto
  then have "raw_inv wy m'" by simp
  then have "raw_len m' \<le> raw_capacity m'" "0 \<le> raw_load_factor m' \<and> raw_load_factor m' \<le> 1"
    using raw_bounds [of wy m'] by (simp_all add: raw_load_factor_def raw_len_def)
  then show ?thesis using a by (simp add: fuzz_step_def st assert_that_def)
qed

lemma fuzz_loop_ok: "fuzz_ok wy st \<Longrightarrow> \<exists>st'. fuzz_loop wy input st = Inr st' \<and> fuzz_ok wy st'"
proof (induction input arbitrary: st rule: length_induct)
  case (1 input)
  show ?case
  proof (cases "parse_op input")
    case None
    then show ?thesis using 1 by (simp add: fuzz_loop.simps [of wy input])
  next
    case (Some p)
    obtain op rest where p: "p = (op, rest)" by fastforce
    obtain st1 where s: "fuzz_step wy op st = Inr st1" "fuzz_ok wy st1"
      using fuzz_step_ok [OF "1.prems" parse_op_small] Some p by blast
    have "length rest < length input" using parse_op_shorter Some p by blast
    with "1.IH" s(2) obtain st2 where "fuzz_loop wy rest st1 = Inr st2" "fuzz_ok wy st2" by blast
    then show ?thesis using Some p s(1) by (simp add: fuzz_loop.simps [of wy input])
  qed
qed

text \<open>
  C39: the fuzz target passes. Whatever the input bytes and whatever the hash function, the
  harness terminates, no operation panics and no assertion of the target fails: every hit returns
  the value last inserted under its key, nothing survives its removal, \<^verbatim>\<open>peek\<close> and
  \<^verbatim>\<open>get\<close> agree, and the length and load factor stay within bounds.
\<close>

theorem fuzz_target_passes: "fuzz_target wy input = Inr ()"
proof -
  have n: "NUM_BUCKETS \<le> 2 ^ 56" by (simp add: NUM_BUCKETS_def)
  have "fuzz_ok wy (projr (raw_new NUM_BUCKETS), Map.empty)"
    using raw_new_start(1,2) [OF n, of wy] by (simp add: recorded_in_def)
  from fuzz_loop_ok [OF this, of input] show ?thesis
    by (subst fuzz_target_def, subst raw_new_start(3) [OF n]) auto
qed

end
