(* ===== verification/Codec.thy ===== *)
theory Codec
  imports Prelude
begin

text \<open>
  The traits \<^verbatim>\<open>PulseKey\<close> and \<^verbatim>\<open>PulseValue\<close> of \<^verbatim>\<open>src/src/lib.rs\<close> as records of
  operations, one record per built-in implementation, and the law the typed maps rely on as a
  locale: decoding the encoding of a value gives it back. Signed integers are integers within the
  range of their type, strings are lists of Unicode scalar values with the UTF-8 encoding of
  \<^verbatim>\<open>as_bytes\<close> and the checks of \<^verbatim>\<open>str::from_utf8\<close>, fixed-size arrays are byte
  lists of the given length.
\<close>

section \<open>The traits\<close>

record 'a pulse_key =
  key_to_bytes :: "'a \<Rightarrow> bytes"
  key_from_bytes :: "bytes \<Rightarrow> 'a option"
  with_key_bytes :: "'a \<Rightarrow> bytes"

record 'a pulse_value =
  val_to_bytes :: "'a \<Rightarrow> bytes"
  val_from_bytes :: "bytes \<Rightarrow> 'a option"

text \<open>The default method \<^verbatim>\<open>with_key_bytes\<close> passes the bytes of \<^verbatim>\<open>to_bytes\<close>.\<close>

definition default_key :: "('a \<Rightarrow> bytes) \<Rightarrow> (bytes \<Rightarrow> 'a option) \<Rightarrow> 'a pulse_key" where
  "default_key enc dec = \<lparr>key_to_bytes = enc, key_from_bytes = dec, with_key_bytes = enc\<rparr>"

section \<open>Conversions of the standard library\<close>

definition first :: "'a list \<Rightarrow> 'a option" where
  "first b = (case b of [] \<Rightarrow> None | x # _ \<Rightarrow> Some x)"

text \<open>\<^verbatim>\<open>b.try_into()\<close> to an array of \<open>n\<close> bytes checks the length.\<close>

definition try_into :: "nat \<Rightarrow> bytes \<Rightarrow> bytes option" where
  "try_into n b = (if length b = n then Some b else None)"

definition signed_to_le :: "nat \<Rightarrow> 'a::len itself \<Rightarrow> int \<Rightarrow> bytes" where
  "signed_to_le n TYPE('a) x = to_le n (word_of_int x :: 'a word)"

definition signed_from_le :: "'a::len itself \<Rightarrow> bytes \<Rightarrow> int" where
  "signed_from_le TYPE('a) b = sint (from_le b :: 'a word)"

subsection \<open>UTF-8\<close>

definition scalar :: "nat \<Rightarrow> bool" where
  "scalar c \<longleftrightarrow> c < 0xD800 \<or> 0xDFFF < c \<and> c < 0x110000"

definition encode_char :: "nat \<Rightarrow> nat list" where
  "encode_char c =
     (if c < 0x80 then [c]
      else if c < 0x800 then [0xC0 + c div 64, 0x80 + c mod 64]
      else if c < 0x10000 then [0xE0 + c div 4096, 0x80 + c div 64 mod 64, 0x80 + c mod 64]
      else [0xF0 + c div 262144, 0x80 + c div 4096 mod 64, 0x80 + c div 64 mod 64, 0x80 + c mod 64])"

definition cont :: "nat \<Rightarrow> bool" where
  "cont b \<longleftrightarrow> 0x80 \<le> b \<and> b \<le> 0xBF"

text \<open>The second byte after the lead byte of a three- or four-byte sequence.\<close>

definition second3 :: "nat \<Rightarrow> nat \<Rightarrow> bool" where
  "second3 b0 b1 \<longleftrightarrow> cont b1 \<and> (b0 = 0xE0 \<longrightarrow> 0xA0 \<le> b1) \<and> (b0 = 0xED \<longrightarrow> b1 \<le> 0x9F)"

definition second4 :: "nat \<Rightarrow> nat \<Rightarrow> bool" where
  "second4 b0 b1 \<longleftrightarrow> cont b1 \<and> (b0 = 0xF0 \<longrightarrow> 0x90 \<le> b1) \<and> (b0 = 0xF4 \<longrightarrow> b1 \<le> 0x8F)"

definition decode_char :: "nat list \<Rightarrow> (nat \<times> nat list) option" where
  "decode_char bs =
     (case bs of
        b0 # r0 \<Rightarrow>
          if b0 < 0x80 then Some (b0, r0)
          else if 0xC2 \<le> b0 \<and> b0 \<le> 0xDF then
            (case r0 of
               b1 # r1 \<Rightarrow> if cont b1 then Some ((b0 - 0xC0) * 64 + (b1 - 0x80), r1) else None
             | _ \<Rightarrow> None)
          else if 0xE0 \<le> b0 \<and> b0 \<le> 0xEF then
            (case r0 of
               b1 # b2 # r2 \<Rightarrow>
                 if second3 b0 b1 \<and> cont b2
                 then Some ((b0 - 0xE0) * 4096 + (b1 - 0x80) * 64 + (b2 - 0x80), r2) else None
             | _ \<Rightarrow> None)
          else if 0xF0 \<le> b0 \<and> b0 \<le> 0xF4 then
            (case r0 of
               b1 # b2 # b3 # r3 \<Rightarrow>
                 if second4 b0 b1 \<and> cont b2 \<and> cont b3
                 then Some ((b0 - 0xF0) * 262144 + (b1 - 0x80) * 4096 + (b2 - 0x80) * 64 + (b3 - 0x80), r3)
                 else None
             | _ \<Rightarrow> None)
          else None
      | [] \<Rightarrow> None)"

lemma decode_char_shorter: "decode_char bs = Some (c, rest) \<Longrightarrow> length rest < length bs"
  by (auto simp: decode_char_def split: list.splits if_splits)

function utf8_decode :: "nat list \<Rightarrow> nat list option" where
  "utf8_decode bs =
     (if bs = [] then Some []
      else case decode_char bs of
             None \<Rightarrow> None
           | Some (c, rest) \<Rightarrow> map_option (Cons c) (utf8_decode rest))"
  by pat_completeness auto
termination
  by (relation "measure length") (auto simp: decode_char_shorter)

declare utf8_decode.simps [simp del]

definition as_bytes :: "nat list \<Rightarrow> bytes" where
  "as_bytes s = map word_of_nat (concat (map encode_char s))"

definition from_utf8 :: "bytes \<Rightarrow> nat list option" where
  "from_utf8 b = utf8_decode (map unat b)"

section \<open>Key implementations\<close>

definition key_u8 :: "u8 pulse_key" where
  "key_u8 = default_key (\<lambda>x. [x]) first"

definition key_u16 :: "u16 pulse_key" where
  "key_u16 = default_key (to_le 2) (\<lambda>b. map_option from_le (try_into 2 b))"

definition key_u32 :: "u32 pulse_key" where
  "key_u32 = default_key (to_le 4) (\<lambda>b. map_option from_le (try_into 4 b))"

definition key_u64 :: "u64 pulse_key" where
  "key_u64 = default_key (to_le 8) (\<lambda>b. map_option from_le (try_into 8 b))"

definition key_i32 :: "int pulse_key" where
  "key_i32 = default_key (signed_to_le 4 TYPE(32)) (\<lambda>b. map_option (signed_from_le TYPE(32)) (try_into 4 b))"

definition key_i64 :: "int pulse_key" where
  "key_i64 = default_key (signed_to_le 8 TYPE(64)) (\<lambda>b. map_option (signed_from_le TYPE(64)) (try_into 8 b))"

definition key_String :: "nat list pulse_key" where
  "key_String = \<lparr>key_to_bytes = as_bytes, key_from_bytes = from_utf8, with_key_bytes = as_bytes\<rparr>"

definition key_Vec :: "bytes pulse_key" where
  "key_Vec = \<lparr>key_to_bytes = (\<lambda>b. b), key_from_bytes = Some, with_key_bytes = (\<lambda>b. b)\<rparr>"

definition key_array :: "nat \<Rightarrow> bytes pulse_key" where
  "key_array n = \<lparr>key_to_bytes = (\<lambda>b. b), key_from_bytes = try_into n, with_key_bytes = (\<lambda>b. b)\<rparr>"

section \<open>Value implementations\<close>

definition val_u8 :: "u8 pulse_value" where
  "val_u8 = \<lparr>val_to_bytes = (\<lambda>x. [x]), val_from_bytes = first\<rparr>"

definition val_u16 :: "u16 pulse_value" where
  "val_u16 = \<lparr>val_to_bytes = to_le 2, val_from_bytes = (\<lambda>b. map_option from_le (try_into 2 b))\<rparr>"

definition val_u32 :: "u32 pulse_value" where
  "val_u32 = \<lparr>val_to_bytes = to_le 4, val_from_bytes = (\<lambda>b. map_option from_le (try_into 4 b))\<rparr>"

definition val_u64 :: "u64 pulse_value" where
  "val_u64 = \<lparr>val_to_bytes = to_le 8, val_from_bytes = (\<lambda>b. map_option from_le (try_into 8 b))\<rparr>"

definition val_i32 :: "int pulse_value" where
  "val_i32 = \<lparr>val_to_bytes = signed_to_le 4 TYPE(32),
              val_from_bytes = (\<lambda>b. map_option (signed_from_le TYPE(32)) (try_into 4 b))\<rparr>"

definition val_i64 :: "int pulse_value" where
  "val_i64 = \<lparr>val_to_bytes = signed_to_le 8 TYPE(64),
              val_from_bytes = (\<lambda>b. map_option (signed_from_le TYPE(64)) (try_into 8 b))\<rparr>"

definition val_String :: "nat list pulse_value" where
  "val_String = \<lparr>val_to_bytes = as_bytes, val_from_bytes = from_utf8\<rparr>"

definition val_Vec :: "bytes pulse_value" where
  "val_Vec = \<lparr>val_to_bytes = (\<lambda>b. b), val_from_bytes = Some\<rparr>"

definition val_bool :: "bool pulse_value" where
  "val_bool = \<lparr>val_to_bytes = (\<lambda>b. [of_bool b]), val_from_bytes = (\<lambda>b. map_option (\<lambda>v. v \<noteq> 0) (first b))\<rparr>"

section \<open>UTF-8 round trips\<close>

text \<open>Base-64 digits.\<close>

lemma digits3:
  assumes "y < (64::nat)" and "z < 64" and "c = x * 4096 + y * 64 + z"
  shows "c div 4096 = x" and "c div 64 mod 64 = y" and "c mod 64 = z"
proof -
  have d: "c div 64 = x * 64 + y" using assms by (intro div_nat_eqI) auto
  moreover have "c div 64 * 64 + c mod 64 = c" by simp
  ultimately show "c mod 64 = z" using assms(3) by simp
  show "c div 64 mod 64 = y" "c div 4096 = x"
    using assms(1) d by (simp_all add: div_mult2_eq [of c 64 64, simplified])
qed

lemma digits4:
  assumes "x < (64::nat)" and "y < 64" and "z < 64" and "c = w * 262144 + x * 4096 + y * 64 + z"
  shows "c div 262144 = w" and "c div 4096 mod 64 = x" and "c div 64 mod 64 = y" and "c mod 64 = z"
proof -
  have c: "c = (w * 64 + x) * 4096 + y * 64 + z" using assms(4) by simp
  note d = digits3 [OF assms(2,3) c]
  show "c div 64 mod 64 = y" "c mod 64 = z" by (rule d(2), rule d(3))
  show "c div 4096 mod 64 = x" "c div 262144 = w"
    using d(1) assms(1) by (simp_all add: div_mult2_eq [of c 4096 64, simplified])
qed

lemma digits3_eq: "c = c div 4096 * 4096 + c div 64 mod 64 * 64 + c mod 64" for c :: nat
proof -
  have "c div 4096 = c div 64 div 64" by (simp add: div_mult2_eq [of c 64 64, simplified])
  then show ?thesis using div_mult_mod_eq [of c 64] div_mult_mod_eq [of "c div 64" 64] by linarith
qed

lemma digits4_eq: "c = c div 262144 * 262144 + c div 4096 mod 64 * 4096 + c div 64 mod 64 * 64 + c mod 64" for c :: nat
proof -
  have "c div 262144 = c div 4096 div 64" by (simp add: div_mult2_eq [of c 4096 64, simplified])
  then show ?thesis using digits3_eq [of c] div_mult_mod_eq [of "c div 4096" 64] by linarith
qed

lemma decode_encode_char:
  assumes "scalar c"
  shows "decode_char (encode_char c @ rest) = Some (c, rest)"
proof -
  consider "c < 0x80" | "0x80 \<le> c" "c < 0x800" | "0x800 \<le> c" "c < 0x10000" | "0x10000 \<le> c" by linarith
  then show ?thesis
  proof cases
    case 1
    then show ?thesis by (simp add: encode_char_def decode_char_def)
  next
    case 2
    have "2 \<le> c div 64" "c div 64 < 32" "c mod 64 < 64" using 2 by (auto simp: less_eq_div_iff_mult_less_eq div_less_iff_less_mult)
    then show ?thesis using 2 by (simp add: encode_char_def decode_char_def cont_def)
  next
    case 3
    define x y z where "x = c div 4096" and "y = c div 64 mod 64" and "z = c mod 64"
    have c: "c = x * 4096 + y * 64 + z" unfolding x_def y_def z_def by (rule digits3_eq)
    have b: "y < 64" "z < 64" "x < 16" using 3 by (simp_all add: x_def y_def z_def div_less_iff_less_mult)
    have "x = 0 \<Longrightarrow> 32 \<le> y" using 3 c b by linarith
    moreover have "x = 13 \<Longrightarrow> y < 32" using assms c b unfolding scalar_def by linarith
    ultimately have "second3 (0xE0 + x) (0x80 + y)" using b by (auto simp: second3_def cont_def)
    moreover have "x * 4096 + y * 64 + z = c" using c by simp
    ultimately show ?thesis using 3 b
      by (simp add: encode_char_def decode_char_def cont_def flip: x_def y_def z_def)
  next
    case 4
    define w x y z where "w = c div 262144" and "x = c div 4096 mod 64" and "y = c div 64 mod 64" and "z = c mod 64"
    have c: "c = w * 262144 + x * 4096 + y * 64 + z" unfolding w_def x_def y_def z_def by (rule digits4_eq)
    have lt: "c < 0x110000" using assms 4 by (simp add: scalar_def)
    have b: "x < 64" "y < 64" "z < 64" by (simp_all add: x_def y_def z_def)
    have "w < 5" unfolding w_def using lt by (simp add: div_less_iff_less_mult)
    note b = b this
    have "w = 0 \<Longrightarrow> 16 \<le> x" using 4 c b by linarith
    moreover have "w = 4 \<Longrightarrow> x < 16" using lt c b by linarith
    ultimately have "second4 (0xF0 + w) (0x80 + x)" using b by (auto simp: second4_def cont_def)
    moreover have "w * 262144 + x * 4096 + y * 64 + z = c" using c by simp
    ultimately show ?thesis using 4 b
      by (simp add: encode_char_def decode_char_def cont_def flip: w_def x_def y_def z_def)
  qed
qed

lemma encode_char_bytes: "scalar c \<Longrightarrow> b \<in> set (encode_char c) \<Longrightarrow> b < 256"
proof -
  have "x mod 64 < 64" for x :: nat by simp
  then have "0x80 + x mod 64 < 256" for x :: nat by (simp add: add_less_imp_less_left less_trans [of "x mod 64" 64])
  moreover have "c < 0x800 \<Longrightarrow> c div 64 < 32" "c < 0x10000 \<Longrightarrow> c div 4096 < 16" "c < 0x110000 \<Longrightarrow> c div 262144 < 5"
    by (auto simp: div_less_iff_less_mult)
  moreover assume "scalar c" "b \<in> set (encode_char c)"
  ultimately show ?thesis
    by (fastforce simp: encode_char_def scalar_def split: if_splits)
qed

lemma encode_char_nonempty: "encode_char c \<noteq> []"
  by (simp add: encode_char_def)

lemma utf8_roundtrip: "list_all scalar s \<Longrightarrow> utf8_decode (concat (map encode_char s)) = Some s"
proof (induction s)
  case Nil
  then show ?case by (simp add: utf8_decode.simps)
next
  case (Cons c s)
  then show ?case
    by (subst utf8_decode.simps) (simp add: decode_encode_char encode_char_nonempty)
qed

lemma from_utf8_as_bytes: "list_all scalar s \<Longrightarrow> from_utf8 (as_bytes s) = Some s"
proof -
  assume s: "list_all scalar s"
  have "map unat (map word_of_nat bs :: bytes) = bs" if "\<forall>b\<in>set bs. b < 256" for bs
    using that by (induction bs) (auto simp: unat_of_nat)
  moreover have "\<forall>b\<in>set (concat (map encode_char s)). b < 256"
    using s encode_char_bytes by (auto simp: list_all_iff)
  ultimately show ?thesis using utf8_roundtrip [OF s] by (simp only: from_utf8_def as_bytes_def)
qed

text \<open>The decoder accepts nothing but encodings: overlong forms and surrogates are rejected.\<close>

lemma decode_char_exact:
  assumes "decode_char bs = Some (c, rest)"
  shows "scalar c" and "bs = encode_char c @ rest"
proof -
  from assms obtain b0 r0 where bs: "bs = b0 # r0" by (cases bs) (auto simp: decode_char_def)
  consider "b0 < 0x80" | "0xC2 \<le> b0" "b0 \<le> 0xDF" | "0xE0 \<le> b0" "b0 \<le> 0xEF" | "0xF0 \<le> b0" "b0 \<le> 0xF4"
    using assms bs by (fastforce simp: decode_char_def split: if_splits)
  then have "scalar c \<and> bs = encode_char c @ rest"
  proof cases
    case 1
    then show ?thesis using assms bs by (simp add: decode_char_def scalar_def encode_char_def)
  next
    case 2
    then obtain b1 where b: "r0 = b1 # rest" "0x80 \<le> b1" "b1 \<le> 0xBF" "c = (b0 - 0xC0) * 64 + (b1 - 0x80)"
      using assms bs by (auto simp: decode_char_def cont_def split: list.splits if_splits)
    define x z where "x = b0 - 0xC0" and "z = b1 - 0x80"
    have "b0 = 0xC0 + x" "b1 = 0x80 + z" "2 \<le> x" "x < 32" "z < 64" "c = x * 64 + z"
      using 2 b by (auto simp: x_def z_def)
    then show ?thesis using bs b(1) by (simp add: scalar_def encode_char_def)
  next
    case 3
    then obtain b1 b2 where b: "r0 = b1 # b2 # rest" "second3 b0 b1" "cont b2"
      "c = (b0 - 0xE0) * 4096 + (b1 - 0x80) * 64 + (b2 - 0x80)"
      using assms bs by (auto simp: decode_char_def split: list.splits if_splits)
    define x y z where "x = b0 - 0xE0" and "y = b1 - 0x80" and "z = b2 - 0x80"
    have e: "b0 = 0xE0 + x" "b1 = 0x80 + y" "b2 = 0x80 + z" "x < 16" "y < 64" "z < 64" "c = x * 4096 + y * 64 + z"
      "x = 0 \<Longrightarrow> 32 \<le> y" "x = 13 \<Longrightarrow> y < 32"
    proof -
      have f: "0x80 \<le> b1" "b1 \<le> 0xBF" "0x80 \<le> b2" "b2 \<le> 0xBF" "b0 = 0xE0 \<longrightarrow> 0xA0 \<le> b1" "b0 = 0xED \<longrightarrow> b1 \<le> 0x9F"
        using b(2,3) by (simp_all add: second3_def cont_def)
      show "b0 = 0xE0 + x" "b1 = 0x80 + y" "b2 = 0x80 + z" "x < 16" "y < 64" "z < 64"
        "x = 0 \<Longrightarrow> 32 \<le> y" "x = 13 \<Longrightarrow> y < 32"
        using 3 f by (auto simp: x_def y_def z_def)
      show "c = x * 4096 + y * 64 + z" using b(4) by (simp only: x_def y_def z_def)
    qed
    have "0x800 \<le> c" "c < 0x10000" using e(4-8) by (cases "x = 0"; linarith)+
    moreover have "scalar c" using e(4-7,9) unfolding scalar_def by (cases "x < 13"; cases "x = 13"; linarith)
    moreover note digits3 [OF e(5,6,7)]
    ultimately show ?thesis using bs b(1) e(1-3) by (simp add: encode_char_def)
  next
    case 4
    then obtain b1 b2 b3 where b: "r0 = b1 # b2 # b3 # rest" "second4 b0 b1" "cont b2" "cont b3"
      "c = (b0 - 0xF0) * 262144 + (b1 - 0x80) * 4096 + (b2 - 0x80) * 64 + (b3 - 0x80)"
      using assms bs by (auto simp: decode_char_def split: list.splits if_splits)
    define w x y z where "w = b0 - 0xF0" and "x = b1 - 0x80" and "y = b2 - 0x80" and "z = b3 - 0x80"
    have e: "b0 = 0xF0 + w" "b1 = 0x80 + x" "b2 = 0x80 + y" "b3 = 0x80 + z" "w \<le> 4" "x < 64" "y < 64" "z < 64"
      "c = w * 262144 + x * 4096 + y * 64 + z" "w = 0 \<Longrightarrow> 16 \<le> x" "w = 4 \<Longrightarrow> x < 16"
    proof -
      have f: "0x80 \<le> b1" "b1 \<le> 0xBF" "0x80 \<le> b2" "b2 \<le> 0xBF" "0x80 \<le> b3" "b3 \<le> 0xBF"
        "b0 = 0xF0 \<longrightarrow> 0x90 \<le> b1" "b0 = 0xF4 \<longrightarrow> b1 \<le> 0x8F"
        using b(2-4) by (simp_all add: second4_def cont_def)
      show "b0 = 0xF0 + w" "b1 = 0x80 + x" "b2 = 0x80 + y" "b3 = 0x80 + z" "w \<le> 4" "x < 64" "y < 64" "z < 64"
        "w = 0 \<Longrightarrow> 16 \<le> x" "w = 4 \<Longrightarrow> x < 16"
        using 4 f by (auto simp: w_def x_def y_def z_def)
      show "c = w * 262144 + x * 4096 + y * 64 + z" using b(5) by (simp only: w_def x_def y_def z_def)
    qed
    have "0x10000 \<le> c" "c < 0x110000" using e(5-11) by (cases "w = 0"; cases "w = 4"; linarith)+
    moreover note digits4 [OF e(6-9)]
    ultimately show ?thesis using bs b(1) e(1-4) by (simp add: encode_char_def scalar_def)
  qed
  then show "scalar c" and "bs = encode_char c @ rest" by simp_all
qed

lemma utf8_decode_exact:
  "utf8_decode bs = Some s \<Longrightarrow> list_all scalar s \<and> concat (map encode_char s) = bs"
proof (induction bs arbitrary: s rule: length_induct)
  case (1 bs)
  show ?case
  proof (cases "bs = []")
    case True
    then show ?thesis using "1.prems" by (simp add: utf8_decode.simps)
  next
    case False
    then obtain c rest s' where d: "decode_char bs = Some (c, rest)" "utf8_decode rest = Some s'" "s = c # s'"
      using "1.prems" by (subst (asm) utf8_decode.simps) (auto split: option.splits)
    have "list_all scalar s' \<and> concat (map encode_char s') = rest"
      using "1.IH" decode_char_shorter [OF d(1)] d(2) by blast
    then show ?thesis using decode_char_exact [OF d(1)] d(3) by simp
  qed
qed

lemma from_utf8_exact: "from_utf8 b = Some s \<Longrightarrow> list_all scalar s \<and> as_bytes s = b"
  using utf8_decode_exact [of "map unat b" s] by (simp add: from_utf8_def as_bytes_def map_idI)

section \<open>The laws of the traits\<close>

locale key_codec =
  fixes K :: "'k pulse_key" and key_ok :: "'k \<Rightarrow> bool"
  assumes key_roundtrip: "key_ok x \<Longrightarrow> key_from_bytes K (key_to_bytes K x) = Some x"
    and key_view: "with_key_bytes K x = key_to_bytes K x"
begin

lemma key_inj: "key_ok x \<Longrightarrow> key_ok y \<Longrightarrow> key_to_bytes K x = key_to_bytes K y \<longleftrightarrow> x = y"
  using key_roundtrip by (metis option.inject)

end

locale value_codec =
  fixes V :: "'v pulse_value" and val_ok :: "'v \<Rightarrow> bool"
  assumes val_roundtrip: "val_ok x \<Longrightarrow> val_from_bytes V (val_to_bytes V x) = Some x"

locale typed_codec = key_codec K key_ok + value_codec V val_ok
  for K :: "'k pulse_key" and key_ok :: "'k \<Rightarrow> bool" and V :: "'v pulse_value" and val_ok :: "'v \<Rightarrow> bool"

definition signed_range :: "nat \<Rightarrow> int \<Rightarrow> bool" where
  "signed_range n x \<longleftrightarrow> - (2 ^ (n - 1)) \<le> x \<and> x < 2 ^ (n - 1)"

lemma first_single [simp]: "first [x] = Some x"
  by (simp add: first_def)

lemma try_into_to_le [simp]: "try_into n (to_le n w) = Some (to_le n w)"
  by (simp add: try_into_def)

lemma signed_roundtrip:
  assumes "LENGTH('a::len) \<le> 8 * n" and "signed_range LENGTH('a) x"
  shows "map_option (signed_from_le TYPE('a)) (try_into n (signed_to_le n TYPE('a) x)) = Some x"
proof -
  have "sint (word_of_int x :: 'a word) = x"
    using assms(2) by (simp add: signed_range_def sint_uint signed_take_bit_int_eq_self word_of_int_inverse
        unsigned_of_int signed_take_bit_take_bit)
  then show ?thesis using assms(1)
    by (simp add: signed_to_le_def signed_from_le_def from_to_le)
qed

lemmas key_defs = key_u8_def key_u16_def key_u32_def key_u64_def key_i32_def key_i64_def
  key_String_def key_Vec_def key_array_def default_key_def
lemmas val_defs = val_u8_def val_u16_def val_u32_def val_u64_def val_i32_def val_i64_def
  val_String_def val_Vec_def val_bool_def

interpretation ku8: key_codec key_u8 "\<lambda>_. True"
  by unfold_locales (simp_all add: key_defs)

interpretation ku16: key_codec key_u16 "\<lambda>_. True"
  by unfold_locales (simp_all add: key_defs from_to_le)

interpretation ku32: key_codec key_u32 "\<lambda>_. True"
  by unfold_locales (simp_all add: key_defs from_to_le)

interpretation ku64: key_codec key_u64 "\<lambda>_. True"
  by unfold_locales (simp_all add: key_defs from_to_le)

interpretation ki32: key_codec key_i32 "signed_range 32"
  by unfold_locales (simp_all add: key_defs signed_roundtrip [where 'a = 32, simplified])

interpretation ki64: key_codec key_i64 "signed_range 64"
  by unfold_locales (simp_all add: key_defs signed_roundtrip [where 'a = 64, simplified])

interpretation kstr: key_codec key_String "list_all scalar"
  by unfold_locales (simp_all add: key_defs from_utf8_as_bytes)

interpretation kvec: key_codec key_Vec "\<lambda>_. True"
  by unfold_locales (simp_all add: key_defs)

interpretation karr: key_codec "key_array n" "\<lambda>b. length b = n" for n
  by unfold_locales (simp_all add: key_defs try_into_def)

interpretation vu8: value_codec val_u8 "\<lambda>_. True"
  by unfold_locales (simp add: val_defs)

interpretation vu16: value_codec val_u16 "\<lambda>_. True"
  by unfold_locales (simp add: val_defs from_to_le)

interpretation vu32: value_codec val_u32 "\<lambda>_. True"
  by unfold_locales (simp add: val_defs from_to_le)

interpretation vu64: value_codec val_u64 "\<lambda>_. True"
  by unfold_locales (simp add: val_defs from_to_le)

interpretation vi32: value_codec val_i32 "signed_range 32"
  by unfold_locales (simp add: val_defs signed_roundtrip [where 'a = 32, simplified])

interpretation vi64: value_codec val_i64 "signed_range 64"
  by unfold_locales (simp add: val_defs signed_roundtrip [where 'a = 64, simplified])

interpretation vstr: value_codec val_String "list_all scalar"
  by unfold_locales (simp add: val_defs from_utf8_as_bytes)

interpretation vvec: value_codec val_Vec "\<lambda>_. True"
  by unfold_locales (simp add: val_defs)

interpretation vbool: value_codec val_bool "\<lambda>_. True"
  by unfold_locales (simp add: val_defs)

interpretation u32u64: typed_codec key_u32 "\<lambda>_. True" val_u64 "\<lambda>_. True"
  by unfold_locales

interpretation string_vec: typed_codec key_String "list_all scalar" val_Vec "\<lambda>_. True"
  by unfold_locales

section \<open>Properties\<close>



end
