(* ===== verification/Access_Buffer.thy ===== *)
theory Access_Buffer
  imports Prelude
begin

text \<open>
  The bounded ring of deferred access events, \<^verbatim>\<open>src/src/engine/access_buffer.rs\<close>, run by one
  thread at a time (then every \<^verbatim>\<open>compare_exchange\<close> succeeds; \<open>Buffer_Race\<close> interleaves threads). Positions are counted by
  wrapping 64-bit words; each slot carries the sequence number that says which generation it is in
  and whether it is published. The ring is shown to implement a bounded first-in first-out queue,
  stated as a locale with the behaviour of \<^verbatim>\<open>drain\<close> derived from it.
\<close>

record access_event =
  sequence :: usize
  ev_data :: usize

record access_buffer =
  buffer :: "access_event list"
  ab_mask :: usize
  head :: usize
  tail :: usize

definition buffer_new :: "nat \<Rightarrow> access_buffer res" where
  "buffer_new capacity =
     (let capacity = next_power_of_two (max capacity 64) in
      if isize_max < capacity * 16 then Inl CapacityOverflow
      else Inr \<lparr>buffer = map (\<lambda>i. \<lparr>sequence = word_of_nat i, ev_data = 0\<rparr>) [0..<capacity],
                ab_mask = word_of_nat capacity - 1, head = 0, tail = 0\<rparr>)"

definition buffer_push :: "access_buffer \<Rightarrow> nat \<Rightarrow> nat \<Rightarrow> (bool \<times> access_buffer) res" where
  "buffer_push a bucket_idx slot_idx =
     (if 4 \<le> slot_idx \<or> unat (drop_bit 2 (- 1 :: usize)) < bucket_idx then Inr (False, a)
      else let h = head a; i = unat (h AND ab_mask a) in
           bindR (index (buffer a) i) (\<lambda>slot.
           if sequence slot \<noteq> h then Inr (False, a)
           else let slot = slot\<lparr>ev_data := push_bit 2 (word_of_nat bucket_idx) OR word_of_nat slot_idx,
                                sequence := h + 1\<rparr>
                in Inr (True, a\<lparr>head := h + 1, buffer := (buffer a)[i := slot]\<rparr>)))"

definition buffer_pop :: "access_buffer \<Rightarrow> ((nat \<times> nat) option \<times> access_buffer) res" where
  "buffer_pop a =
     (let t = tail a; i = unat (t AND ab_mask a) in
      bindR (index (buffer a) i) (\<lambda>slot.
      if sequence slot \<noteq> t + 1 then Inr (None, a)
      else let d = ev_data slot;
               slot = slot\<lparr>sequence := t + word_of_nat (length (buffer a))\<rparr>
           in Inr (Some (unat (drop_bit 2 d), unat (d AND 3)),
                   a\<lparr>tail := t + 1, buffer := (buffer a)[i := slot]\<rparr>)))"

text \<open>\<^verbatim>\<open>drain\<close>; the callback acts on the state \<open>s\<close> it captures.\<close>

fun buffer_drain ::
  "access_buffer \<Rightarrow> nat \<Rightarrow> (nat \<Rightarrow> nat \<Rightarrow> 's \<Rightarrow> 's res) \<Rightarrow> 's \<Rightarrow> (access_buffer \<times> 's) res" where
  "buffer_drain a 0 f s = Inr (a, s)"
| "buffer_drain a (Suc n) f s =
     bindR (buffer_pop a) (\<lambda>(r, a).
     case r of
       None \<Rightarrow> Inr (a, s)
     | Some (bucket, slot) \<Rightarrow> bindR (f bucket slot s) (\<lambda>s. buffer_drain a n f s))"

definition buffer_clear :: "access_buffer \<Rightarrow> access_buffer res" where
  "buffer_clear a = bindR (buffer_drain a (length (buffer a)) (\<lambda>_ _ s. Inr s) ()) (\<lambda>(a, _). Inr a)"

section \<open>The ring\<close>

text \<open>
  The ghost counters \<open>t \<le> h\<close> number all pops and pushes so far, without wrapping. The slot of each
  position in the current window \<open>[t, t + n)\<close> is published if the position lies below \<open>h\<close>, and free
  for it otherwise.
\<close>

definition ring :: "access_buffer \<Rightarrow> nat \<Rightarrow> nat \<Rightarrow> bool" where
  "ring a h t \<longleftrightarrow>
     (\<exists>k. 6 \<le> k \<and> k \<le> 58 \<and> length (buffer a) = 2 ^ k \<and> ab_mask a = mask k)
     \<and> t \<le> h \<and> h \<le> t + length (buffer a) \<and> head a = word_of_nat h \<and> tail a = word_of_nat t
     \<and> (\<forall>p. t \<le> p \<longrightarrow> p < t + length (buffer a) \<longrightarrow>
          sequence (buffer a ! (p mod length (buffer a))) = word_of_nat (if p < h then p + 1 else p))"

definition buffer_inv :: "access_buffer \<Rightarrow> bool" where
  "buffer_inv a \<longleftrightarrow> (\<exists>h t. ring a h t)"

definition decode_event :: "usize \<Rightarrow> nat \<times> nat" where
  "decode_event d = (unat (drop_bit 2 d), unat (d AND 3))"

text \<open>The queued events, oldest first.\<close>

definition pending :: "access_buffer \<Rightarrow> (nat \<times> nat) list" where
  "pending a =
     map (\<lambda>j. decode_event (ev_data (buffer a ! ((unat (tail a) + j) mod length (buffer a)))))
       [0..<unat (head a - tail a)]"

definition valid_event :: "nat \<times> nat \<Rightarrow> bool" where
  "valid_event e \<longleftrightarrow> fst e < 2 ^ 62 \<and> snd e < 4"

lemma ring_size:
  assumes "ring a h t"
  shows "0 < length (buffer a)" and "64 \<le> length (buffer a)" and "length (buffer a) \<le> 2 ^ 58"
    and "length (buffer a) dvd 2 ^ 64"
proof -
  from assms obtain k where k: "6 \<le> k" "k \<le> 58" "length (buffer a) = 2 ^ k" by (auto simp: ring_def)
  have "(2::nat) ^ 6 \<le> 2 ^ k" "(2::nat) ^ k \<le> 2 ^ 58"
    using power_increasing [OF k(1), of "2::nat"] power_increasing [OF k(2), of "2::nat"] by simp_all
  then show "0 < length (buffer a)" "64 \<le> length (buffer a)" "length (buffer a) \<le> 2 ^ 58" using k by simp_all
  show "length (buffer a) dvd 2 ^ 64" unfolding k(3) by (rule le_imp_power_dvd) (use k in simp)
qed

lemma unat_position: "n dvd 2 ^ 64 \<Longrightarrow> unat (word_of_nat p :: usize) mod n = p mod n"
  using mod_mod_cancel [of n "2 ^ 64" p] by (simp add: unat_of_nat)

lemma mask_position:
  assumes "k \<le> 64"
  shows "unat (word_of_nat p AND mask k :: usize) = p mod 2 ^ k"
proof -
  have "unat (word_of_nat p AND mask k :: usize) = take_bit k (unat (word_of_nat p :: usize))"
    by (simp add: take_bit_eq_mask [symmetric] unsigned_take_bit_eq)
  then show ?thesis unfolding take_bit_eq_mod using unat_position [OF le_imp_power_dvd [OF assms]] by simp
qed

lemma ring_index: "ring a h t \<Longrightarrow> unat (word_of_nat p AND ab_mask a) = p mod length (buffer a)"
  by (auto simp: ring_def mask_position)

lemma pending_ring:
  assumes "ring a h t"
  shows "pending a = map (\<lambda>p. decode_event (ev_data (buffer a ! (p mod length (buffer a))))) [t..<h]"
proof -
  let ?n = "length (buffer a)"
  from assms have th: "t \<le> h" "h \<le> t + ?n" "head a = word_of_nat h" "tail a = word_of_nat t" by (auto simp: ring_def)
  have n: "?n \<le> 2 ^ 58" "?n dvd 2 ^ 64" using ring_size [OF assms] by blast+
  have "head a - tail a = word_of_nat (h - t)" using th by (simp add: of_nat_diff)
  moreover have "h - t < 2 ^ 64" using th(2) n(1) by simp
  ultimately have d: "unat (head a - tail a) = h - t" by (simp add: unat_of_nat)
  have m: "(unat (tail a) + j) mod ?n = (t + j) mod ?n" for j
    using unat_position [OF n(2), of t] th(4) by (metis mod_add_left_eq)
  have "[t..<h] = map ((+) t) [0..<h - t]" using th(1) by (intro nth_equalityI) auto
  then show ?thesis unfolding pending_def d m by (simp add: comp_def)
qed

lemma ring_positions:
  assumes "t \<le> p" "p < t + n" "t \<le> q" "q < t + n" "p mod n = q mod n"
  shows "p = (q :: nat)"
proof -
  have "p = q" if "q \<le> p" "p < q + n" "p mod n = q mod n" for p q :: nat
  proof -
    have "n dvd p - q" using that by (metis mod_eq_dvd_iff_nat)
    then show ?thesis using that by (auto dest: dvd_imp_le)
  qed
  then show ?thesis using assms by (metis add_le_mono1 le_trans nat_le_linear less_le_trans)
qed

lemma word_of_nat_neq: "0 < d \<Longrightarrow> d < 2 ^ 64 \<Longrightarrow> (word_of_nat (x + d) :: usize) \<noteq> word_of_nat x"
  by (simp add: word_of_nat_eq_0_iff dvd_imp_le nat_dvd_not_less)

lemma drop2_max: "unat (drop_bit 2 (- 1 :: usize)) = 2 ^ 62 - 1"
proof -
  have "drop_bit 2 (- 1 :: usize) = 0x3FFFFFFFFFFFFFFF" by code_simp
  then show ?thesis by simp
qed

lemma decode_encode_event:
  assumes "valid_event (b, i)"
  shows "decode_event (push_bit 2 (word_of_nat b) OR word_of_nat i) = (b, i)"
proof -
  let ?x = "word_of_nat (4 * b + i) :: usize"
  have b: "b < 2 ^ 62" and i: "i < 4" using assms by (simp_all add: valid_event_def)
  have "take_bit 2 i = i" using i by (simp add: take_bit_eq_mod)
  then have i2: "(word_of_nat i :: usize) = take_bit 2 (word_of_nat i)" by (metis take_bit_of_nat)
  have "push_bit 2 (word_of_nat b :: usize) AND word_of_nat i = 0"
    by (subst i2, rule bit_eqI) (auto simp: bit_simps)
  then have "push_bit 2 (word_of_nat b) OR word_of_nat i = push_bit 2 (word_of_nat b :: usize) + word_of_nat i"
    by (simp add: disjunctive_add_eq_or)
  also have "\<dots> = ?x" by (simp add: push_bit_eq_mult)
  finally have e: "push_bit 2 (word_of_nat b) OR word_of_nat i = ?x" .
  have x: "unat ?x = 4 * b + i" using b i by (simp add: unat_of_nat del: of_nat_add of_nat_mult)
  have "take_bit 64 (4 * b + i) = 4 * b + i" using b i by (intro take_bit_nat_eq_self) simp
  moreover have "unat (drop_bit 2 ?x) = drop_bit 2 (take_bit LENGTH(64) (unat ?x))" by (rule unsigned_drop_bit_eq)
  ultimately have "unat (drop_bit 2 ?x) = (4 * b + i) div 4" unfolding x by (simp add: drop_bit_eq_div)
  moreover have "?x AND 3 = take_bit 2 ?x" by (simp add: take_bit_eq_mask mask_eq_exp_minus_1)
  then have "unat (?x AND 3) = (4 * b + i) mod 4" by (simp only: unsigned_take_bit_eq x) (simp add: take_bit_eq_mod)
  ultimately show ?thesis unfolding e decode_event_def using i by simp
qed

lemma buffer_new_ok:
  assumes "n \<le> 2 ^ 58"
  obtains a where "buffer_new n = Inr a" and "ring a 0 0" and "pending a = []" and "n \<le> length (buffer a)"
proof -
  have m: "max n 64 \<le> 2 ^ 58" "max n 64 \<le> 2 ^ 63" using assms by auto
  obtain k where k: "next_power_of_two (max n 64) = 2 ^ k" "k \<le> 58"
    using next_power_of_two_le [OF m(1)] by auto
  have ge: "max n 64 \<le> 2 ^ k" using next_power_of_two_ge [OF m(2)] k(1) by simp
  have k6: "6 \<le> k"
  proof (rule ccontr)
    assume "\<not> 6 \<le> k"
    then have "(2::nat) ^ k \<le> 2 ^ 5" by (intro power_increasing) auto
    then show False using ge by simp
  qed
  have "(2::nat) ^ k \<le> 2 ^ 58" using k(2) by (rule power_increasing) simp
  then have fits: "\<not> isize_max < 2 ^ k * 16" by (simp add: isize_max_def)
  define a where "a = \<lparr>buffer = map (\<lambda>i. \<lparr>sequence = word_of_nat i, ev_data = 0\<rparr>) [0..<2 ^ k],
                ab_mask = word_of_nat (2 ^ k) - 1, head = 0, tail = 0\<rparr>"
  have "buffer_new n = Inr a" using fits unfolding buffer_new_def Let_def k(1) a_def by simp
  moreover have "ring a 0 0" using k(2) k6 unfolding ring_def a_def
    by (auto simp: mask_eq_exp_minus_1)
  moreover have "pending a = []" by (simp add: pending_def a_def)
  moreover have "n \<le> length (buffer a)" using ge by (simp add: a_def)
  ultimately show thesis using that by blast
qed

text \<open>A full ring refuses: the slot of the head is still in the previous generation.\<close>

lemma full_ring_sequence:
  assumes r: "ring a h t" and full: "h = t + length (buffer a)"
  shows "sequence (buffer a ! (h mod length (buffer a))) \<noteq> head a"
proof -
  let ?n = "length (buffer a)"
  note size = ring_size [OF r]
  have "\<forall>p. t \<le> p \<longrightarrow> p < t + ?n \<longrightarrow>
      sequence (buffer a ! (p mod ?n)) = word_of_nat (if p < h then p + 1 else p)"
    using r by (auto simp: ring_def)
  then have "sequence (buffer a ! (h mod ?n)) = word_of_nat (t + 1)" using size(1) full by simp
  moreover have "(word_of_nat (t + 1 + (?n - 1)) :: usize) \<noteq> word_of_nat (t + 1)"
    using size by (intro word_of_nat_neq) auto
  moreover have "t + 1 + (?n - 1) = h" using full size(1) by simp
  moreover have "head a = word_of_nat h" using r by (simp add: ring_def)
  ultimately show ?thesis by metis
qed

lemma push_room_ok:
  assumes r: "ring a h t" and room: "h < t + length (buffer a)" and valid: "valid_event (b, i)"
  defines "j \<equiv> h mod length (buffer a)"
  defines "s \<equiv> (buffer a ! j)\<lparr>ev_data := push_bit 2 (word_of_nat b) OR word_of_nat i, sequence := head a + 1\<rparr>"
  defines "a' \<equiv> a\<lparr>head := head a + 1, buffer := (buffer a)[j := s]\<rparr>"
  shows "ring a' (h + 1) t" and "pending a' = pending a @ [(b, i)]"
proof -
  let ?n = "length (buffer a)"
  from r have th: "t \<le> h" "head a = word_of_nat h"
    and seq: "\<And>p. t \<le> p \<Longrightarrow> p < t + ?n \<Longrightarrow>
      sequence (buffer a ! (p mod ?n)) = word_of_nat (if p < h then p + 1 else p)"
    by (auto simp: ring_def)
  have j: "j < ?n" using ring_size(1) [OF r] by (simp add: j_def)
  have other: "p mod ?n \<noteq> j" if "t \<le> p" "p < t + ?n" "p \<noteq> h" for p
    using ring_positions [OF that(1,2) th(1) room] that(3) unfolding j_def by blast
  have seq': "sequence ((buffer a)[j := s] ! (p mod ?n)) = word_of_nat (if p < h + 1 then p + 1 else p)"
    if "t \<le> p" "p < t + ?n" for p
  proof (cases "p = h")
    case True
    then show ?thesis using j th(2) by (simp add: s_def j_def)
  next
    case False
    then show ?thesis using other [OF that False] seq [OF that] by simp
  qed
  show ring': "ring a' (h + 1) t"
    using r room th(1) seq' unfolding ring_def a'_def by auto
  have "map (\<lambda>p. decode_event (ev_data ((buffer a)[j := s] ! (p mod ?n)))) [t..<h] =
      map (\<lambda>p. decode_event (ev_data (buffer a ! (p mod ?n)))) [t..<h]"
    by (rule map_cong [OF refl]) (use other th(1) room in \<open>force simp: nth_list_update_neq\<close>)
  then show "pending a' = pending a @ [(b, i)]"
    unfolding pending_ring [OF ring'] pending_ring [OF r]
    using th(1) j decode_encode_event [OF valid] by (simp add: a'_def s_def j_def nth_list_update)
qed

lemma buffer_push_ok:
  assumes r: "ring a h t"
  shows "\<exists>a'. buffer_push a b i = Inr (valid_event (b, i) \<and> h < t + length (buffer a), a')
     \<and> length (buffer a') = length (buffer a)
     \<and> (if valid_event (b, i) \<and> h < t + length (buffer a)
        then ring a' (h + 1) t \<and> pending a' = pending a @ [(b, i)] else a' = a)"
proof -
  let ?n = "length (buffer a)" and ?j = "h mod length (buffer a)"
  have th: "t \<le> h" "h \<le> t + ?n" "head a = word_of_nat h" using r by (auto simp: ring_def)
  have ix: "unat (head a AND ab_mask a) = ?j" using ring_index [OF r, of h] th(3) by simp
  have j: "?j < ?n" using ring_size(1) [OF r] by simp
  have v: "\<not> (4 \<le> i \<or> unat (drop_bit 2 (- 1 :: usize)) < b) \<longleftrightarrow> valid_event (b, i)"
    unfolding drop2_max valid_event_def by auto
  consider "\<not> valid_event (b, i)" | "valid_event (b, i)" "h = t + ?n" | "valid_event (b, i)" "h < t + ?n"
    using th(2) by linarith
  then show ?thesis
  proof cases
    case 1
    then show ?thesis unfolding buffer_push_def v [symmetric] by simp
  next
    case 2
    then show ?thesis using full_ring_sequence [OF r 2(2)] v j ix
      by (simp add: buffer_push_def index_ok Let_def)
  next
    case 3
    have "sequence (buffer a ! ?j) = head a" using r 3(2) by (simp add: ring_def)
    then show ?thesis using 3 v j ix push_room_ok [OF r 3(2,1)] by (simp add: buffer_push_def index_ok Let_def)
  qed
qed

lemma buffer_pop_ok:
  assumes r: "ring a h t"
  shows "\<exists>a'. buffer_pop a = Inr (if t < h then Some (List.hd (pending a)) else None, a')
     \<and> length (buffer a') = length (buffer a)
     \<and> (if t < h then ring a' h (t + 1) \<and> pending a = List.hd (pending a) # pending a' else a' = a)"
proof -
  let ?n = "length (buffer a)" and ?j = "t mod length (buffer a)"
  note size = ring_size [OF r]
  from r have th: "t \<le> h" "h \<le> t + ?n" "head a = word_of_nat h" "tail a = word_of_nat t"
    and seq: "\<And>p. t \<le> p \<Longrightarrow> p < t + ?n \<Longrightarrow>
      sequence (buffer a ! (p mod ?n)) = word_of_nat (if p < h then p + 1 else p)"
    by (auto simp: ring_def)
  have ix: "unat (tail a AND ab_mask a) = ?j" using ring_index [OF r, of t] th(4) by simp
  have j: "?j < ?n" using size(1) by simp
  show ?thesis
  proof (cases "t < h")
    case False
    then have "sequence (buffer a ! ?j) = tail a" using seq [of t] size(1) th by simp
    then show ?thesis using False j ix by (simp add: buffer_pop_def index_ok Let_def)
  next
    case True
    let ?s = "(buffer a ! ?j)\<lparr>sequence := tail a + word_of_nat ?n\<rparr>"
    let ?a = "a\<lparr>tail := tail a + 1, buffer := (buffer a)[?j := ?s]\<rparr>"
    have "sequence (buffer a ! ?j) = tail a + 1" using seq [of t] size(1) th True by simp
    then have pop: "buffer_pop a = Inr (Some (decode_event (ev_data (buffer a ! ?j))), ?a)"
      using j ix by (simp add: buffer_pop_def index_ok decode_event_def Let_def)
    have other: "p mod ?n \<noteq> ?j" if "t + 1 \<le> p" "p < t + ?n" for p
      using ring_positions [of t p ?n t] that size(1) by auto
    have seq': "sequence ((buffer a)[?j := ?s] ! (p mod ?n)) = word_of_nat (if p < h then p + 1 else p)"
      if "t + 1 \<le> p" "p < t + 1 + ?n" for p
    proof (cases "p = t + ?n")
      case True
      then show ?thesis using j th by simp
    next
      case False
      with that have p: "t + 1 \<le> p" "p < t + ?n" "t \<le> p" by simp_all
      show ?thesis using other [OF p(1,2)] seq [OF p(3,2)] by (simp add: nth_list_update_neq)
    qed
    have ring': "ring ?a h (t + 1)"
      using r True th(2) seq' unfolding ring_def by auto
    have "map (\<lambda>p. decode_event (ev_data ((buffer a)[?j := ?s] ! (p mod ?n)))) [t + 1..<h] =
        map (\<lambda>p. decode_event (ev_data (buffer a ! (p mod ?n)))) [t + 1..<h]"
      by (rule map_cong [OF refl]) (use other th(2) in \<open>force simp: nth_list_update_neq\<close>)
    then have "pending a = decode_event (ev_data (buffer a ! ?j)) # pending ?a"
      unfolding pending_ring [OF ring'] pending_ring [OF r] using True by (simp add: upt_conv_Cons)
    then show ?thesis using pop ring' True by simp
  qed
qed

section \<open>The queue contract\<close>

locale bounded_queue =
  fixes inv :: "'q \<Rightarrow> bool" and events :: "'q \<Rightarrow> (nat \<times> nat) list" and bound :: "'q \<Rightarrow> nat"
    and push :: "'q \<Rightarrow> nat \<Rightarrow> nat \<Rightarrow> (bool \<times> 'q) res" and pop :: "'q \<Rightarrow> ((nat \<times> nat) option \<times> 'q) res"
  assumes push_law: "inv q \<Longrightarrow>
      \<exists>q'. push q b i = Inr (valid_event (b, i) \<and> length (events q) < bound q, q') \<and> inv q'
        \<and> bound q' = bound q
        \<and> events q' = (if valid_event (b, i) \<and> length (events q) < bound q then events q @ [(b, i)] else events q)"
    and pop_law: "inv q \<Longrightarrow>
      \<exists>q'. pop q = Inr (case events q of [] \<Rightarrow> None | e # _ \<Rightarrow> Some e, q') \<and> inv q'
        \<and> bound q' = bound q \<and> events q' = List.tl (events q)"
    and bounded: "inv q \<Longrightarrow> length (events q) \<le> bound q"

lemma ring_pending_length: "ring a h t \<Longrightarrow> length (pending a) = h - t"
  by (simp add: pending_ring)

interpretation access: bounded_queue buffer_inv pending "\<lambda>a. length (buffer a)" buffer_push buffer_pop
proof unfold_locales
  fix a b i
  assume "buffer_inv a"
  then obtain h t where r: "ring a h t" by (auto simp: buffer_inv_def)
  note l = ring_pending_length [OF r]
  have th: "t \<le> h" "h \<le> t + length (buffer a)" using r by (auto simp: ring_def)
  then have c: "length (pending a) < length (buffer a) \<longleftrightarrow> h < t + length (buffer a)" using l by auto
  show "length (pending a) \<le> length (buffer a)" using l th by simp
  show "\<exists>q'. buffer_push a b i = Inr (valid_event (b, i) \<and> length (pending a) < length (buffer a), q')
     \<and> buffer_inv q' \<and> length (buffer q') = length (buffer a)
     \<and> pending q' = (if valid_event (b, i) \<and> length (pending a) < length (buffer a)
         then pending a @ [(b, i)] else pending a)"
    unfolding c using buffer_push_ok [OF r, of b i] r unfolding buffer_inv_def by (auto split: if_splits)
  have ne: "t < h \<longleftrightarrow> pending a \<noteq> []" using l by (cases "pending a") auto
  show "\<exists>q'. buffer_pop a = Inr (case pending a of [] \<Rightarrow> None | e # _ \<Rightarrow> Some e, q') \<and> buffer_inv q'
     \<and> length (buffer q') = length (buffer a) \<and> pending q' = List.tl (pending a)"
    using buffer_pop_ok [OF r] r ne unfolding buffer_inv_def by (cases "pending a") (auto split: if_splits)
qed

text \<open>The callbacks \<^verbatim>\<open>drain\<close> makes: on the oldest events, in order.\<close>

fun apply_events :: "(nat \<Rightarrow> nat \<Rightarrow> 's \<Rightarrow> 's res) \<Rightarrow> (nat \<times> nat) list \<Rightarrow> 's \<Rightarrow> 's res" where
  "apply_events f [] s = Inr s"
| "apply_events f ((b, i) # es) s = bindR (f b i s) (apply_events f es)"

lemma buffer_drain_ok:
  assumes "buffer_inv a" and "apply_events f (take n (pending a)) s = Inr s'"
  shows "\<exists>a'. buffer_drain a n f s = Inr (a', s') \<and> buffer_inv a' \<and> pending a' = drop n (pending a)
     \<and> length (buffer a') = length (buffer a)"
  using assms
proof (induction n arbitrary: a s)
  case 0
  then show ?case by simp
next
  case (Suc n)
  obtain a1 where p: "buffer_pop a = Inr (case pending a of [] \<Rightarrow> None | e # _ \<Rightarrow> Some e, a1)" "buffer_inv a1"
    "length (buffer a1) = length (buffer a)" "pending a1 = List.tl (pending a)"
    using access.pop_law [OF Suc.prems(1)] by blast
  show ?case
  proof (cases "pending a")
    case Nil
    then show ?thesis using p Suc.prems by simp
  next
    case (Cons e es)
    obtain b i where e: "e = (b, i)" by fastforce
    from Suc.prems(2) Cons e obtain s1 where s1: "f b i s = Inr s1" "apply_events f (take n es) s1 = Inr s'"
      by auto
    then show ?thesis using Suc.IH [OF p(2), of s1] p Cons e by simp
  qed
qed

lemma buffer_clear_ok:
  assumes "buffer_inv a"
  shows "\<exists>a'. buffer_clear a = Inr a' \<and> buffer_inv a' \<and> pending a' = [] \<and> length (buffer a') = length (buffer a)"
proof -
  have "apply_events (\<lambda>_ _ s. Inr s) es () = Inr ()" for es by (induction es) auto
  then obtain a' where "buffer_drain a (length (buffer a)) (\<lambda>_ _ s. Inr s) () = Inr (a', ())" "buffer_inv a'"
    "pending a' = drop (length (buffer a)) (pending a)" "length (buffer a') = length (buffer a)"
    using buffer_drain_ok [OF assms, of "\<lambda>_ _ s. Inr s" "length (buffer a)" "()" "()"] by blast
  then show ?thesis using access.bounded [OF assms] by (simp add: buffer_clear_def)
qed

section \<open>Property\<close>

text \<open>
  C24: the access buffer is a bounded FIFO queue. Starting from a well-formed ring, with counters
  that may already have wrapped around: a push never panics, is refused exactly when the event does
  not fit its encoding or the ring is full, and otherwise appends the event; draining up to
  \<open>n\<close> events hands the oldest \<open>n\<close> to the callback, in order and exactly once; clearing empties the
  ring.
\<close>

theorem access_buffer_fifo:
  assumes "buffer_inv a"
  shows "(\<exists>a'. buffer_push a b i = Inr (valid_event (b, i) \<and> length (pending a) < length (buffer a), a')
          \<and> buffer_inv a'
          \<and> pending a' = (if valid_event (b, i) \<and> length (pending a) < length (buffer a)
              then pending a @ [(b, i)] else pending a))
     \<and> (\<exists>a'. buffer_drain a n (\<lambda>b i es. Inr (es @ [(b, i)])) [] = Inr (a', take n (pending a))
          \<and> buffer_inv a' \<and> pending a' = drop n (pending a))
     \<and> (\<exists>a'. buffer_clear a = Inr a' \<and> buffer_inv a' \<and> pending a' = [])"
proof -
  have "apply_events (\<lambda>b i es. Inr (es @ [(b, i)])) es acc = Inr (acc @ es)" for es acc
    by (induction es arbitrary: acc) auto
  then have "\<exists>a'. buffer_drain a n (\<lambda>b i es. Inr (es @ [(b, i)])) [] = Inr (a', take n (pending a))
          \<and> buffer_inv a' \<and> pending a' = drop n (pending a)"
    using buffer_drain_ok [OF assms, of "\<lambda>b i es. Inr (es @ [(b, i)])" n "[]"] by fastforce
  then show ?thesis using access.push_law [OF assms, of b i] buffer_clear_ok [OF assms] by blast
qed

theorem access_buffer_fifo_witness:
  "\<exists>a a'. buffer_new 64 = Inr a \<and> buffer_push a 5 3 = Inr (True, a') \<and> pending a' = [(5, 3)]"
proof -
  have "(64 :: nat) \<le> 2 ^ 58" by simp
  then obtain a where a: "buffer_new 64 = Inr a" "ring a 0 0" "pending a = []" "64 \<le> length (buffer a)"
    by (rule buffer_new_ok)
  then have "buffer_inv a" by (auto simp: buffer_inv_def)
  from access_buffer_fifo [OF this, of 5 3 1] a show ?thesis
    by (auto simp: valid_event_def)
qed

end
