(* ===== verification/Sync.thy ===== *)
theory Sync
  imports Complex_Main Cache Codec Access_Buffer
begin

text \<open>
  \<^verbatim>\<open>ConcurrentPulseMap\<close>, \<^verbatim>\<open>src/src/sync.rs\<close>: per-bucket spinlocks, the resizable inner
  state, insertion with the deferred access events, lookup, removal, automatic and explicit
  resizing. Operations are modelled one at a time, which is how the bucket lock, the two mutexes and
  the reader-writer lock serialise the ones that meet (\<open>Locks\<close> shows the bucket locks to exclude each other); the spinlocks are part of the state, so that
  a lock taken twice by one operation shows up as \<^verbatim>\<open>Stuck\<close>. The mutexes around the slab
  pool and the stamps and the reader-writer lock are never held across another acquisition of
  themselves and are left out. The trait bounds are the codec records.
\<close>

section \<open>Bucket locks\<close>

type_synonym bucket_locks = "u8 list"

definition locks_new :: "nat \<Rightarrow> bucket_locks" where
  "locks_new n = replicate n 0"

text \<open>\<^verbatim>\<open>lock\<close>: the compare-exchange loop ends at once on a free lock and never on a held one.\<close>

definition locks_lock :: "bucket_locks \<Rightarrow> nat \<Rightarrow> bucket_locks res" where
  "locks_lock l bucket_idx =
     bindR (index l bucket_idx) (\<lambda>v. if v = 0 then Inr (l[bucket_idx := 1]) else Inl Stuck)"

definition locks_unlock :: "bucket_locks \<Rightarrow> nat \<Rightarrow> bucket_locks res" where
  "locks_unlock l bucket_idx = bindR (index l bucket_idx) (\<lambda>_. Inr (l[bucket_idx := 0]))"

section \<open>State\<close>

record map_inner =
  mi_buckets :: "bucket list"
  mi_locks :: bucket_locks
  mi_pool :: slab_pool
  mi_num_buckets :: nat
  mi_mask :: usize
  mi_epochs :: "slot_ttl list"

definition inner_of :: "nat \<Rightarrow> map_inner" where
  "inner_of actual =
     \<lparr>mi_buckets = replicate actual bucket_empty, mi_locks = locks_new actual, mi_pool = slab_new,
      mi_num_buckets = actual, mi_mask = word_of_nat actual - 1,
      mi_epochs = replicate (actual * 4) slot_ttl_default\<rparr>"

definition inner_new :: "nat \<Rightarrow> map_inner res" where
  "inner_new n =
     (let actual = next_power_of_two (max n 1) in
      if isize_max < actual * 64 then Inl CapacityOverflow else Inr (inner_of actual))"

record concurrent_map =
  inner :: map_inner
  c_count :: usize
  c_eviction_count :: usize
  auto_resize :: bool
  resize_threshold :: real
  sharded_index :: bool
  c_epoch :: u64
  c_default_ttl :: u64
  c_buffer :: access_buffer

definition with_config :: "nat \<Rightarrow> bool \<Rightarrow> bool \<Rightarrow> concurrent_map res" where
  "with_config n auto sharded =
     bindR (inner_new n) (\<lambda>mi.
     bindR (buffer_new 4096) (\<lambda>buf.
     Inr \<lparr>inner = mi, c_count = 0, c_eviction_count = 0, auto_resize = auto,
          resize_threshold = 3 / 4, sharded_index = sharded, c_epoch = 0, c_default_ttl = 0,
          c_buffer = buf\<rparr>))"

definition conc_new :: "nat \<Rightarrow> concurrent_map res" where
  "conc_new n = with_config n False False"

definition new_shard :: "nat \<Rightarrow> bool \<Rightarrow> concurrent_map res" where
  "new_shard n auto = with_config n auto True"

definition conc_with_auto_resize :: "nat \<Rightarrow> concurrent_map res" where
  "conc_with_auto_resize n = with_config n True False"

text \<open>\<^verbatim>\<open>sharded::bucket_hash\<close>: the hash without the shard bits 14..17.\<close>

definition bucket_hash :: "u64 \<Rightarrow> u64" where
  "bucket_hash hash =
     (let low = shl64 1 14 - 1 in (hash AND low) OR (shr64 hash 4 AND NOT low))"

definition bucket_index :: "bool \<Rightarrow> u64 \<Rightarrow> usize \<Rightarrow> nat" where
  "bucket_index sharded hash m =
     (let hash = (if sharded then bucket_hash hash else hash) in unat (hash AND m))"

definition conc_set_ttl :: "concurrent_map \<Rightarrow> u64 \<Rightarrow> concurrent_map" where
  "conc_set_ttl c ttl = c\<lparr>c_default_ttl := ttl\<rparr>"

definition conc_get_ttl :: "concurrent_map \<Rightarrow> u64" where
  "conc_get_ttl c = c_default_ttl c"

definition conc_current_epoch :: "concurrent_map \<Rightarrow> u64" where
  "conc_current_epoch c = c_epoch c"

definition conc_is_expired :: "concurrent_map \<Rightarrow> nat \<Rightarrow> nat \<Rightarrow> bool res" where
  "conc_is_expired c bucket_idx slot_idx =
     bindR (index (mi_epochs (inner c)) (bucket_idx * 4 + slot_idx)) (\<lambda>entry.
     let effective_ttl = (if st_ttl entry = 0 then c_default_ttl c else st_ttl entry) in
     if effective_ttl = 0 \<or> effective_ttl = - 1 then Inr False
     else let epoch = c_epoch c in Inr (effective_ttl < epoch - st_epoch entry))"

definition stamp_epoch :: "concurrent_map \<Rightarrow> nat \<Rightarrow> nat \<Rightarrow> u64 \<Rightarrow> concurrent_map res" where
  "stamp_epoch c bucket_idx slot_idx ttl =
     (let epoch = c_epoch c; T = mi_epochs (inner c) in
      bindR (index T (bucket_idx * 4 + slot_idx)) (\<lambda>_.
      Inr (c\<lparr>inner := (inner c)\<lparr>mi_epochs :=
               T[bucket_idx * 4 + slot_idx := \<lparr>st_epoch = epoch, st_ttl = ttl\<rparr>]\<rparr>\<rparr>)))"

text \<open>A critical section: the guard is taken, the body runs, the guard is dropped.\<close>

definition guarded :: "concurrent_map \<Rightarrow> nat \<Rightarrow> (concurrent_map \<Rightarrow> ('a \<times> concurrent_map) res) \<Rightarrow> ('a \<times> concurrent_map) res" where
  "guarded c idx body =
     bindR (locks_lock (mi_locks (inner c)) idx) (\<lambda>l.
     bindR (body (c\<lparr>inner := (inner c)\<lparr>mi_locks := l\<rparr>\<rparr>)) (\<lambda>(r, c).
     bindR (locks_unlock (mi_locks (inner c)) idx) (\<lambda>l.
     Inr (r, c\<lparr>inner := (inner c)\<lparr>mi_locks := l\<rparr>\<rparr>))))"

definition write_bucket :: "concurrent_map \<Rightarrow> nat \<Rightarrow> bucket \<Rightarrow> slab_pool \<Rightarrow> concurrent_map" where
  "write_bucket c idx b p =
     c\<lparr>inner := (inner c)\<lparr>mi_buckets := (mi_buckets (inner c))[idx := b], mi_pool := p\<rparr>\<rparr>"

section \<open>Resize\<close>

text \<open>The occupied entries with their stamps, in bucket and slot order.\<close>

fun collect_slots ::
  "slab_pool \<Rightarrow> slot_ttl list \<Rightarrow> nat \<Rightarrow> bucket \<Rightarrow> nat list \<Rightarrow> (bytes \<times> bytes \<times> slot_ttl) list res" where
  "collect_slots p T bucket_idx b [] = Inr []"
| "collect_slots p T bucket_idx b (slot_idx # is) =
     (if get_state (meta b) slot_idx \<noteq> Full then collect_slots p T bucket_idx b is
      else bindR (index (slots b) slot_idx) (\<lambda>s.
           bindR (get_key_bytes s p) (\<lambda>key_bytes.
           bindR (get_value_bytes s p) (\<lambda>val_bytes.
           let ttl_idx = bucket_idx * 4 + slot_idx;
               slot_ttl = (if ttl_idx < length T then T ! ttl_idx else slot_ttl_default)
           in bindR (collect_slots p T bucket_idx b is) (\<lambda>es.
              Inr ((key_bytes, val_bytes, slot_ttl) # es))))))"

fun collect_buckets ::
  "slab_pool \<Rightarrow> slot_ttl list \<Rightarrow> nat \<Rightarrow> bucket list \<Rightarrow> (bytes \<times> bytes \<times> slot_ttl) list res" where
  "collect_buckets p T bucket_idx [] = Inr []"
| "collect_buckets p T bucket_idx (b # bs) =
     bindR (collect_slots p T bucket_idx b [0..<4]) (\<lambda>es.
     bindR (collect_buckets p T (bucket_idx + 1) bs) (\<lambda>es'. Inr (es @ es')))"

text \<open>Rehashing one entry; \<open>False\<close> in the first component signals a full bucket.\<close>

definition place_entry ::
  "(bytes \<Rightarrow> u64) \<Rightarrow> bool \<Rightarrow> usize \<Rightarrow> bytes \<times> bytes \<times> slot_ttl \<Rightarrow>
     bucket list \<times> slab_pool \<times> slot_ttl list \<times> usize \<Rightarrow>
     (bool \<times> bucket list \<times> slab_pool \<times> slot_ttl list \<times> usize) res" where
  "place_entry wy sharded new_mask e acc =
     (case (e, acc) of ((key_bytes, val_bytes, slot_ttl), (bs, slab, T, new_count)) \<Rightarrow>
        let hr = compute_hash wy key_bytes;
            new_idx = bucket_index sharded (h1 hr) new_mask
        in bindR (index bs new_idx) (\<lambda>new_bucket.
           case find_free_slot (meta new_bucket) of
             Some free \<Rightarrow>
               bindR (index (slots new_bucket) free) (\<lambda>_.
               bindR (store_entry slab key_bytes val_bytes hr) (\<lambda>(s, slab).
               let v = set_state (meta new_bucket) free Full;
                   v = set_h2 v free (h2 hr);
                   v = on_insert v free;
                   new_bucket = new_bucket\<lparr>slots := (slots new_bucket)[free := s], meta := v\<rparr>
               in bindR (index T (new_idx * 4 + free)) (\<lambda>_.
                  Inr (True, bs[new_idx := new_bucket], slab, T[new_idx * 4 + free := slot_ttl],
                       new_count + 1))))
           | None \<Rightarrow> Inr (False, acc)))"

fun place_entries ::
  "(bytes \<Rightarrow> u64) \<Rightarrow> bool \<Rightarrow> usize \<Rightarrow> (bytes \<times> bytes \<times> slot_ttl) list \<Rightarrow>
     bucket list \<times> slab_pool \<times> slot_ttl list \<times> usize \<Rightarrow>
     (bool \<times> bucket list \<times> slab_pool \<times> slot_ttl list \<times> usize) res" where
  "place_entries wy sharded new_mask [] acc = Inr (True, acc)"
| "place_entries wy sharded new_mask (e # es) acc =
     bindR (place_entry wy sharded new_mask e acc) (\<lambda>(ok, acc).
     if ok then place_entries wy sharded new_mask es acc else Inr (False, acc))"

text \<open>The retry loop doubles the capacity until every entry finds a slot.\<close>

partial_function (option) rehash ::
  "(bytes \<Rightarrow> u64) \<Rightarrow> bool \<Rightarrow> (bytes \<times> bytes \<times> slot_ttl) list \<Rightarrow> usize \<Rightarrow> (map_inner \<times> usize) res option" where
  "rehash wy sharded es new_actual =
     (let n = unat new_actual; new_mask = new_actual - 1 in
      if isize_max < n * 64 then Some (Inl CapacityOverflow)
      else case place_entries wy sharded new_mask es
                  (replicate n bucket_empty, slab_new, replicate (n * 4) slot_ttl_default, 0) of
             Inl e \<Rightarrow> Some (Inl e)
           | Inr (ok, bs, slab, T, new_count) \<Rightarrow>
               if \<not> ok then rehash wy sharded es (new_actual * 2)
               else Some (Inr (\<lparr>mi_buckets = bs, mi_locks = locks_new n, mi_pool = slab,
                                mi_num_buckets = n, mi_mask = new_mask, mi_epochs = T\<rparr>,
                               new_count)))"

text \<open>The vector of collected entries takes 64 bytes per entry.\<close>

definition conc_resize :: "(bytes \<Rightarrow> u64) \<Rightarrow> concurrent_map \<Rightarrow> nat \<Rightarrow> concurrent_map res" where
  "conc_resize wy c new_num_buckets =
     (let new_actual = next_power_of_two (max new_num_buckets 1); st = inner c in
      if new_actual \<le> mi_num_buckets st then Inr c
      else bindR (buffer_clear (c_buffer c)) (\<lambda>buf.
           bindR (collect_buckets (mi_pool st) (mi_epochs st) 0 (mi_buckets st)) (\<lambda>es.
           if isize_max < length es * 64 then Inl CapacityOverflow
           else case rehash wy (sharded_index c) es (word_of_nat new_actual) of
             None \<Rightarrow> Inl Stuck
           | Some r \<Rightarrow> bindR r (\<lambda>(st, new_count).
               Inr (c\<lparr>inner := st, c_count := new_count, c_buffer := buf\<rparr>)))))"

section \<open>Insertion\<close>

definition DRAIN_BATCH :: nat where "DRAIN_BATCH = 64"

definition load_exceeded :: "concurrent_map \<Rightarrow> bool" where
  "load_exceeded c =
     (let cap = mi_num_buckets (inner c) * 4;
          load = real (unat (c_count c)) / real cap
      in resize_threshold c < load)"

text \<open>The drain callback on the inner state.\<close>

definition touch_event :: "nat \<Rightarrow> nat \<Rightarrow> map_inner \<Rightarrow> map_inner res" where
  "touch_event bucket_idx slot_idx st =
     bindR (locks_lock (mi_locks st) bucket_idx) (\<lambda>l.
     bindR (index (mi_buckets st) bucket_idx) (\<lambda>b.
     let bs = (mi_buckets st)[bucket_idx := b\<lparr>meta := on_access (meta b) slot_idx\<rparr>] in
     bindR (locks_unlock l bucket_idx) (\<lambda>l. Inr (st\<lparr>mi_buckets := bs, mi_locks := l\<rparr>))))"

definition conc_update ::
  "concurrent_map \<Rightarrow> nat \<Rightarrow> bucket \<Rightarrow> nat \<Rightarrow> bytes \<Rightarrow> bytes \<Rightarrow> hash_result \<Rightarrow> u64 \<Rightarrow> concurrent_map res" where
  "conc_update c idx b i key val hr ttl =
     bindR (index (slots b) i) (\<lambda>s.
     bindR (free_slot (mi_pool (inner c)) s) (\<lambda>p.
     bindR (store_entry p key val hr) (\<lambda>(s, p).
     let b = b\<lparr>slots := (slots b)[i := s], meta := on_access (meta b) i\<rparr>
     in stamp_epoch (write_bucket c idx b p) idx i ttl)))"

definition conc_target ::
  "concurrent_map \<Rightarrow> bucket \<Rightarrow> (concurrent_map \<times> (nat \<times> bool) option) res" where
  "conc_target c b =
     (case find_free_slot (meta b) of
        Some free \<Rightarrow> Inr (c, Some (free, False))
      | None \<Rightarrow>
          (case find_evict_target (meta b) of
             Some evict \<Rightarrow>
               bindR (index (slots b) evict) (\<lambda>old_slot.
               bindR (free_slot (mi_pool (inner c)) old_slot) (\<lambda>p.
               Inr (c\<lparr>inner := (inner c)\<lparr>mi_pool := p\<rparr>, c_eviction_count := c_eviction_count c + 1\<rparr>,
                    Some (evict, True))))
           | None \<Rightarrow> Inr (c, None)))"

definition conc_fill ::
  "concurrent_map \<Rightarrow> nat \<Rightarrow> bucket \<Rightarrow> nat \<Rightarrow> bool \<Rightarrow> bytes \<Rightarrow> bytes \<Rightarrow> hash_result \<Rightarrow> u64 \<Rightarrow> concurrent_map res" where
  "conc_fill c idx b i is_eviction key val hr ttl =
     bindR (index (slots b) i) (\<lambda>_.
     bindR (store_entry (mi_pool (inner c)) key val hr) (\<lambda>(s, p).
     let v = set_state (meta b) i Full;
         v = set_h2 v i (h2 hr);
         v = on_insert v i;
         b = b\<lparr>slots := (slots b)[i := s], meta := v\<rparr>
     in bindR (stamp_epoch (write_bucket c idx b p) idx i ttl) (\<lambda>c.
        Inr (if \<not> is_eviction then c\<lparr>c_count := c_count c + 1\<rparr> else c))))"

text \<open>The critical section of an insertion.\<close>

definition insert_section ::
  "concurrent_map \<Rightarrow> nat \<Rightarrow> bytes \<Rightarrow> bytes \<Rightarrow> hash_result \<Rightarrow> u64 \<Rightarrow> (unit \<times> concurrent_map) res" where
  "insert_section c idx key val hr ttl =
     bindR (index (mi_buckets (inner c)) idx) (\<lambda>b.
     bindR (find_in_bucket (mi_pool (inner c)) b key hr) (\<lambda>found.
     case found of
       Some i \<Rightarrow> bindR (conc_update c idx b i key val hr ttl) (\<lambda>c. Inr ((), c))
     | None \<Rightarrow>
         bindR (conc_target c b) (\<lambda>(c, target).
         case target of
           Some (i, is_eviction) \<Rightarrow>
             bindR (conc_fill c idx b i is_eviction key val hr ttl) (\<lambda>c. Inr ((), c))
         | None \<Rightarrow> Inr ((), c))))"

text \<open>An insertion after the load check: epoch, deferred access events, critical section.\<close>

definition insert_no_resize ::
  "(bytes \<Rightarrow> u64) \<Rightarrow> concurrent_map \<Rightarrow> bytes \<Rightarrow> bytes \<Rightarrow> u64 \<Rightarrow> concurrent_map res" where
  "insert_no_resize wy c key_bytes val_bytes ttl =
    (let c = c\<lparr>c_epoch := c_epoch c + 1\<rparr>;
         hr = compute_hash wy key_bytes;
         idx = bucket_index (sharded_index c) (h1 hr) (mi_mask (inner c))
     in bindR (buffer_drain (c_buffer c) DRAIN_BATCH touch_event (inner c)) (\<lambda>(buf, st).
        bindR (guarded (c\<lparr>inner := st, c_buffer := buf\<rparr>) idx
                 (\<lambda>c. insert_section c idx key_bytes val_bytes hr ttl)) (\<lambda>(_, c).
        Inr c)))"

definition conc_insert_internal ::
  "(bytes \<Rightarrow> u64) \<Rightarrow> concurrent_map \<Rightarrow> bytes \<Rightarrow> bytes \<Rightarrow> u64 \<Rightarrow> concurrent_map res" where
  "conc_insert_internal wy c key_bytes val_bytes ttl =
     bindR (if auto_resize c \<and> load_exceeded c
            then conc_resize wy c (mi_num_buckets (inner c) * 2) else Inr c) (\<lambda>c.
     insert_no_resize wy c key_bytes val_bytes ttl)"

definition conc_insert ::
  "'k pulse_key \<Rightarrow> 'v pulse_value \<Rightarrow> (bytes \<Rightarrow> u64) \<Rightarrow> concurrent_map \<Rightarrow> 'k \<Rightarrow> 'v \<Rightarrow> concurrent_map res" where
  "conc_insert K V wy c key val = conc_insert_internal wy c (key_to_bytes K key) (val_to_bytes V val) 0"

definition conc_insert_ttl ::
  "'k pulse_key \<Rightarrow> 'v pulse_value \<Rightarrow> (bytes \<Rightarrow> u64) \<Rightarrow> concurrent_map \<Rightarrow> 'k \<Rightarrow> 'v \<Rightarrow> u64 \<Rightarrow> concurrent_map res" where
  "conc_insert_ttl K V wy c key val ttl =
     conc_insert_internal wy c (key_to_bytes K key) (val_to_bytes V val) ttl"

section \<open>Lookup and removal\<close>

text \<open>The comparison inlined in \<^verbatim>\<open>get\<close>, which consults the slab only after the fingerprints.\<close>

definition get_matched :: "slot \<Rightarrow> bytes \<Rightarrow> hash_result \<Rightarrow> slab_pool \<Rightarrow> bool res" where
  "get_matched s key_bytes hr p =
     (if get_mode s = 0 then Inr (inline_key s = key_bytes)
      else if (s ! 0 AND 0x7F) \<noteq> ext_fp_hi hr then Inr False
      else let fp_bytes = slice s 1 4 in
           if (from_le fp_bytes :: u32) \<noteq> ext_fp hr then Inr False
           else bindR (slab_get p (slab_idx s)) (\<lambda>e. bindR (entry_key e) (\<lambda>k. Inr (k = key_bytes))))"

definition get_section ::
  "concurrent_map \<Rightarrow> nat \<Rightarrow> bytes \<Rightarrow> hash_result \<Rightarrow> (bytes option \<times> concurrent_map) res" where
  "get_section c idx key_bytes hr =
     bindR (index (mi_buckets (inner c)) idx) (\<lambda>b.
     bindR (match_loop (\<lambda>i. bindR (index (slots b) i) (\<lambda>s. get_matched s key_bytes hr (mi_pool (inner c))))
              (match_mask (meta b) (h2 hr))) (\<lambda>found.
     case found of
       None \<Rightarrow> Inr (None, c)
     | Some i \<Rightarrow>
         bindR (conc_is_expired c idx i) (\<lambda>expired.
         if expired then Inr (None, c)
         else bindR (buffer_push (c_buffer c) idx i) (\<lambda>(_, buf).
              bindR (index (slots b) i) (\<lambda>s.
              bindR (if get_mode s = 0 then Inr (inline_value s) else get_value s (mi_pool (inner c))) (\<lambda>v.
              Inr (Some v, c\<lparr>c_buffer := buf\<rparr>)))))))"

definition conc_get_bytes ::
  "(bytes \<Rightarrow> u64) \<Rightarrow> concurrent_map \<Rightarrow> bytes \<Rightarrow> (bytes option \<times> concurrent_map) res" where
  "conc_get_bytes wy c key_bytes =
     (let hr = compute_hash wy key_bytes;
          idx = bucket_index (sharded_index c) (h1 hr) (mi_mask (inner c))
      in guarded c idx (\<lambda>c. get_section c idx key_bytes hr))"

definition conc_get ::
  "'k pulse_key \<Rightarrow> 'v pulse_value \<Rightarrow> (bytes \<Rightarrow> u64) \<Rightarrow> concurrent_map \<Rightarrow> 'k \<Rightarrow> ('v option \<times> concurrent_map) res" where
  "conc_get K V wy c key =
     bindR (conc_get_bytes wy c (with_key_bytes K key)) (\<lambda>(r, c).
     Inr (Option.bind r (val_from_bytes V), c))"

definition peek_section ::
  "concurrent_map \<Rightarrow> nat \<Rightarrow> bytes \<Rightarrow> hash_result \<Rightarrow> (bytes option \<times> concurrent_map) res" where
  "peek_section c idx key_bytes hr =
     bindR (index (mi_buckets (inner c)) idx) (\<lambda>b.
     bindR (find_in_bucket (mi_pool (inner c)) b key_bytes hr) (\<lambda>found.
     case found of
       None \<Rightarrow> Inr (None, c)
     | Some i \<Rightarrow>
         bindR (conc_is_expired c idx i) (\<lambda>expired.
         if expired then Inr (None, c)
         else bindR (index (slots b) i) (\<lambda>s.
              bindR (get_value s (mi_pool (inner c))) (\<lambda>v. Inr (Some v, c))))))"

definition conc_peek_bytes ::
  "(bytes \<Rightarrow> u64) \<Rightarrow> concurrent_map \<Rightarrow> bytes \<Rightarrow> (bytes option \<times> concurrent_map) res" where
  "conc_peek_bytes wy c key_bytes =
     (let hr = compute_hash wy key_bytes;
          idx = bucket_index (sharded_index c) (h1 hr) (mi_mask (inner c))
      in guarded c idx (\<lambda>c. peek_section c idx key_bytes hr))"

definition conc_peek ::
  "'k pulse_key \<Rightarrow> 'v pulse_value \<Rightarrow> (bytes \<Rightarrow> u64) \<Rightarrow> concurrent_map \<Rightarrow> 'k \<Rightarrow> ('v option \<times> concurrent_map) res" where
  "conc_peek K V wy c key =
     bindR (conc_peek_bytes wy c (with_key_bytes K key)) (\<lambda>(r, c).
     Inr (Option.bind r (val_from_bytes V), c))"

definition conc_contains_key ::
  "'k pulse_key \<Rightarrow> 'v pulse_value \<Rightarrow> (bytes \<Rightarrow> u64) \<Rightarrow> concurrent_map \<Rightarrow> 'k \<Rightarrow> (bool \<times> concurrent_map) res" where
  "conc_contains_key K V wy c key = bindR (conc_peek K V wy c key) (\<lambda>(r, c). Inr (r \<noteq> None, c))"

definition remove_section ::
  "concurrent_map \<Rightarrow> nat \<Rightarrow> bytes \<Rightarrow> hash_result \<Rightarrow> (bool \<times> concurrent_map) res" where
  "remove_section c idx key_bytes hr =
     bindR (index (mi_buckets (inner c)) idx) (\<lambda>b.
     bindR (find_in_bucket (mi_pool (inner c)) b key_bytes hr) (\<lambda>found.
     case found of
       None \<Rightarrow> Inr (False, c)
     | Some i \<Rightarrow>
         bindR (index (slots b) i) (\<lambda>s.
         bindR (free_slot (mi_pool (inner c)) s) (\<lambda>p.
         let b = b\<lparr>slots := (slots b)[i := slot_clear s], meta := set_state (meta b) i Tombstone\<rparr>;
             c = write_bucket c idx b p
         in Inr (True, c\<lparr>c_count := c_count c - 1\<rparr>)))))"

definition conc_remove_bytes ::
  "(bytes \<Rightarrow> u64) \<Rightarrow> concurrent_map \<Rightarrow> bytes \<Rightarrow> (bool \<times> concurrent_map) res" where
  "conc_remove_bytes wy c key_bytes =
     (let hr = compute_hash wy key_bytes;
          idx = bucket_index (sharded_index c) (h1 hr) (mi_mask (inner c))
      in guarded c idx (\<lambda>c. remove_section c idx key_bytes hr))"

definition conc_remove ::
  "'k pulse_key \<Rightarrow> (bytes \<Rightarrow> u64) \<Rightarrow> concurrent_map \<Rightarrow> 'k \<Rightarrow> (bool \<times> concurrent_map) res" where
  "conc_remove K wy c key = conc_remove_bytes wy c (with_key_bytes K key)"

section \<open>Statistics\<close>

definition conc_len :: "concurrent_map \<Rightarrow> nat" where
  "conc_len c = unat (c_count c)"

definition conc_is_empty :: "concurrent_map \<Rightarrow> bool" where
  "conc_is_empty c \<longleftrightarrow> conc_len c = 0"

definition conc_capacity :: "concurrent_map \<Rightarrow> nat" where
  "conc_capacity c = mi_num_buckets (inner c) * 4"

definition conc_load_factor :: "concurrent_map \<Rightarrow> real" where
  "conc_load_factor c = real (conc_len c) / real (conc_capacity c)"

definition conc_eviction_count :: "concurrent_map \<Rightarrow> nat" where
  "conc_eviction_count c = unat (c_eviction_count c)"

definition conc_num_buckets :: "concurrent_map \<Rightarrow> nat" where
  "conc_num_buckets c = mi_num_buckets (inner c)"

section \<open>Invariant and abstraction\<close>

definition conc_ix :: "concurrent_map \<Rightarrow> u64 \<Rightarrow> nat" where
  "conc_ix c hash = bucket_index (sharded_index c) hash (mi_mask (inner c))"

definition inner_shape :: "map_inner \<Rightarrow> nat \<Rightarrow> bool" where
  "inner_shape st k \<longleftrightarrow>
     k \<le> 56 \<and> mi_num_buckets st = 2 ^ k \<and> length (mi_buckets st) = 2 ^ k \<and> mi_mask st = mask k
     \<and> length (mi_epochs st) = 4 * 2 ^ k"

definition conc_tab :: "(bytes \<Rightarrow> u64) \<Rightarrow> concurrent_map \<Rightarrow> nat \<Rightarrow> ghost \<Rightarrow> bool" where
  "conc_tab wy c k C \<longleftrightarrow>
     inner_shape (inner c) k
     \<and> table_inv wy (conc_ix c) (mi_buckets (inner c)) (mi_pool (inner c)) C
     \<and> unat (c_count c) = card (dom C)"

text \<open>Between operations every bucket lock is free and every queued event names an existing slot.\<close>

definition conc_inv :: "(bytes \<Rightarrow> u64) \<Rightarrow> concurrent_map \<Rightarrow> bool" where
  "conc_inv wy c \<longleftrightarrow>
     (\<exists>k C. conc_tab wy c k C \<and> mi_locks (inner c) = locks_new (2 ^ k) \<and> buffer_inv (c_buffer c)
        \<and> (\<forall>(b, i)\<in>set (pending (c_buffer c)). b < 2 ^ k \<and> i < 4))"

definition conc_lookup :: "(bytes \<Rightarrow> u64) \<Rightarrow> concurrent_map \<Rightarrow> stored_map" where
  "conc_lookup wy c =
     view (\<lambda>k. conc_ix c (wy k)) (contents (mi_buckets (inner c)) (mi_pool (inner c))) (mi_epochs (inner c))"

text \<open>What no operation but the setter of the default TTL changes.\<close>

definition same_config :: "concurrent_map \<Rightarrow> concurrent_map \<Rightarrow> bool" where
  "same_config c c' \<longleftrightarrow> c_default_ttl c' = c_default_ttl c \<and> auto_resize c' = auto_resize c
     \<and> sharded_index c' = sharded_index c \<and> resize_threshold c' = resize_threshold c"

section \<open>Lemmas on the state\<close>

lemma conc_ix_update [simp]:
  "conc_ix (c\<lparr>c_count := n\<rparr>) = conc_ix c" "conc_ix (c\<lparr>c_eviction_count := n\<rparr>) = conc_ix c"
  "conc_ix (c\<lparr>c_epoch := e\<rparr>) = conc_ix c" "conc_ix (c\<lparr>c_buffer := buf\<rparr>) = conc_ix c"
  "conc_ix (c\<lparr>c_default_ttl := e\<rparr>) = conc_ix c"
  "mi_mask st = mi_mask (inner c) \<Longrightarrow> conc_ix (c\<lparr>inner := st\<rparr>) = conc_ix c"
  by (simp_all add: conc_ix_def fun_eq_iff)

lemma conc_ix_less: "inner_shape (inner c) k \<Longrightarrow> conc_ix c h < 2 ^ k"
  by (simp add: conc_ix_def bucket_index_def inner_shape_def take_bit_eq_mask [symmetric]
      unsigned_take_bit_eq Let_def)

lemma conc_tabD:
  assumes "conc_tab wy c k C"
  shows "inner_shape (inner c) k"
    and "table_inv wy (conc_ix c) (mi_buckets (inner c)) (mi_pool (inner c)) C"
    and "unat (c_count c) = card (dom C)"
    and "contents (mi_buckets (inner c)) (mi_pool (inner c)) = C"
    and "conc_lookup wy c = view (\<lambda>k. conc_ix c (wy k)) C (mi_epochs (inner c))"
    and "keyed (\<lambda>k. conc_ix c (wy k)) (mi_buckets (inner c)) C"
    and "length (mi_buckets (inner c)) = 2 ^ k" and "length (mi_buckets (inner c)) < 2 ^ 57"
    and "length (mi_epochs (inner c)) = 4 * 2 ^ k"
    and "conc_ix c h < 2 ^ k"
proof -
  show s: "inner_shape (inner c) k"
    and t: "table_inv wy (conc_ix c) (mi_buckets (inner c)) (mi_pool (inner c)) C"
    and "unat (c_count c) = card (dom C)"
    using assms by (simp_all add: conc_tab_def)
  show C: "contents (mi_buckets (inner c)) (mi_pool (inner c)) = C" by (rule table_inv_contents [OF t])
  show "conc_lookup wy c = view (\<lambda>k. conc_ix c (wy k)) C (mi_epochs (inner c))"
    by (simp add: conc_lookup_def C)
  show "keyed (\<lambda>k. conc_ix c (wy k)) (mi_buckets (inner c)) C" by (rule table_keyed [OF t])
  show l: "length (mi_buckets (inner c)) = 2 ^ k" "length (mi_epochs (inner c)) = 4 * 2 ^ k"
    using s by (simp_all add: inner_shape_def)
  have "k < 57" using s by (simp add: inner_shape_def)
  then show "length (mi_buckets (inner c)) < 2 ^ 57"
    using power_strict_increasing [of k 57 "2::nat"] l(1) by simp
  show "conc_ix c h < 2 ^ k" by (rule conc_ix_less [OF s])
qed

lemma guarded_ok:
  assumes "mi_locks (inner c) = locks_new n" and "idx < n"
    and "body (c\<lparr>inner := (inner c)\<lparr>mi_locks := (locks_new n)[idx := 1]\<rparr>\<rparr>) = Inr (r, c')"
    and "mi_locks (inner c') = (locks_new n)[idx := 1]"
  shows "guarded c idx body = Inr (r, c'\<lparr>inner := (inner c')\<lparr>mi_locks := locks_new n\<rparr>\<rparr>)"
proof -
  have "locks_lock (locks_new n) idx = Inr ((locks_new n)[idx := 1])"
    using assms(2) by (simp add: locks_lock_def locks_new_def index_ok)
  moreover have "(locks_new n)[idx := 0] = locks_new n"
    using assms(2) by (intro nth_equalityI) (auto simp: locks_new_def nth_list_update)
  then have "locks_unlock ((locks_new n)[idx := 1]) idx = Inr (locks_new n)"
    using assms(2) by (simp add: locks_unlock_def locks_new_def index_ok)
  ultimately show ?thesis using assms by (simp add: guarded_def)
qed

lemma conc_tab_locks [simp]:
  "conc_tab wy (c\<lparr>inner := (inner c)\<lparr>mi_locks := l\<rparr>\<rparr>) k C = conc_tab wy c k C"
  by (simp add: conc_tab_def inner_shape_def)

lemma conc_expired_ok:
  assumes "conc_tab wy c k C" and "b < 2 ^ k" and "i < 4"
  shows "conc_is_expired c b i =
     Inr (ttl_expired (c_epoch c) (c_default_ttl c) (mi_epochs (inner c) ! stamp_index (b, i)))"
  using assms conc_tabD(9) [OF assms(1)]
  by (simp add: conc_is_expired_def ttl_expired_def index_ok stamp_index_def Let_def)

lemma conc_search:
  assumes t: "conc_tab wy c k C"
  obtains (found) i v where "i < 4" and "C (conc_ix c (wy key), i) = Some (key, v)"
      and "find_in_bucket (mi_pool (inner c)) (mi_buckets (inner c) ! conc_ix c (wy key)) key (compute_hash wy key) = Inr (Some i)"
  | (missing) "\<And>i v. C (conc_ix c (wy key), i) \<noteq> Some (key, v)"
      and "find_in_bucket (mi_pool (inner c)) (mi_buckets (inner c) ! conc_ix c (wy key)) key (compute_hash wy key) = Inr None"
proof -
  have "conc_ix c (wy key) < length (mi_buckets (inner c))" using conc_tabD(7,10) [OF t] by simp
  from find_in_bucket_ok [OF conc_tabD(2) [OF t] this, of key] show thesis
    using found missing by (auto split: option.splits)
qed

section \<open>Reading and removing\<close>

lemma get_matched_eq: "get_matched s key hr p = matches_key s key hr p"
  by (simp add: get_matched_def matches_key_def get_ext_fp_def get_ext_fp_hi_def Let_def)

lemma get_section_eq:
  "get_section c idx key hr =
     bindR (index (mi_buckets (inner c)) idx) (\<lambda>b.
     bindR (find_in_bucket (mi_pool (inner c)) b key hr) (\<lambda>found.
     case found of
       None \<Rightarrow> Inr (None, c)
     | Some i \<Rightarrow>
         bindR (conc_is_expired c idx i) (\<lambda>expired.
         if expired then Inr (None, c)
         else bindR (buffer_push (c_buffer c) idx i) (\<lambda>(_, buf).
              bindR (index (slots b) i) (\<lambda>s.
              bindR (get_value s (mi_pool (inner c))) (\<lambda>v.
              Inr (Some v, c\<lparr>c_buffer := buf\<rparr>)))))))"
proof -
  have rd: "(if get_mode s = 0 then Inr (inline_value s) else get_value s p) = get_value s p" for s p
    by (simp add: get_value_def)
  show ?thesis unfolding get_section_def find_in_bucket_def get_matched_eq rd ..
qed

lemma conc_slots4: "conc_tab wy c k C \<Longrightarrow> b < 2 ^ k \<Longrightarrow> length (slots (mi_buckets (inner c) ! b)) = 4"
  using reprD(2) [OF inv_repr [OF conc_tabD(2)]] conc_tabD(7) by (auto simp: bucket_shape_def)

lemma get_section_ok:
  fixes key :: bytes
  assumes t: "conc_tab wy c k C" and buf: "buffer_inv (c_buffer c)"
  defines "b \<equiv> conc_ix c (wy key)"
  obtains buf' where "get_section c b key (compute_hash wy key) =
      Inr (live_value (c_epoch c) (c_default_ttl c) (conc_lookup wy c key), c\<lparr>c_buffer := buf'\<rparr>)"
    and "buffer_inv buf'" and "set (pending buf') \<subseteq> set (pending (c_buffer c)) \<union> {b} \<times> {..<4}"
proof -
  have b: "b < 2 ^ k" unfolding b_def by (rule conc_tabD(10) [OF t])
  have bl: "b < length (mi_buckets (inner c))" using b conc_tabD(7) [OF t] by simp
  note ky = conc_tabD(6) [OF t] and l = conc_tabD(5) [OF t]
  show thesis
  proof (cases rule: conc_search [OF t, of key, case_names found missing])
    case (found i v)
    let ?e = "ttl_expired (c_epoch c) (c_default_ttl c) (mi_epochs (inner c) ! stamp_index (b, i))"
    obtain r buf' where p: "buffer_push (c_buffer c) b i = Inr (r, buf')" "buffer_inv buf'"
      "pending buf' = (if valid_event (b, i) \<and> length (pending (c_buffer c)) < length (buffer (c_buffer c))
         then pending (c_buffer c) @ [(b, i)] else pending (c_buffer c))"
      using access.push_law [OF buf, of b i] by blast
    have gs: "get_section c b key (compute_hash wy key) =
        Inr (if ?e then (None, c) else (Some v, c\<lparr>c_buffer := buf'\<rparr>))"
      using found(1,3) [folded b_def] bl conc_expired_ok [OF t b found(1)] conc_slots4 [OF t b] p(1)
        holds_reads(2) [OF reprD(4) [OF inv_repr [OF conc_tabD(2) [OF t]] found(2) [folded b_def]]]
      by (simp add: get_section_eq index_ok slot_at_def)
    have lv: "live_value (c_epoch c) (c_default_ttl c) (conc_lookup wy c key) = (if ?e then None else Some v)"
      using view_hit [OF ky found(2)] by (simp add: l live_value_def b_def)
    show thesis
    proof (cases ?e)
      case True
      show thesis by (rule that [of "c_buffer c"]) (simp_all add: gs lv True buf)
    next
      case False
      show thesis by (rule that [of buf']) (use p(3) found(1) in \<open>simp_all add: gs lv False p(2)\<close>)
    qed
  next
    case missing
    then have "get_section c b key (compute_hash wy key) = Inr (None, c\<lparr>c_buffer := c_buffer c\<rparr>)"
      using bl by (simp add: get_section_eq index_ok b_def)
    moreover have "live_value (c_epoch c) (c_default_ttl c) (conc_lookup wy c key) = None"
      using view_miss [OF ky missing(1)] by (simp add: l live_value_def)
    ultimately show thesis using that [of "c_buffer c"] buf by simp
  qed
qed

lemma peek_section_ok:
  assumes t: "conc_tab wy c k C"
  shows "peek_section c (conc_ix c (wy key)) key (compute_hash wy key) =
      Inr (live_value (c_epoch c) (c_default_ttl c) (conc_lookup wy c key), c)"
proof -
  let ?b = "conc_ix c (wy key)"
  have b: "?b < 2 ^ k" by (rule conc_tabD(10) [OF t])
  have bl: "?b < length (mi_buckets (inner c))" using b conc_tabD(7) [OF t] by simp
  note ky = conc_tabD(6) [OF t] and l = conc_tabD(5) [OF t]
  show ?thesis
  proof (cases rule: conc_search [OF t, of key, case_names found missing])
    case (found i v)
    then show ?thesis
      using bl conc_expired_ok [OF t b found(1)] conc_slots4 [OF t b] view_hit [OF ky found(2)]
        holds_reads [OF reprD(4) [OF inv_repr [OF conc_tabD(2) [OF t]] found(2)]]
      by (simp add: peek_section_def index_ok slot_at_def l live_value_def)
  next
    case missing
    then show ?thesis using bl view_miss [OF ky missing(1)]
      by (simp add: peek_section_def index_ok l live_value_def)
  qed
qed

lemma remove_section_ok:
  fixes key :: bytes
  assumes t: "conc_tab wy c k C"
  defines "b \<equiv> conc_ix c (wy key)"
  obtains c' C' where "remove_section c b key (compute_hash wy key) = Inr (conc_lookup wy c key \<noteq> None, c')"
    and "conc_tab wy c' k C'" and "conc_lookup wy c' = (conc_lookup wy c)(key := None)"
    and "mi_locks (inner c') = mi_locks (inner c)" and "c_buffer c' = c_buffer c" and "c_epoch c' = c_epoch c"
    and "c_eviction_count c' = c_eviction_count c" and "same_config c c'"
proof -
  have b: "b < 2 ^ k" unfolding b_def by (rule conc_tabD(10) [OF t])
  have bl: "b < length (mi_buckets (inner c))" using b conc_tabD(7) [OF t] by simp
  note ky = conc_tabD(6) [OF t] and l = conc_tabD(5) [OF t] and inv = conc_tabD(2) [OF t]
  show thesis
  proof (cases rule: conc_search [OF t, of key, case_names found missing])
    case (found i v)
    let ?bk = "mi_buckets (inner c) ! b"
    obtain p where p: "free_slot (mi_pool (inner c)) (slots ?bk ! i) = Inr p"
      "table_inv wy (conc_ix c) (put_slot (mi_buckets (inner c)) (b, i) (slot_clear (slots ?bk ! i))
         (set_state (meta ?bk) i Tombstone)) p (C((b, i) := None))"
      using table_clear [OF inv found(2) conc_tabD(8) [OF t]] unfolding b_def by blast
    let ?c = "c\<lparr>inner := (inner c)\<lparr>mi_buckets := put_slot (mi_buckets (inner c)) (b, i) (slot_clear (slots ?bk ! i))
         (set_state (meta ?bk) i Tombstone), mi_pool := p\<rparr>, c_count := c_count c - 1\<rparr>"
    have rm: "remove_section c b key (compute_hash wy key) = Inr (True, ?c)"
      using found p(1) bl conc_slots4 [OF t b]
      by (simp add: remove_section_def index_ok put_slot_pair write_bucket_def b_def Let_def)
    have "(b, i) \<in> dom C" using found(2) by (auto simp: b_def)
    then have "card (dom (C((b, i) := None))) = card (dom C) - 1" "card (dom C) \<noteq> 0"
      using reprD(10) [OF inv_repr [OF inv]] by auto
    then have cnt: "unat (c_count ?c) = card (dom (C((b, i) := None)))"
      using conc_tabD(3) [OF t] unat_minus_one [of "c_count c"] by (cases "c_count c = 0") auto
    have t': "conc_tab wy ?c k (C((b, i) := None))"
      using conc_tabD(1) [OF t] p(2) cnt by (simp add: conc_tab_def inner_shape_def)
    have "conc_lookup wy ?c = (conc_lookup wy c)(key := None)"
      using view_drop [OF ky, of "(b, i)" "mi_epochs (inner c)"] found(2)
      unfolding conc_tabD(5) [OF t'] l by (simp add: without_def b_def)
    then show thesis
      using that [of ?c "C((b, i) := None)"] rm t' view_hit [OF ky found(2)] by (simp add: l same_config_def)
  next
    case missing
    then have "remove_section c b key (compute_hash wy key) = Inr (False, c)"
      using bl by (simp add: remove_section_def index_ok b_def)
    moreover have "conc_lookup wy c key = None" using view_miss [OF ky missing(1)] by (simp add: l)
    ultimately show thesis using that [of c C] t by (simp add: fun_upd_idem same_config_def)
  qed
qed

section \<open>Inserting\<close>

text \<open>The slot an insertion writes: the key's own, else a free one, else one of minimal priority.\<close>

definition conc_slot :: "concurrent_map \<Rightarrow> ghost \<Rightarrow> bytes \<Rightarrow> nat \<Rightarrow> nat \<Rightarrow> bool" where
  "conc_slot c C key b i \<longleftrightarrow> slot_for C key b i
     \<and> (has_key C key (b, i) \<or> C (b, i) = None
        \<or> (\<forall>j<4. C (b, j) \<noteq> None
             \<and> get_priority (meta (mi_buckets (inner c) ! b)) i \<le> get_priority (meta (mi_buckets (inner c) ! b)) j))"

definition conc_written ::
  "concurrent_map \<Rightarrow> ghost \<Rightarrow> bytes \<Rightarrow> nat \<Rightarrow> nat \<Rightarrow> u64 \<Rightarrow> bucket list \<Rightarrow> slab_pool \<Rightarrow> concurrent_map" where
  "conc_written c C key b i ttl bs p =
     c\<lparr>inner := (inner c)\<lparr>mi_buckets := bs, mi_pool := p,
         mi_epochs := (mi_epochs (inner c))[stamp_index (b, i) := \<lparr>st_epoch = c_epoch c, st_ttl = ttl\<rparr>]\<rparr>,
       c_count := (if C (b, i) = None then c_count c + 1 else c_count c),
       c_eviction_count :=
         (if C (b, i) = None \<or> has_key C key (b, i) then c_eviction_count c else c_eviction_count c + 1)\<rparr>"

lemma conc_target_ok:
  assumes s4: "length (slots b) = 4"
  obtains i where "i < 4"
    and "\<And>p. (if get_state (meta b) i = Full then free_slot (mi_pool (inner c)) (slots b ! i)
           else Inr (mi_pool (inner c))) = Inr p \<Longrightarrow>
         conc_target c b =
           (if get_state (meta b) i = Full
            then Inr (c\<lparr>inner := (inner c)\<lparr>mi_pool := p\<rparr>, c_eviction_count := c_eviction_count c + 1\<rparr>, Some (i, True))
            else Inr (c, Some (i, False)))"
    and "get_state (meta b) i \<noteq> Full
         \<or> (\<forall>j<4. get_state (meta b) j = Full \<and> get_priority (meta b) i \<le> get_priority (meta b) j)"
proof (cases "find_free_slot (meta b)")
  case (Some i)
  then have "i < 4" "get_state (meta b) i \<noteq> Full" by (simp_all add: find_free_slot_eq find_upt_Some)
  then show thesis using that [of i] Some by (simp add: conc_target_def)
next
  case None
  then have full: "get_state (meta b) j = Full" if "j < 4" for j
    using that by (auto simp: find_free_slot_eq find_upt_None)
  then have "find_evict_target (meta b) \<noteq> None" unfolding find_evict_target_None by force
  then obtain i where e: "find_evict_target (meta b) = Some i" by auto
  note i = find_evict_target_Some [OF e]
  show thesis
    by (rule that [OF i(1)]) (use i full None e s4 in \<open>auto simp: conc_target_def index_ok\<close>)
qed

lemma insert_section_found:
  assumes t: "conc_tab wy c k C" and sz: "small_pair key val" and b: "b < 2 ^ k"
    and f: "i < 4" "C (b, i) = Some (key, v)"
      "find_in_bucket (mi_pool (inner c)) (mi_buckets (inner c) ! b) key (compute_hash wy key) = Inr (Some i)"
  obtains bs p where "insert_section c b key val (compute_hash wy key) ttl = Inr ((), conc_written c C key b i ttl bs p)"
    and "table_inv wy (conc_ix c) bs p (C((b, i) \<mapsto> (key, val)))" and "length bs = length (mi_buckets (inner c))"
proof -
  let ?bk = "mi_buckets (inner c) ! b"
  have bl: "b < length (mi_buckets (inner c))" using b conc_tabD(7) [OF t] by simp
  obtain p1 s p' where u: "free_slot (mi_pool (inner c)) (slots ?bk ! i) = Inr p1"
    "store_entry p1 key val (compute_hash wy key) = Inr (s, p')"
    "table_inv wy (conc_ix c) (put_slot (mi_buckets (inner c)) (b, i) s (on_access (meta ?bk) i)) p'
       (C((b, i) \<mapsto> (key, val)))"
    using table_update [OF conc_tabD(2) [OF t] f(2) sz [unfolded small_pair_def] conc_tabD(8) [OF t]] by blast
  have "insert_section c b key val (compute_hash wy key) ttl = Inr ((), conc_written c C key b i ttl
      (put_slot (mi_buckets (inner c)) (b, i) s (on_access (meta ?bk) i)) p')"
    using u(1,2) f conc_slots4 [OF t b] bl b conc_tabD(9) [OF t]
    by (simp add: insert_section_def conc_update_def index_ok put_slot_pair write_bucket_def stamp_epoch_def
        stamp_index_def conc_written_def has_key_def Let_def)
  then show thesis using that u(3) put_slot_length by blast
qed

lemma insert_section_missing:
  assumes t: "conc_tab wy c k C" and sz: "small_pair key val" and b: "b < 2 ^ k" "conc_ix c (wy key) = b"
    and new: "\<And>i v. C (b, i) \<noteq> Some (key, v)"
    and f: "find_in_bucket (mi_pool (inner c)) (mi_buckets (inner c) ! b) key (compute_hash wy key) = Inr None"
  obtains i bs p where "conc_slot c C key b i"
    and "insert_section c b key val (compute_hash wy key) ttl = Inr ((), conc_written c C key b i ttl bs p)"
    and "table_inv wy (conc_ix c) bs p (C((b, i) \<mapsto> (key, val)))" and "length bs = length (mi_buckets (inner c))"
proof -
  let ?bk = "mi_buckets (inner c) ! b" and ?hr = "compute_hash wy key"
  note inv = conc_tabD(2) [OF t] and s4 = conc_slots4 [OF t b(1)]
  have bl: "b < length (mi_buckets (inner c))" using b conc_tabD(7) [OF t] by simp
  note full = bucket_full_iff [OF inv bl]
  obtain i where i: "i < 4"
    and ch: "\<And>p. (if get_state (meta ?bk) i = Full then free_slot (mi_pool (inner c)) (slots ?bk ! i)
         else Inr (mi_pool (inner c))) = Inr p \<Longrightarrow>
       conc_target c ?bk =
         (if get_state (meta ?bk) i = Full
          then Inr (c\<lparr>inner := (inner c)\<lparr>mi_pool := p\<rparr>, c_eviction_count := c_eviction_count c + 1\<rparr>, Some (i, True))
          else Inr (c, Some (i, False)))"
    and tg: "get_state (meta ?bk) i \<noteq> Full
       \<or> (\<forall>j<4. get_state (meta ?bk) j = Full \<and> get_priority (meta ?bk) i \<le> get_priority (meta ?bk) j)"
    using conc_target_ok [OF s4, of c] by blast
  have slot: "conc_slot c C key b i"
    using tg i full new by (auto simp: conc_slot_def slot_for_def has_key_iff)
  have pos: "(b, i) \<in> cells (mi_buckets (inner c))" using bl i by (simp add: in_cells)
  let ?v = "on_insert (set_h2 (set_state (meta ?bk) i Full) i (h2 ?hr)) i"
  obtain p1 s p' where u:
    "(if get_state (meta ?bk) i = Full then free_slot (mi_pool (inner c)) (slots ?bk ! i)
      else Inr (mi_pool (inner c))) = Inr p1"
    "store_entry p1 key val ?hr = Inr (s, p')"
    "table_inv wy (conc_ix c) (put_slot (mi_buckets (inner c)) (b, i) s ?v) p' (C((b, i) \<mapsto> (key, val)))"
    using table_place [OF inv pos b(2) new sz [unfolded small_pair_def] conc_tabD(8) [OF t]] by blast
  have fill: "conc_fill c1 b ?bk i ev key val ?hr ttl =
      Inr (c1\<lparr>inner := (inner c1)\<lparr>mi_buckets := put_slot (mi_buckets (inner c)) (b, i) s ?v, mi_pool := p',
        mi_epochs := (mi_epochs (inner c))[stamp_index (b, i) := \<lparr>st_epoch = c_epoch c1, st_ttl = ttl\<rparr>]\<rparr>,
        c_count := if ev then c_count c1 else c_count c1 + 1\<rparr>)"
    if "mi_buckets (inner c1) = mi_buckets (inner c)" "mi_pool (inner c1) = p1"
      "mi_epochs (inner c1) = mi_epochs (inner c)" for c1 ev
    using that u(2) b s4 i conc_tabD(9) [OF t] by (simp add: conc_fill_def index_ok put_slot_pair stamp_epoch_def
        write_bucket_def stamp_index_def Let_def)
  have "insert_section c b key val ?hr ttl =
      Inr ((), conc_written c C key b i ttl (put_slot (mi_buckets (inner c)) (b, i) s ?v) p')"
    using ch [OF u(1)] u(1) full [OF i] f new fill bl
    by (auto simp: insert_section_def index_ok conc_written_def has_key_iff split: if_splits)
  then show thesis using that slot u(3) put_slot_length by blast
qed

lemma insert_section_pos:
  assumes t: "conc_tab wy c k C" and sz: "small_pair key val"
  defines "b \<equiv> conc_ix c (wy key)"
  obtains i bs p where "conc_slot c C key b i"
    and "insert_section c b key val (compute_hash wy key) ttl = Inr ((), conc_written c C key b i ttl bs p)"
    and "table_inv wy (conc_ix c) bs p (C((b, i) \<mapsto> (key, val)))"
    and "length bs = length (mi_buckets (inner c))"
proof -
  have b: "b < 2 ^ k" unfolding b_def by (rule conc_tabD(10) [OF t])
  show thesis
  proof (cases rule: conc_search [OF t, of key, case_names found missing])
    case (found i v)
    note f = found [folded b_def]
    have "conc_slot c C key b i" using f(1,2) by (auto simp: conc_slot_def slot_for_def has_key_iff)
    then show thesis using insert_section_found [OF t sz b f, of ttl] that by blast
  next
    case missing
    note m = missing [folded b_def]
    show thesis
      by (rule insert_section_missing [OF t sz b b_def [symmetric, THEN meta_eq_to_obj_eq] m, of ttl]) (rule that)
  qed
qed

lemma written_fields [simp]:
  "c_epoch (conc_written c C key b i ttl bs p) = c_epoch c"
  "c_buffer (conc_written c C key b i ttl bs p) = c_buffer c"
  "same_config c (conc_written c C key b i ttl bs p)"
  "mi_locks (inner (conc_written c C key b i ttl bs p)) = mi_locks (inner c)"
  "conc_ix (conc_written c C key b i ttl bs p) = conc_ix c"
  by (simp_all add: conc_written_def same_config_def)

lemma insert_section_ok:
  assumes t: "conc_tab wy c k C" and sz: "small_pair key val"
  obtains c' C' victim where
    "insert_section c (conc_ix c (wy key)) key val (compute_hash wy key) ttl = Inr ((), c')"
    and "conc_tab wy c' k C'" and "mi_locks (inner c') = mi_locks (inner c)" and "c_buffer c' = c_buffer c"
    and "c_epoch c' = c_epoch c" and "same_config c c'"
    and "conc_lookup wy c' =
      stored_after (conc_lookup wy c) victim key (val, \<lparr>st_epoch = c_epoch c, st_ttl = ttl\<rparr>)"
    and "case victim of
          None \<Rightarrow> c_eviction_count c' = c_eviction_count c
        | Some x \<Rightarrow> x \<noteq> key \<and> conc_lookup wy c key = None \<and> conc_lookup wy c x \<noteq> None
                    \<and> c_eviction_count c' = c_eviction_count c + 1"
proof -
  let ?bx = "\<lambda>k. conc_ix c (wy k)" let ?b = "conc_ix c (wy key)"
  note ky = conc_tabD(6) [OF t] and l = conc_tabD(5) [OF t] and inv = conc_tabD(2) [OF t]
  obtain i bs p where i: "conc_slot c C key ?b i"
    "insert_section c ?b key val (compute_hash wy key) ttl = Inr ((), conc_written c C key ?b i ttl bs p)"
    "table_inv wy (conc_ix c) bs p (C((?b, i) \<mapsto> (key, val)))" "length bs = length (mi_buckets (inner c))"
    using insert_section_pos [OF t sz, of ttl] by blast
  let ?c = "conc_written c C key ?b i ttl bs p"
  have sf: "slot_for C key (?bx key) i" using i(1) by (simp add: conc_slot_def)
  then have i4: "i < 4" by (simp add: slot_for_def)
  have pos: "(?b, i) \<in> cells (mi_buckets (inner c))"
    using conc_tabD(10) [OF t, of "wy key"] conc_tabD(7) [OF t] i4 by (simp add: in_cells)
  have fin: "finite (dom C)" by (rule reprD(10) [OF inv_repr [OF inv]])
  have "unat (c_count c) + 1 < 2 ^ 64"
    using card_cells_le [OF ky] conc_tabD(8) [OF t] conc_tabD(3) [OF t] by simp
  then have cnt: "unat (c_count ?c) = card (dom (C((?b, i) \<mapsto> (key, val))))"
    using conc_tabD(3) [OF t] unfolding card_dom_update [OF fin] by (simp add: conc_written_def unat_Suc)
  have t': "conc_tab wy ?c k (C((?b, i) \<mapsto> (key, val)))"
    unfolding conc_tab_def using i(3,4) cnt conc_tabD(1) [OF t]
    by (simp add: inner_shape_def) (simp add: conc_written_def)
  let ?x = "if has_key C key (?bx key, i) then None else map_option fst (C (?bx key, i))"
  note v = without_victim(1,2) [OF ky sf, where T = "mi_epochs (inner c)"] without_victim(3) [OF ky sf]
  have new: "\<And>q v. q \<noteq> (?bx key, i) \<Longrightarrow> C q \<noteq> Some (key, v)" by (rule slot_for_new [OF ky sf])
  have "conc_lookup wy ?c = stored_after (conc_lookup wy c) ?x key (val, \<lparr>st_epoch = c_epoch c, st_ttl = ttl\<rparr>)"
    unfolding conc_tabD(5) [OF t'] l v(1) [symmetric]
    using view_store [OF ky pos, of key "mi_epochs (inner c)" val "\<lparr>st_epoch = c_epoch c, st_ttl = ttl\<rparr>"] new
      conc_tabD(7,9) [OF t]
    by (simp add: conc_written_def)
  moreover have "c_eviction_count ?c = (if ?x = None then c_eviction_count c else c_eviction_count c + 1)"
    unfolding v(3) by (simp add: conc_written_def)
  ultimately show thesis
    using that [OF i(2) t', of ?x] v(2) by (auto simp: l split: option.split)
qed

section \<open>Operations\<close>

lemma conc_invE:
  assumes "conc_inv wy c"
  obtains k C where "conc_tab wy c k C" and "mi_locks (inner c) = locks_new (2 ^ k)"
    and "buffer_inv (c_buffer c)" and "\<forall>(b, i)\<in>set (pending (c_buffer c)). b < 2 ^ k \<and> i < 4"
  using assms unfolding conc_inv_def by blast

lemma conc_invI:
  "conc_tab wy c k C \<Longrightarrow> mi_locks (inner c) = locks_new (2 ^ k) \<Longrightarrow> buffer_inv (c_buffer c) \<Longrightarrow>
   (\<forall>(b, i)\<in>set (pending (c_buffer c)). b < 2 ^ k \<and> i < 4) \<Longrightarrow> conc_inv wy c"
  unfolding conc_inv_def by blast

lemma conc_lookup_locks [simp]: "conc_lookup wy (c\<lparr>inner := (inner c)\<lparr>mi_locks := l\<rparr>\<rparr>) = conc_lookup wy c"
  by (simp add: conc_lookup_def)

lemma conc_lookup_buffer [simp]: "conc_lookup wy (c\<lparr>c_buffer := buf\<rparr>) = conc_lookup wy c"
  by (simp add: conc_lookup_def)

lemma conc_tab_buffer [simp]: "conc_tab wy (c\<lparr>c_buffer := buf\<rparr>) k C = conc_tab wy c k C"
  by (simp add: conc_tab_def)

lemma conc_tab_epoch [simp]: "conc_tab wy (c\<lparr>c_epoch := e\<rparr>) k C = conc_tab wy c k C"
  by (simp add: conc_tab_def)

lemma conc_lookup_epoch [simp]: "conc_lookup wy (c\<lparr>c_epoch := e\<rparr>) = conc_lookup wy c"
  by (simp add: conc_lookup_def)

abbreviation locked :: "concurrent_map \<Rightarrow> nat \<Rightarrow> nat \<Rightarrow> concurrent_map" where
  "locked c k b \<equiv> c\<lparr>inner := (inner c)\<lparr>mi_locks := (locks_new (2 ^ k))[b := 1]\<rparr>\<rparr>"

abbreviation unlocked :: "concurrent_map \<Rightarrow> nat \<Rightarrow> concurrent_map" where
  "unlocked c k \<equiv> c\<lparr>inner := (inner c)\<lparr>mi_locks := locks_new (2 ^ k)\<rparr>\<rparr>"

lemma h1_ix: "bucket_index (sharded_index c) (h1 (compute_hash wy key)) (mi_mask (inner c)) = conc_ix c (wy key)"
  by (simp add: conc_ix_def h1_compute_hash)

lemma conc_get_law:
  assumes "conc_inv wy c"
  shows "\<exists>c'. conc_get_bytes wy c key = Inr (live_value (c_epoch c) (c_default_ttl c) (conc_lookup wy c key), c')
     \<and> conc_inv wy c' \<and> conc_lookup wy c' = conc_lookup wy c \<and> c_epoch c' = c_epoch c
     \<and> c_eviction_count c' = c_eviction_count c \<and> same_config c c' \<and> conc_num_buckets c' = conc_num_buckets c"
proof -
  from assms obtain k C where c: "conc_tab wy c k C" "mi_locks (inner c) = locks_new (2 ^ k)"
    "buffer_inv (c_buffer c)" "\<forall>(b, i)\<in>set (pending (c_buffer c)). b < 2 ^ k \<and> i < 4"
    by (rule conc_invE)
  let ?b = "conc_ix c (wy key)"
  have b: "?b < 2 ^ k" by (rule conc_tabD(10) [OF c(1)])
  obtain buf where g: "get_section (locked c k ?b) ?b key (compute_hash wy key) =
      Inr (live_value (c_epoch c) (c_default_ttl c) (conc_lookup wy c key), (locked c k ?b)\<lparr>c_buffer := buf\<rparr>)"
    "buffer_inv buf" "set (pending buf) \<subseteq> set (pending (c_buffer c)) \<union> {?b} \<times> {..<4}"
    using get_section_ok [of wy "locked c k ?b" k C key] c by auto
  let ?c = "unlocked ((locked c k ?b)\<lparr>c_buffer := buf\<rparr>) k"
  have "conc_get_bytes wy c key = Inr (live_value (c_epoch c) (c_default_ttl c) (conc_lookup wy c key), ?c)"
    unfolding conc_get_bytes_def Let_def h1_ix
    by (rule guarded_ok [OF c(2) b]) (use g(1) in simp_all)
  moreover have "conc_tab wy ?c k C" using c(1) by (simp add: conc_tab_def inner_shape_def)
  then have "conc_inv wy ?c" by (rule conc_invI) (use c g(2,3) b in auto)
  moreover have "conc_lookup wy ?c = conc_lookup wy c" by (simp add: conc_lookup_def)
  ultimately show ?thesis by (simp add: same_config_def conc_num_buckets_def)
qed

lemma conc_peek_law:
  assumes "conc_inv wy c"
  shows "conc_peek_bytes wy c key = Inr (live_value (c_epoch c) (c_default_ttl c) (conc_lookup wy c key), c)"
proof -
  from assms obtain k C where c: "conc_tab wy c k C" "mi_locks (inner c) = locks_new (2 ^ k)" by (rule conc_invE)
  let ?b = "conc_ix c (wy key)"
  have b: "?b < 2 ^ k" by (rule conc_tabD(10) [OF c(1)])
  have "peek_section (locked c k ?b) ?b key (compute_hash wy key) =
      Inr (live_value (c_epoch c) (c_default_ttl c) (conc_lookup wy c key), locked c k ?b)"
    using peek_section_ok [of wy "locked c k ?b" k C key] c(1) by simp
  then have "conc_peek_bytes wy c key =
      Inr (live_value (c_epoch c) (c_default_ttl c) (conc_lookup wy c key), unlocked (locked c k ?b) k)"
    unfolding conc_peek_bytes_def Let_def h1_ix by (rule guarded_ok [OF c(2) b]) simp
  then show ?thesis using c(2) by simp
qed

lemma conc_remove_law:
  assumes "conc_inv wy c"
  shows "\<exists>c'. conc_remove_bytes wy c key = Inr (conc_lookup wy c key \<noteq> None, c') \<and> conc_inv wy c'
     \<and> conc_lookup wy c' = (conc_lookup wy c)(key := None) \<and> c_epoch c' = c_epoch c
     \<and> c_eviction_count c' = c_eviction_count c \<and> same_config c c' \<and> conc_num_buckets c' = conc_num_buckets c"
proof -
  from assms obtain k C where c: "conc_tab wy c k C" "mi_locks (inner c) = locks_new (2 ^ k)"
    "buffer_inv (c_buffer c)" "\<forall>(b, i)\<in>set (pending (c_buffer c)). b < 2 ^ k \<and> i < 4"
    by (rule conc_invE)
  let ?b = "conc_ix c (wy key)" let ?l = "locked c k (conc_ix c (wy key))"
  have b: "?b < 2 ^ k" by (rule conc_tabD(10) [OF c(1)])
  obtain c1 C1 where r: "remove_section ?l ?b key (compute_hash wy key) = Inr (conc_lookup wy c key \<noteq> None, c1)"
    "conc_tab wy c1 k C1" "conc_lookup wy c1 = (conc_lookup wy c)(key := None)"
    "mi_locks (inner c1) = (locks_new (2 ^ k))[?b := 1]" "c_buffer c1 = c_buffer c" "c_epoch c1 = c_epoch c"
    "c_eviction_count c1 = c_eviction_count c" "same_config c c1"
    by (rule remove_section_ok [of wy ?l k C key]) (use c(1) in \<open>auto simp: same_config_def\<close>)
  have "conc_remove_bytes wy c key = Inr (conc_lookup wy c key \<noteq> None, unlocked c1 k)"
    unfolding conc_remove_bytes_def Let_def h1_ix by (rule guarded_ok [OF c(2) b _ r(4)]) (rule r(1))
  moreover have "conc_inv wy (unlocked c1 k)"
    by (rule conc_invI [of wy _ k C1]) (use c r in auto)
  moreover have "conc_num_buckets c1 = conc_num_buckets c"
    using conc_tabD(1) [OF r(2)] conc_tabD(1) [OF c(1)] by (simp add: inner_shape_def conc_num_buckets_def)
  ultimately show ?thesis using r by (simp add: same_config_def conc_num_buckets_def)
qed

lemma touch_event_ok:
  assumes t: "conc_tab wy c k C" and l: "mi_locks (inner c) = locks_new (2 ^ k)" and b: "b < 2 ^ k" and i: "i < 4"
  obtains st where "touch_event b i (inner c) = Inr st" and "conc_tab wy (c\<lparr>inner := st\<rparr>) k C"
    and "mi_locks st = locks_new (2 ^ k)" and "mi_epochs st = mi_epochs (inner c)" and "mi_mask st = mi_mask (inner c)"
proof -
  let ?bs = "(mi_buckets (inner c))[b := (mi_buckets (inner c) ! b)\<lparr>meta := on_access (meta (mi_buckets (inner c) ! b)) i\<rparr>]"
  let ?st = "(inner c)\<lparr>mi_buckets := ?bs, mi_locks := locks_new (2 ^ k)\<rparr>"
  have bl: "b < length (mi_buckets (inner c))" using b conc_tabD(7) [OF t] by simp
  have "locks_lock (locks_new (2 ^ k)) b = Inr ((locks_new (2 ^ k))[b := 1])"
    using b by (simp add: locks_lock_def locks_new_def index_ok)
  moreover have "(locks_new (2 ^ k))[b := 0] = locks_new (2 ^ k)"
    using b by (intro nth_equalityI) (auto simp: locks_new_def nth_list_update)
  then have "locks_unlock ((locks_new (2 ^ k))[b := 1]) b = Inr (locks_new (2 ^ k))"
    using b by (simp add: locks_unlock_def locks_new_def index_ok)
  ultimately have "touch_event b i (inner c) = Inr ?st" using l bl by (simp add: touch_event_def index_ok Let_def)
  moreover have "conc_tab wy (c\<lparr>inner := ?st\<rparr>) k C"
    using t table_touch [OF conc_tabD(2) [OF t] bl i] by (simp add: conc_tab_def inner_shape_def)
  ultimately show thesis using that by simp
qed

lemma touch_events_ok:
  assumes "conc_tab wy c k C" and "mi_locks (inner c) = locks_new (2 ^ k)"
    and "\<forall>(b, i)\<in>set es. b < 2 ^ k \<and> i < 4"
  shows "\<exists>st. apply_events touch_event es (inner c) = Inr st \<and> conc_tab wy (c\<lparr>inner := st\<rparr>) k C
    \<and> mi_locks st = locks_new (2 ^ k) \<and> mi_epochs st = mi_epochs (inner c) \<and> mi_mask st = mi_mask (inner c)"
  using assms
proof (induction es arbitrary: c)
  case Nil
  then show ?case by simp
next
  case (Cons e es)
  obtain b i where e: "e = (b, i)" "b < 2 ^ k" "i < 4" using Cons.prems(3) by (cases e) auto
  obtain st where st: "touch_event b i (inner c) = Inr st" "conc_tab wy (c\<lparr>inner := st\<rparr>) k C"
    "mi_locks st = locks_new (2 ^ k)" "mi_epochs st = mi_epochs (inner c)" "mi_mask st = mi_mask (inner c)"
    using touch_event_ok [OF Cons.prems(1,2) e(2,3)] by blast
  from Cons.IH [OF st(2)] st(3-5) Cons.prems(3) show ?case by (auto simp: e(1) st(1))
qed

lemma insert_no_resize_law:
  assumes inv: "conc_inv wy c" and sz: "small_pair key val"
  shows "\<exists>c' victim. insert_no_resize wy c key val ttl = Inr c'
     \<and> conc_inv wy c' \<and> c_epoch c' = c_epoch c + 1
     \<and> conc_lookup wy c' =
         stored_after (conc_lookup wy c) victim key (val, \<lparr>st_epoch = c_epoch c + 1, st_ttl = ttl\<rparr>)
     \<and> (case victim of
          None \<Rightarrow> c_eviction_count c' = c_eviction_count c
        | Some x \<Rightarrow> x \<noteq> key \<and> conc_lookup wy c key = None \<and> conc_lookup wy c x \<noteq> None
                    \<and> c_eviction_count c' = c_eviction_count c + 1)
     \<and> same_config c c' \<and> conc_num_buckets c' = conc_num_buckets c"
proof -
  from inv obtain k C where c: "conc_tab wy c k C" "mi_locks (inner c) = locks_new (2 ^ k)"
    "buffer_inv (c_buffer c)" "\<forall>(b, i)\<in>set (pending (c_buffer c)). b < 2 ^ k \<and> i < 4"
    by (rule conc_invE)
  let ?c0 = "c\<lparr>c_epoch := c_epoch c + 1\<rparr>" and ?es = "take DRAIN_BATCH (pending (c_buffer c))"
  have es: "\<forall>(b, i)\<in>set ?es. b < 2 ^ k \<and> i < 4" using c(4) by (auto dest: in_set_takeD)
  obtain st where st: "apply_events touch_event ?es (inner c) = Inr st" "conc_tab wy (?c0\<lparr>inner := st\<rparr>) k C"
    "mi_locks st = locks_new (2 ^ k)" "mi_epochs st = mi_epochs (inner c)" "mi_mask st = mi_mask (inner c)"
    using touch_events_ok [of wy ?c0 k C ?es] c es by auto
  obtain buf where buf: "buffer_drain (c_buffer c) DRAIN_BATCH touch_event (inner c) = Inr (buf, st)" "buffer_inv buf"
    "pending buf = drop DRAIN_BATCH (pending (c_buffer c))"
    using buffer_drain_ok [OF c(3) st(1)] by blast
  let ?c1 = "?c0\<lparr>inner := st, c_buffer := buf\<rparr>" and ?b = "conc_ix c (wy key)"
  have t1: "conc_tab wy ?c1 k C" using st(2) by simp
  have ix: "conc_ix ?c1 = conc_ix c" using st(5) by simp
  have l1: "conc_lookup wy ?c1 = conc_lookup wy c"
    using conc_tabD(5) [OF t1] conc_tabD(5) [OF c(1)] st(4) by (simp only: ix) simp
  have b: "?b < 2 ^ k" by (rule conc_tabD(10) [OF c(1)])
  have tl: "conc_tab wy (locked ?c1 k ?b) k C" using t1 by (simp only: conc_tab_locks)
  have ixl: "conc_ix (locked ?c1 k ?b) = conc_ix c" using st(5) by simp
  have ll: "conc_lookup wy (locked ?c1 k ?b) = conc_lookup wy c" unfolding conc_lookup_locks by (rule l1)
  have fld: "mi_locks (inner (locked ?c1 k ?b)) = (locks_new (2 ^ k))[?b := 1]" "c_buffer (locked ?c1 k ?b) = buf"
    "c_epoch (locked ?c1 k ?b) = c_epoch c + 1" "c_eviction_count (locked ?c1 k ?b) = c_eviction_count c"
    "same_config (locked ?c1 k ?b) = same_config c"
    by (simp_all add: same_config_def fun_eq_iff)
  obtain c2 C2 victim where s: "insert_section (locked ?c1 k ?b) ?b key val (compute_hash wy key) ttl = Inr ((), c2)"
    "conc_tab wy c2 k C2" "mi_locks (inner c2) = (locks_new (2 ^ k))[?b := 1]" "c_buffer c2 = buf"
    "c_epoch c2 = c_epoch c + 1" "same_config c c2"
    "conc_lookup wy c2 =
      stored_after (conc_lookup wy c) victim key (val, \<lparr>st_epoch = c_epoch c + 1, st_ttl = ttl\<rparr>)"
    "case victim of
          None \<Rightarrow> c_eviction_count c2 = c_eviction_count c
        | Some x \<Rightarrow> x \<noteq> key \<and> conc_lookup wy c key = None \<and> conc_lookup wy c x \<noteq> None
                    \<and> c_eviction_count c2 = c_eviction_count c + 1"
    using insert_section_ok [OF tl sz, of ttl thesis, unfolded ixl ll fld] by blast
  have lk: "mi_locks (inner ?c1) = locks_new (2 ^ k)" using st(3) by simp
  have "guarded ?c1 ?b (\<lambda>c. insert_section c ?b key val (compute_hash wy key) ttl) = Inr ((), unlocked c2 k)"
    by (rule guarded_ok [OF lk b _ s(3)]) (rule s(1))
  moreover have "conc_inv wy (unlocked c2 k)"
    by (rule conc_invI [of wy _ k C2]) (use s(2,4) buf(2,3) c(4) in \<open>auto dest: in_set_dropD\<close>)
  ultimately show ?thesis
    using buf(1) s(5-8) h1_ix [of ?c0 wy key] conc_tabD(1) [OF s(2)] conc_tabD(1) [OF c(1)]
    by (intro exI [of _ "unlocked c2 k"] exI [of _ victim])
      (simp add: insert_no_resize_def Let_def conc_num_buckets_def inner_shape_def same_config_def cong: option.case_cong)
qed

section \<open>Construction\<close>

lemma conc_start:
  assumes "n \<le> 2 ^ 56"
  obtains c k where "with_config n auto sh = Inr c" and "conc_inv wy c" and "conc_lookup wy c = Map.empty"
    and "c_epoch c = 0" and "c_default_ttl c = 0" and "c_eviction_count c = 0" and "c_count c = 0"
    and "auto_resize c = auto" and "sharded_index c = sh" and "resize_threshold c = 3 / 4"
    and "conc_num_buckets c = 2 ^ k" and "max n 1 \<le> 2 ^ k" and "2 ^ k < 2 * max n 1"
proof -
  have n: "max n 1 \<le> 2 ^ 56" "max n 1 \<le> 2 ^ 63" "0 < max n 1" using assms by auto
  obtain k where k: "next_power_of_two (max n 1) = 2 ^ k" "k \<le> 56"
    using next_power_of_two_le [OF n(1)] by auto
  have "(2::nat) ^ k \<le> 2 ^ 56" using k(2) by (rule power_increasing) simp
  then have fits: "\<not> isize_max < 2 ^ k * 64" by (simp add: isize_max_def)
  have "(4096::nat) \<le> 2 ^ 58" by simp
  then obtain buf where buf: "buffer_new 4096 = Inr buf" "ring buf 0 0" "pending buf = []" by (rule buffer_new_ok)
  define c where "c = \<lparr>inner = inner_of (2 ^ k), c_count = 0, c_eviction_count = 0, auto_resize = auto,
      resize_threshold = 3 / 4, sharded_index = sh, c_epoch = 0, c_default_ttl = 0, c_buffer = buf\<rparr>"
  have new: "with_config n auto sh = Inr c"
    using fits buf(1) unfolding with_config_def inner_new_def k(1) Let_def by (simp add: c_def)
  have t: "conc_tab wy c k (\<lambda>_. None)"
    using k(2) table_inv_empty by (simp add: conc_tab_def inner_shape_def c_def inner_of_def mask_eq_exp_minus_1)
  have "conc_inv wy c"
    by (rule conc_invI [OF t]) (use buf in \<open>auto simp: c_def inner_of_def buffer_inv_def\<close>)
  moreover have "conc_lookup wy c = Map.empty"
    unfolding conc_tabD(5) [OF t] by (rule view_empty)
  moreover have "max n 1 \<le> 2 ^ k" "2 ^ k < 2 * max n 1"
    using next_power_of_two_ge [OF n(2)] next_power_of_two_less_double [OF n(3)] k(1) by simp_all
  ultimately show thesis using that [OF new] by (simp add: c_def inner_of_def conc_num_buckets_def)
qed

end
