(* ===== verification/Locks.thy ===== *)
theory Locks
  imports Sync
begin

text \<open>
  The bucket spinlocks of \<^verbatim>\<open>src/src/sync.rs\<close> under any interleaving. A thread of the concurrent
  map takes bucket locks one after the other, never one inside another: the access events an
  insertion applies each lock their target, then the insertion locks its own bucket. Its program
  is therefore the list of the buckets it will lock; the lock words are those of
  \<^verbatim>\<open>BucketLocks\<close>, and lock and unlock are its operations.
\<close>

section \<open>Threads\<close>

datatype lock_pc = Outside "nat list" | Waiting nat "nat list" | Inside nat "nat list"

record lock_sys =
  lock_words :: bucket_locks
  lock_pcs :: "lock_pc list"

definition lock_start :: "nat \<Rightarrow> nat list list \<Rightarrow> lock_sys" where
  "lock_start n programs = \<lparr>lock_words = locks_new n, lock_pcs = map Outside programs\<rparr>"

inductive lock_step :: "lock_sys \<Rightarrow> lock_sys \<Rightarrow> bool" where
  enter: "t < length (lock_pcs s) \<Longrightarrow> lock_pcs s ! t = Outside (b # bs) \<Longrightarrow>
     lock_step s (s\<lparr>lock_pcs := (lock_pcs s)[t := Waiting b bs]\<rparr>)"
| acquire: "t < length (lock_pcs s) \<Longrightarrow> lock_pcs s ! t = Waiting b bs \<Longrightarrow> locks_lock (lock_words s) b = Inr l \<Longrightarrow>
     lock_step s (s\<lparr>lock_words := l, lock_pcs := (lock_pcs s)[t := Inside b bs]\<rparr>)"
| spin: "t < length (lock_pcs s) \<Longrightarrow> lock_pcs s ! t = Waiting b bs \<Longrightarrow> locks_lock (lock_words s) b = Inl Stuck \<Longrightarrow>
     lock_step s s"
| release: "t < length (lock_pcs s) \<Longrightarrow> lock_pcs s ! t = Inside b bs \<Longrightarrow> locks_unlock (lock_words s) b = Inr l \<Longrightarrow>
     lock_step s (s\<lparr>lock_words := l, lock_pcs := (lock_pcs s)[t := Outside bs]\<rparr>)"

inductive lock_reachable :: "nat \<Rightarrow> nat list list \<Rightarrow> lock_sys \<Rightarrow> bool" for n programs where
  start: "lock_reachable n programs (lock_start n programs)"
| step: "lock_reachable n programs s \<Longrightarrow> lock_step s s' \<Longrightarrow> lock_reachable n programs s'"

section \<open>Invariant\<close>

fun holds_lock :: "nat \<Rightarrow> lock_pc \<Rightarrow> bool" where
  "holds_lock b (Inside b' bs) \<longleftrightarrow> b' = b"
| "holds_lock b _ \<longleftrightarrow> False"

fun in_range :: "nat \<Rightarrow> lock_pc \<Rightarrow> bool" where
  "in_range n (Outside bs) \<longleftrightarrow> list_all (\<lambda>b. b < n) bs"
| "in_range n (Waiting b bs) \<longleftrightarrow> b < n \<and> list_all (\<lambda>b. b < n) bs"
| "in_range n (Inside b bs) \<longleftrightarrow> b < n \<and> list_all (\<lambda>b. b < n) bs"

definition holders :: "lock_sys \<Rightarrow> nat \<Rightarrow> nat set" where
  "holders s b = {t. t < length (lock_pcs s) \<and> holds_lock b (lock_pcs s ! t)}"

text \<open>A lock word is 0 when nobody is inside and 1 when exactly one thread is.\<close>

definition lock_inv :: "nat \<Rightarrow> lock_sys \<Rightarrow> bool" where
  "lock_inv n s \<longleftrightarrow> length (lock_words s) = n \<and> list_all (in_range n) (lock_pcs s)
     \<and> (\<forall>b<n. lock_words s ! b = 0 \<and> holders s b = {} \<or> lock_words s ! b = 1 \<and> (\<exists>t. holders s b = {t}))"

text \<open>Steps left to take, not counting spins.\<close>

fun work :: "lock_pc \<Rightarrow> nat" where
  "work (Outside bs) = 3 * length bs"
| "work (Waiting b bs) = 3 * length bs + 2"
| "work (Inside b bs) = 3 * length bs + 1"

definition lock_work :: "lock_sys \<Rightarrow> nat" where
  "lock_work s = sum_list (map work (lock_pcs s))"

lemma holders_upd:
  assumes "t < length (lock_pcs s)"
  shows "holders (s\<lparr>lock_words := l, lock_pcs := (lock_pcs s)[t := pc]\<rparr>) b =
     (if holds_lock b pc then insert t (holders s b) else holders s b - {t})"
  using assms by (auto simp: holders_def nth_list_update)

lemma holders_upd':
  "t < length (lock_pcs s) \<Longrightarrow> holders (s\<lparr>lock_pcs := (lock_pcs s)[t := pc]\<rparr>) b =
     (if holds_lock b pc then insert t (holders s b) else holders s b - {t})"
  by (auto simp: holders_def nth_list_update)

lemma in_range_upd:
  "list_all (in_range n) pcs \<Longrightarrow> in_range n pc \<Longrightarrow> list_all (in_range n) (pcs[t := pc])"
  by (auto simp: list_all_iff dest!: set_update_subset_insert [THEN subsetD])

lemma holders_mem: "t < length (lock_pcs s) \<Longrightarrow> t \<in> holders s b \<longleftrightarrow> holds_lock b (lock_pcs s ! t)"
  by (simp add: holders_def)

lemma lock_step_inv: "lock_step s s' \<Longrightarrow> lock_inv n s \<Longrightarrow> lock_inv n s'"
proof (induction rule: lock_step.induct)
  case (enter t s b bs)
  have "in_range n (Outside (b # bs))" using enter by (auto simp: lock_inv_def list_all_length)
  moreover have "t \<notin> holders s b'" for b' using enter by (simp add: holders_mem)
  ultimately show ?case
    using enter by (auto simp: lock_inv_def holders_upd' intro!: in_range_upd)
next
  case (acquire t s b bs l)
  have r: "in_range n (Waiting b bs)" using acquire by (auto simp: lock_inv_def list_all_length)
  have t: "t \<notin> holders s b'" for b' using acquire by (simp add: holders_mem)
  have l: "l = (lock_words s)[b := 1]" "lock_words s ! b = 0"
    using acquire(3) by (auto simp: locks_lock_def index_def split: if_splits)
  then show ?case
    using acquire(1,4) r t by (auto simp: lock_inv_def holders_upd nth_list_update intro!: in_range_upd)
next
  case (spin t s b bs)
  then show ?case by simp
next
  case (release t s b bs l)
  have r: "in_range n (Inside b bs)" using release by (auto simp: lock_inv_def list_all_length)
  have t: "t \<in> holders s b' \<longleftrightarrow> b' = b" for b' using release by (auto simp: holders_mem)
  have l: "l = (lock_words s)[b := 0]" using release(3) by (auto simp: locks_unlock_def index_def split: if_splits)
  have "\<exists>u. holders s b = {u}" using release(4) r t [of b] unfolding lock_inv_def by auto
  then have hb: "holders s b = {t}" using t [of b] by auto
  have "holders s b' - {t} = holders s b'" if "b' \<noteq> b" for b' using t [of b'] that by auto
  then show ?case
    using release(1,4) r hb l by (auto simp: lock_inv_def holders_upd nth_list_update intro!: in_range_upd)
qed

lemma lock_reachable_inv:
  assumes "lock_reachable n programs s" and "\<forall>p\<in>set programs. \<forall>b\<in>set p. b < n"
  shows "lock_inv n s"
  using assms(1)
proof (induction rule: lock_reachable.induct)
  case start
  then show ?case using assms(2)
    by (auto simp: lock_inv_def lock_start_def locks_new_def holders_def list_all_iff)
next
  case (step s s')
  then show ?case by (blast intro: lock_step_inv)
qed

section \<open>Progress\<close>

lemma work_upd:
  assumes "t < length (lock_pcs s)"
  shows "lock_work (s\<lparr>lock_words := l, lock_pcs := (lock_pcs s)[t := pc]\<rparr>) + work (lock_pcs s ! t) = lock_work s + work pc"
proof -
  have "sum_list (map work (pcs[t := pc])) + work (pcs ! t) = sum_list (map work pcs) + work pc" if "t < length pcs" for pcs
    using that by (induction pcs arbitrary: t) (auto simp: nth_Cons split: nat.split)
  then show ?thesis using assms by (simp add: lock_work_def)
qed

lemma work_upd':
  "t < length (lock_pcs s) \<Longrightarrow>
     lock_work (s\<lparr>lock_pcs := (lock_pcs s)[t := pc]\<rparr>) + work (lock_pcs s ! t) = lock_work s + work pc"
  using work_upd [where t = t and s = s and l = "lock_words s" and pc = pc] by (simp add: lock_work_def)

lemma lock_step_work: "lock_step s s' \<Longrightarrow> s' = s \<or> lock_work s' < lock_work s"
proof (induction rule: lock_step.induct)
  case (enter t s b bs)
  then show ?case using work_upd' [OF enter(1), of "Waiting b bs"] by simp
next
  case (acquire t s b bs l)
  then show ?case using work_upd [OF acquire(1), where l = l and pc = "Inside b bs"] by simp
next
  case (release t s b bs l)
  then show ?case using work_upd [OF release(1), where l = l and pc = "Outside bs"] by simp
qed simp

lemma lock_progress:
  assumes inv: "lock_inv n s" and w: "0 < lock_work s"
  obtains s' where "lock_step s s'" and "lock_work s' < lock_work s"
proof -
  have rng: "t < length (lock_pcs s) \<Longrightarrow> in_range n (lock_pcs s ! t)" for t
    using inv by (simp add: lock_inv_def list_all_length)
  have len: "length (lock_words s) = n" using inv by (simp add: lock_inv_def)
  show thesis
  proof (cases "\<exists>t b bs. t < length (lock_pcs s) \<and> lock_pcs s ! t = Inside b bs")
    case True
    then obtain t b bs where t: "t < length (lock_pcs s)" "lock_pcs s ! t = Inside b bs" by blast
    then have "locks_unlock (lock_words s) b = Inr ((lock_words s)[b := 0])"
      using rng [OF t(1)] len by (simp add: locks_unlock_def index_ok)
    from lock_step.release [OF t this] work_upd [OF t(1), where l = "(lock_words s)[b := 0]" and pc = "Outside bs"] t(2)
    show thesis using that by simp
  next
    case False
    then have "\<not> holds_lock b (lock_pcs s ! t)" if "t < length (lock_pcs s)" for t b
      using that by (cases "lock_pcs s ! t") auto
    then have none: "holders s b = {}" for b by (simp add: holders_def)
    have "\<exists>pc\<in>set (lock_pcs s). 0 < work pc"
    proof (rule ccontr)
      assume "\<not> ?thesis"
      then have "lock_work s = 0" by (simp add: lock_work_def)
      then show False using w by simp
    qed
    then obtain t where t: "t < length (lock_pcs s)" "0 < work (lock_pcs s ! t)" by (metis in_set_conv_nth)
    show thesis
    proof (cases "lock_pcs s ! t")
      case (Outside bs)
      with t(2) obtain b bs' where o: "lock_pcs s ! t = Outside (b # bs')" by (cases bs) auto
      from lock_step.enter [OF t(1) o] work_upd' [OF t(1), of "Waiting b bs'"] o show thesis using that by simp
    next
      case (Waiting b bs)
      then have "b < n" using rng [OF t(1)] by simp
      then have "lock_words s ! b = 0" using inv none [of b] unfolding lock_inv_def by auto
      then have "locks_lock (lock_words s) b = Inr ((lock_words s)[b := 1])"
        using \<open>b < n\<close> len by (simp add: locks_lock_def index_ok)
      from lock_step.acquire [OF t(1) Waiting this] work_upd [OF t(1), where l = "(lock_words s)[b := 1]" and pc = "Inside b bs"] Waiting
      show thesis using that by simp
    next
      case (Inside b bs)
      then show thesis using False t(1) by blast
    qed
  qed
qed

lemma lock_completes:
  assumes "lock_reachable n programs s" and "\<forall>p\<in>set programs. \<forall>b\<in>set p. b < n"
  shows "\<exists>s'. lock_step\<^sup>*\<^sup>* s s' \<and> lock_work s' = 0 \<and> lock_reachable n programs s'"
  using assms(1)
proof (induction "lock_work s" arbitrary: s rule: less_induct)
  case less
  show ?case
  proof (cases "lock_work s = 0")
    case True
    then show ?thesis using less.prems by blast
  next
    case False
    then obtain s1 where s1: "lock_step s s1" "lock_work s1 < lock_work s"
      using lock_progress [OF lock_reachable_inv [OF less.prems assms(2)]] by auto
    from less.hyps [OF s1(2) lock_reachable.step [OF less.prems s1(1)]] s1(1) show ?thesis
      by (meson converse_rtranclp_into_rtranclp)
  qed
qed

section \<open>Properties\<close>

text \<open>
  C16: mutual exclusion. However the threads interleave, no two of them are inside the critical
  section of the same bucket, and a lock word is set exactly while some thread is inside.
\<close>

theorem bucket_mutual_exclusion:
  assumes "lock_reachable n programs s" and "\<forall>p\<in>set programs. \<forall>b\<in>set p. b < n" and "b < n"
    and "t < length (lock_pcs s)" and "u < length (lock_pcs s)"
    and "lock_pcs s ! t = Inside b bs" and "lock_pcs s ! u = Inside b bs'"
  shows "t = u \<and> lock_words s ! b = 1"
proof -
  have "t \<in> holders s b" "u \<in> holders s b" using assms by (simp_all add: holders_mem)
  moreover have "lock_words s ! b = 0 \<and> holders s b = {} \<or> lock_words s ! b = 1 \<and> (\<exists>t. holders s b = {t})"
    using lock_reachable_inv [OF assms(1,2)] assms(3) unfolding lock_inv_def by blast
  ultimately show ?thesis by auto
qed

theorem bucket_mutual_exclusion_witness:
  "\<exists>s. lock_reachable 2 [[1], [1]] s \<and> lock_pcs s ! 0 = Inside 1 [] \<and> lock_words s ! 1 = 1"
proof -
  let ?s0 = "lock_start 2 [[1], [1]]"
  let ?s1 = "?s0\<lparr>lock_pcs := (lock_pcs ?s0)[0 := Waiting 1 []]\<rparr>"
  let ?s2 = "?s1\<lparr>lock_words := (lock_words ?s1)[1 := 1], lock_pcs := (lock_pcs ?s1)[0 := Inside 1 []]\<rparr>"
  have "lock_step ?s0 ?s1" by (rule lock_step.enter) (simp_all add: lock_start_def)
  then have r1: "lock_reachable 2 [[1], [1]] ?s1" by (rule lock_reachable.step [OF lock_reachable.start])
  have "lock_step ?s1 ?s2"
    by (rule lock_step.acquire) (simp_all add: lock_start_def locks_lock_def locks_new_def index_ok numeral_eq_Suc)
  then have r2: "lock_reachable 2 [[1], [1]] ?s2" by (rule lock_reachable.step [OF r1])
  have "lock_words ?s2 ! 1 = 1"
    using bucket_mutual_exclusion [OF r2, of 1 0 0 "[]" "[]"] by (simp add: lock_start_def)
  with r2 show ?thesis by (intro exI [of _ ?s2]) (simp add: lock_start_def)
qed

text \<open>
  No deadlock. From every reachable state the threads can all run to their end, which leaves
  every lock free; and each step that is not a spin on a held lock brings that end nearer, so that a
  run has only finitely many of them.
\<close>

theorem bucket_locks_progress:
  assumes "lock_reachable n programs s" and "\<forall>p\<in>set programs. \<forall>b\<in>set p. b < n"
  shows "(\<exists>s'. lock_step\<^sup>*\<^sup>* s s' \<and> list_all (\<lambda>pc. pc = Outside []) (lock_pcs s') \<and> lock_words s' = locks_new n)
     \<and> (\<forall>s'. lock_step s s' \<longrightarrow> s' = s \<or> lock_work s' < lock_work s)"
proof -
  obtain s' where s': "lock_step\<^sup>*\<^sup>* s s'" "lock_work s' = 0" "lock_reachable n programs s'"
    using lock_completes [OF assms] by blast
  have idle: "pc = Outside []" if "pc \<in> set (lock_pcs s')" for pc
    using s'(2) that by (cases pc) (auto simp: lock_work_def)
  note inv = lock_reachable_inv [OF s'(3) assms(2)]
  have "holders s' b = {}" for b using idle by (fastforce simp: holders_def in_set_conv_nth)
  then have "lock_words s' ! b = 0" if "b < n" for b using inv that unfolding lock_inv_def by auto
  moreover have "length (lock_words s') = n" using inv by (simp add: lock_inv_def)
  ultimately have "lock_words s' = locks_new n" by (auto simp: locks_new_def intro: nth_equalityI)
  then show ?thesis using s'(1) idle lock_step_work by (auto simp: list_all_iff)
qed

theorem bucket_locks_progress_witness:
  "\<exists>s'. lock_step\<^sup>*\<^sup>* (lock_start 2 [[1, 0], [0, 1]]) s' \<and> lock_words s' = locks_new 2"
  using bucket_locks_progress [OF lock_reachable.start, of "[[1, 0], [0, 1]]" 2] by auto

end
