(* ===== verification/Meta_Cas.thy ===== *)
theory Meta_Cas
  imports Meta "HOL-Library.Multiset"
begin

text \<open>
  The compare-and-swap loop of \<^verbatim>\<open>MetaWord::on_access\<close> (\<^verbatim>\<open>src/src/engine/meta.rs\<close>) run by
  any number of threads on one metadata word: a thread loads the word, computes the new one, and
  either exchanges it or starts over, also for no reason, as the weak exchange may. Every atomic
  operation is one step; which thread moves is free.
\<close>

section \<open>The threads\<close>

text \<open>A thread about to load, one holding a loaded word (and, as a ghost, how many accesses had
  completed at that load), and one whose access is done.\<close>

datatype cas_pc = Loading nat | Exchanging nat u64 nat | Finished nat

record cas_state =
  cas_word :: u64
  cas_pcs :: "cas_pc list"
  cas_history :: "nat list"

definition cas_start :: "u64 \<Rightarrow> nat list \<Rightarrow> cas_state" where
  "cas_start w slots = \<lparr>cas_word = w, cas_pcs = map Loading slots, cas_history = []\<rparr>"

inductive cas_step :: "cas_state \<Rightarrow> cas_state \<Rightarrow> bool" where
  load: "t < length (cas_pcs s) \<Longrightarrow> cas_pcs s ! t = Loading slot \<Longrightarrow>
     cas_step s (s\<lparr>cas_pcs := (cas_pcs s)[t := Exchanging slot (cas_word s) (length (cas_history s))]\<rparr>)"
| exchange: "t < length (cas_pcs s) \<Longrightarrow> cas_pcs s ! t = Exchanging slot current n \<Longrightarrow> cas_word s = current \<Longrightarrow>
     cas_step s (s\<lparr>cas_word := on_access current slot, cas_pcs := (cas_pcs s)[t := Finished slot],
                   cas_history := cas_history s @ [slot]\<rparr>)"
| retry: "t < length (cas_pcs s) \<Longrightarrow> cas_pcs s ! t = Exchanging slot current n \<Longrightarrow>
     cas_step s (s\<lparr>cas_pcs := (cas_pcs s)[t := Loading slot]\<rparr>)"

inductive cas_reachable :: "u64 \<Rightarrow> nat list \<Rightarrow> cas_state \<Rightarrow> bool" for w slots where
  start: "cas_reachable w slots (cas_start w slots)"
| step: "cas_reachable w slots s \<Longrightarrow> cas_step s s' \<Longrightarrow> cas_reachable w slots s'"

section \<open>Invariant\<close>

definition accesses :: "nat list \<Rightarrow> u64 \<Rightarrow> u64" where
  "accesses hist w = fold (\<lambda>slot v. on_access v slot) hist w"

fun slot_of :: "cas_pc \<Rightarrow> nat" where
  "slot_of (Loading slot) = slot"
| "slot_of (Exchanging slot _ _) = slot"
| "slot_of (Finished slot) = slot"

fun finished_slots :: "cas_pc \<Rightarrow> nat multiset" where
  "finished_slots (Finished slot) = {#slot#}"
| "finished_slots _ = {#}"

fun fresh_load :: "cas_state \<Rightarrow> cas_pc \<Rightarrow> bool" where
  "fresh_load s (Exchanging slot current n) \<longleftrightarrow>
     n \<le> length (cas_history s) \<and> (n = length (cas_history s) \<longrightarrow> current = cas_word s)"
| "fresh_load s _ \<longleftrightarrow> True"

definition cas_inv :: "u64 \<Rightarrow> nat list \<Rightarrow> cas_state \<Rightarrow> bool" where
  "cas_inv w slots s \<longleftrightarrow> cas_word s = accesses (cas_history s) w
     \<and> map slot_of (cas_pcs s) = slots
     \<and> mset (cas_history s) = sum_list (map finished_slots (cas_pcs s))
     \<and> list_all (fresh_load s) (cas_pcs s)"

lemma accesses_snoc: "accesses (hist @ [slot]) w = on_access (accesses hist w) slot"
  by (simp add: accesses_def)

lemma finished_upd:
  assumes "t < length pcs"
  shows "sum_list (map finished_slots (pcs[t := pc])) + finished_slots (pcs ! t) =
     sum_list (map finished_slots pcs) + finished_slots pc"
  using assms by (induction pcs arbitrary: t) (auto simp: nth_Cons ac_simps split: nat.split)

lemma slots_upd: "t < length pcs \<Longrightarrow> slot_of pc = slot_of (pcs ! t) \<Longrightarrow> map slot_of (pcs[t := pc]) = map slot_of pcs"
  by (simp add: map_update list_update_same_conv)

lemma fresh_upd:
  assumes "list_all (fresh_load s) pcs" and "fresh_load s' pc"
    and "\<And>pc. fresh_load s pc \<Longrightarrow> fresh_load s' pc"
  shows "list_all (fresh_load s') (pcs[t := pc])"
  using assms by (auto simp: list_all_iff dest!: set_update_subset_insert [THEN subsetD])

lemma fresh_frame: "cas_word s' = cas_word s \<Longrightarrow> cas_history s' = cas_history s \<Longrightarrow> fresh_load s pc \<Longrightarrow> fresh_load s' pc"
  by (cases pc) auto

lemma fresh_grow: "length (cas_history s) < length (cas_history s') \<Longrightarrow> fresh_load s pc \<Longrightarrow> fresh_load s' pc"
  by (cases pc) auto

lemma cas_step_inv: "cas_step s s' \<Longrightarrow> cas_inv w slots s \<Longrightarrow> cas_inv w slots s'"
proof (induction rule: cas_step.induct)
  case (load t s slot)
  then show ?case
    using finished_upd [OF load(1), of "Exchanging slot (cas_word s) (length (cas_history s))"]
    by (auto simp: cas_inv_def slots_upd intro!: fresh_upd [of s] intro: fresh_frame [of _ s])
next
  case (exchange t s slot current n)
  then show ?case
    using finished_upd [OF exchange(1), of "Finished slot"]
    by (auto simp: cas_inv_def slots_upd accesses_snoc intro!: fresh_upd [of s] intro: fresh_grow [of s])
next
  case (retry t s slot current n)
  then show ?case
    using finished_upd [OF retry(1), of "Loading slot"]
    by (auto simp: cas_inv_def slots_upd intro!: fresh_upd [of s] intro: fresh_frame [of _ s])
qed

lemma cas_reachable_inv: "cas_reachable w slots s \<Longrightarrow> cas_inv w slots s"
proof (induction rule: cas_reachable.induct)
  case start
  have "sum_list (map (finished_slots \<circ> Loading) slots) = {#}" by (induction slots) auto
  then show ?case by (simp add: cas_inv_def cas_start_def accesses_def list_all_iff comp_def)
next
  case (step s s')
  then show ?case by (blast intro: cas_step_inv)
qed

lemma accesses_fields:
  assumes "list_all (\<lambda>slot. slot < 4) hist" and "j < 4"
  shows "get_state (accesses hist w) j = get_state w j" and "get_h2 (accesses hist w) j = get_h2 w j"
    and "frequency (get_priority (accesses hist w) j) = min 15 (frequency (get_priority w j) + count_list hist j)"
proof -
  have freq: "frequency (get_priority (on_access v slot) j) =
      (if j = slot then min 15 (frequency (get_priority v j) + 1) else frequency (get_priority v j))" if "slot < 4" for v slot
    using that assms(2) boost_decay [OF get_priority_less [of v j]] by (auto simp: on_access_priority)
  have le: "frequency (get_priority v j) \<le> 15" for v
    using get_priority_less [of v j] by (auto simp: frequency_def word_less_nat_alt)
  show "get_state (accesses hist w) j = get_state w j" and "get_h2 (accesses hist w) j = get_h2 w j"
    and "frequency (get_priority (accesses hist w) j) = min 15 (frequency (get_priority w j) + count_list hist j)"
    using assms(1) by (induction hist rule: rev_induct)
      (use assms(2) le [of w] in \<open>auto simp: accesses_snoc freq accesses_def [of "[]"]\<close>)
qed

section \<open>Property\<close>

text \<open>
  C17: concurrent accesses. Whatever the interleaving, the word is always the result of the
  completed accesses applied one after the other, each thread's access once and no other: no update
  is lost. States and fingerprints never change, and the frequency of a slot has grown by the number
  of completed accesses to it, up to 15. A thread whose exchange fails because the word has changed
  since its load has been overtaken by another thread that completed.
\<close>

theorem on_access_linearizable:
  assumes "cas_reachable w slots s" and "list_all (\<lambda>slot. slot < 4) slots" and "j < 4"
  shows "cas_word s = accesses (cas_history s) w
     \<and> mset (cas_history s) = sum_list (map finished_slots (cas_pcs s))
     \<and> get_state (cas_word s) j = get_state w j \<and> get_h2 (cas_word s) j = get_h2 w j
     \<and> frequency (get_priority (cas_word s) j) = min 15 (frequency (get_priority w j) + count_list (cas_history s) j)
     \<and> (\<forall>t slot current n. t < length (cas_pcs s) \<and> cas_pcs s ! t = Exchanging slot current n
          \<and> cas_word s \<noteq> current \<longrightarrow> n < length (cas_history s))"
proof -
  note inv = cas_reachable_inv [OF assms(1), unfolded cas_inv_def]
  have "set (cas_history s) \<subseteq> slot_of ` set (cas_pcs s)"
  proof -
    have "x \<in># sum_list (map finished_slots pcs) \<Longrightarrow> x \<in> slot_of ` set pcs" for x pcs
    proof (induction pcs)
      case (Cons pc pcs)
      then show ?case by (cases pc) auto
    qed simp
    then have "set_mset (mset (cas_history s)) \<subseteq> slot_of ` set (cas_pcs s)" using inv by (metis subsetI)
    then show ?thesis by simp
  qed
  then have small: "list_all (\<lambda>slot. slot < 4) (cas_history s)"
    using inv assms(2) by (fastforce simp: list_all_iff)
  have "n < length (cas_history s)"
    if t: "t < length (cas_pcs s)" "cas_pcs s ! t = Exchanging slot current n" "cas_word s \<noteq> current" for t slot current n
  proof -
    have "fresh_load s (cas_pcs s ! t)" using inv t(1) by (auto simp: list_all_length)
    then show ?thesis using t(2,3) by auto
  qed
  moreover have "cas_word s = accesses (cas_history s) w" using inv by blast
  ultimately show ?thesis using inv accesses_fields [OF small assms(3), of w] by metis
qed

theorem on_access_linearizable_witness:
  "\<exists>s. cas_reachable meta_empty [2] s \<and> cas_pcs s = [Finished 2] \<and> frequency (get_priority (cas_word s) 2) = 1"
proof -
  let ?s0 = "cas_start meta_empty [2]"
  let ?s1 = "?s0\<lparr>cas_pcs := (cas_pcs ?s0)[0 := Exchanging 2 (cas_word ?s0) (length (cas_history ?s0))]\<rparr>"
  let ?s2 = "?s1\<lparr>cas_word := on_access meta_empty 2, cas_pcs := (cas_pcs ?s1)[0 := Finished 2],
      cas_history := cas_history ?s1 @ [2]\<rparr>"
  have "cas_step ?s0 ?s1" by (rule cas_step.load) (simp_all add: cas_start_def)
  then have r1: "cas_reachable meta_empty [2] ?s1" by (rule cas_reachable.step [OF cas_reachable.start])
  have "cas_step ?s1 ?s2" by (rule cas_step.exchange [of 0 _ 2 meta_empty 0]) (simp_all add: cas_start_def)
  then have r2: "cas_reachable meta_empty [2] ?s2" by (rule cas_reachable.step [OF r1])
  have "frequency (get_priority meta_empty 2) = 0"
    by (simp add: get_priority_def meta_empty_def shr64_def frequency_def)
  then have "frequency (get_priority (cas_word ?s2) 2) = 1"
    using on_access_linearizable [OF r2, of 2] by (simp add: cas_start_def) metis
  with r2 show ?thesis by (intro exI [of _ ?s2]) (simp add: cas_start_def)
qed

end
