(* ===== verification/Buffer_Race.thy ===== *)
theory Buffer_Race
  imports Access_Buffer
begin

text \<open>
  The access buffer (\<^verbatim>\<open>src/src/engine/access_buffer.rs\<close>) under any interleaving of any number of
  producers and consumers: every atomic load, store and compare-exchange of \<^verbatim>\<open>push\<close> and
  \<^verbatim>\<open>pop\<close> is one step of one thread. Ghost state numbers the successful claims without
  wrapping, records the pushed words, and says for each slot which position it serves and in which
  phase of its generation it is. The memory is sequentially consistent; weaker orders are not
  modelled.
\<close>

section \<open>Threads and steps\<close>

text \<open>
  Where a thread stands: a producer has loaded the head, seen the slot free, claimed the position,
  written the payload; a consumer has loaded the tail, seen the slot published, claimed the
  position, read the payload. The first argument is the loaded counter, the second its ghost number.
\<close>

datatype race_pc =
    Idle
  | PushSeq usize nat "nat \<times> nat" | PushCas usize nat "nat \<times> nat"
  | PushData usize nat "nat \<times> nat" | PushPub usize nat "nat \<times> nat"
  | PopSeq usize nat | PopCas usize nat | PopData usize nat | PopRel usize nat usize

datatype phase = Free | Writing | Published | Reading

record race =
  ab :: access_buffer
  race_pcs :: "nat \<Rightarrow> race_pc"
  pushes :: "(nat \<times> nat) list"
  pops :: nat
  cur :: "nat \<Rightarrow> nat"
  ph :: "nat \<Rightarrow> phase"
  delivered :: "(nat \<times> nat \<times> nat) list"

definition race_start :: "access_buffer \<Rightarrow> race" where
  "race_start a = \<lparr>ab = a, race_pcs = (\<lambda>_. Idle), pushes = [], pops = 0, cur = (\<lambda>i. i), ph = (\<lambda>_. Free), delivered = []\<rparr>"

fun encode_event :: "nat \<times> nat \<Rightarrow> usize" where
  "encode_event (bucket_idx, slot_idx) = push_bit 2 (word_of_nat bucket_idx) OR word_of_nat slot_idx"

abbreviation slot_ix :: "race \<Rightarrow> usize \<Rightarrow> nat" where
  "slot_ix s w \<equiv> unat (w AND ab_mask (ab s))"

abbreviation at_slot :: "race \<Rightarrow> usize \<Rightarrow> access_event" where
  "at_slot s w \<equiv> buffer (ab s) ! slot_ix s w"

abbreviation go :: "race \<Rightarrow> nat \<Rightarrow> race_pc \<Rightarrow> race" where
  "go s i pc \<equiv> s\<lparr>race_pcs := (race_pcs s)(i := pc)\<rparr>"

abbreviation set_slot :: "race \<Rightarrow> usize \<Rightarrow> access_event \<Rightarrow> access_buffer" where
  "set_slot s w e \<equiv> (ab s)\<lparr>buffer := (buffer (ab s))[slot_ix s w := e]\<rparr>"

inductive race_step :: "race \<Rightarrow> race \<Rightarrow> bool" where
  push_load: "race_pcs s i = Idle \<Longrightarrow> valid_event d \<Longrightarrow>
    race_step s (go s i (PushSeq (head (ab s)) (length (pushes s)) d))"
| push_full: "race_pcs s i = PushSeq h x d \<Longrightarrow> sequence (at_slot s h) \<noteq> h \<Longrightarrow> race_step s (go s i Idle)"
| push_seen: "race_pcs s i = PushSeq h x d \<Longrightarrow> sequence (at_slot s h) = h \<Longrightarrow> race_step s (go s i (PushCas h x d))"
| push_fail: "race_pcs s i = PushCas h x d \<Longrightarrow> head (ab s) \<noteq> h \<Longrightarrow> race_step s (go s i Idle)"
| push_claim: "race_pcs s i = PushCas h x d \<Longrightarrow> head (ab s) = h \<Longrightarrow>
    race_step s (go s i (PushData h x d)\<lparr>ab := (ab s)\<lparr>head := h + 1\<rparr>, pushes := pushes s @ [d],
                   ph := (ph s)(slot_ix s h := Writing)\<rparr>)"
| push_data: "race_pcs s i = PushData h x d \<Longrightarrow>
    race_step s (go s i (PushPub h x d)\<lparr>ab := set_slot s h ((at_slot s h)\<lparr>ev_data := encode_event d\<rparr>)\<rparr>)"
| push_pub: "race_pcs s i = PushPub h x d \<Longrightarrow>
    race_step s (go s i Idle\<lparr>ab := set_slot s h ((at_slot s h)\<lparr>sequence := h + 1\<rparr>),
                   ph := (ph s)(slot_ix s h := Published)\<rparr>)"
| pop_load: "race_pcs s i = Idle \<Longrightarrow> race_step s (go s i (PopSeq (tail (ab s)) (pops s)))"
| pop_empty: "race_pcs s i = PopSeq t x \<Longrightarrow> sequence (at_slot s t) \<noteq> t + 1 \<Longrightarrow> race_step s (go s i Idle)"
| pop_seen: "race_pcs s i = PopSeq t x \<Longrightarrow> sequence (at_slot s t) = t + 1 \<Longrightarrow> race_step s (go s i (PopCas t x))"
| pop_fail: "race_pcs s i = PopCas t x \<Longrightarrow> tail (ab s) \<noteq> t \<Longrightarrow> race_step s (go s i Idle)"
| pop_claim: "race_pcs s i = PopCas t x \<Longrightarrow> tail (ab s) = t \<Longrightarrow>
    race_step s (go s i (PopData t x)\<lparr>ab := (ab s)\<lparr>tail := t + 1\<rparr>, pops := pops s + 1,
                   ph := (ph s)(slot_ix s t := Reading)\<rparr>)"
| pop_data: "race_pcs s i = PopData t x \<Longrightarrow> race_step s (go s i (PopRel t x (ev_data (at_slot s t))))"
| pop_rel: "race_pcs s i = PopRel t x d \<Longrightarrow>
    race_step s (go s i Idle\<lparr>ab := set_slot s t ((at_slot s t)\<lparr>sequence := t + word_of_nat (length (buffer (ab s)))\<rparr>),
                   cur := (cur s)(slot_ix s t := x + length (buffer (ab s))), ph := (ph s)(slot_ix s t := Free),
                   delivered := delivered s @ [(x, decode_event d)]\<rparr>)"

inductive_cases race_stepE: "race_step s s'"

inductive race_reachable :: "nat \<Rightarrow> race \<Rightarrow> bool" for n where
  start: "buffer_new n = Inr a \<Longrightarrow> race_reachable n (race_start a)"
| step: "race_reachable n s \<Longrightarrow> race_step s s' \<Longrightarrow> race_reachable n s'"

section \<open>Invariant\<close>

text \<open>The slot \<open>i\<close> of \<open>n\<close>, serving position \<open>p\<close>, with \<open>h\<close> pushes and \<open>t\<close> pops claimed so far.\<close>

definition slot_good :: "nat \<Rightarrow> nat \<Rightarrow> (nat \<times> nat) list \<Rightarrow> nat \<Rightarrow> access_event \<Rightarrow> nat \<Rightarrow> phase \<Rightarrow> bool" where
  "slot_good n t log i e p f \<longleftrightarrow> p mod n = i \<and> p < t + n \<and> length log \<le> p + n
     \<and> (case f of
          Free \<Rightarrow> sequence e = word_of_nat p \<and> length log \<le> p
        | Writing \<Rightarrow> sequence e = word_of_nat p \<and> t \<le> p \<and> p < length log
        | Published \<Rightarrow> sequence e = word_of_nat (p + 1) \<and> t \<le> p \<and> p < length log \<and> ev_data e = encode_event (log ! p)
        | Reading \<Rightarrow> sequence e = word_of_nat (p + 1) \<and> p < t \<and> p < length log \<and> ev_data e = encode_event (log ! p))"

text \<open>The position \<open>x\<close> has been published.\<close>

definition out :: "nat \<Rightarrow> (nat \<Rightarrow> nat) \<Rightarrow> (nat \<Rightarrow> phase) \<Rightarrow> nat \<Rightarrow> bool" where
  "out n c f x \<longleftrightarrow> x < c (x mod n) \<or> c (x mod n) = x \<and> f (x mod n) \<in> {Published, Reading}"

fun owned :: "race_pc \<Rightarrow> nat option" where
  "owned (PushData h x d) = Some x"
| "owned (PushPub h x d) = Some x"
| "owned (PopData t x) = Some x"
| "owned (PopRel t x d) = Some x"
| "owned _ = None"

fun pc_good :: "nat \<Rightarrow> nat \<Rightarrow> (nat \<times> nat) list \<Rightarrow> (nat \<Rightarrow> nat) \<Rightarrow> (nat \<Rightarrow> phase) \<Rightarrow> access_event list \<Rightarrow> race_pc \<Rightarrow> bool" where
  "pc_good n t log c f buf Idle \<longleftrightarrow> True"
| "pc_good n t log c f buf (PushSeq h x d) \<longleftrightarrow> h = word_of_nat x \<and> x \<le> length log \<and> valid_event d"
| "pc_good n t log c f buf (PushCas h x d) \<longleftrightarrow> h = word_of_nat x \<and> x \<le> length log \<and> x \<le> c (x mod n) \<and> valid_event d"
| "pc_good n t log c f buf (PushData h x d) \<longleftrightarrow>
     h = word_of_nat x \<and> x < length log \<and> d = log ! x \<and> c (x mod n) = x \<and> f (x mod n) = Writing"
| "pc_good n t log c f buf (PushPub h x d) \<longleftrightarrow>
     h = word_of_nat x \<and> x < length log \<and> d = log ! x \<and> c (x mod n) = x \<and> f (x mod n) = Writing
     \<and> ev_data (buf ! (x mod n)) = encode_event d"
| "pc_good n t log c f buf (PopSeq w x) \<longleftrightarrow> w = word_of_nat x \<and> x \<le> t"
| "pc_good n t log c f buf (PopCas w x) \<longleftrightarrow> w = word_of_nat x \<and> x \<le> t \<and> x < length log \<and> out n c f x"
| "pc_good n t log c f buf (PopData w x) \<longleftrightarrow>
     w = word_of_nat x \<and> x < length log \<and> c (x mod n) = x \<and> f (x mod n) = Reading"
| "pc_good n t log c f buf (PopRel w x d) \<longleftrightarrow>
     w = word_of_nat x \<and> x < length log \<and> d = encode_event (log ! x) \<and> c (x mod n) = x \<and> f (x mod n) = Reading"

definition sized :: "access_buffer \<Rightarrow> bool" where
  "sized a \<longleftrightarrow> (\<exists>k. 6 \<le> k \<and> k \<le> 58 \<and> length (buffer a) = 2 ^ k \<and> ab_mask a = mask k)"

definition race_inv :: "race \<Rightarrow> bool" where
  "race_inv s \<longleftrightarrow> (let n = length (buffer (ab s)) in
     sized (ab s) \<and> head (ab s) = word_of_nat (length (pushes s)) \<and> tail (ab s) = word_of_nat (pops s)
     \<and> list_all valid_event (pushes s) \<and> pops s \<le> length (pushes s) \<and> length (pushes s) \<le> pops s + n
     \<and> (\<forall>i<n. slot_good n (pops s) (pushes s) i (buffer (ab s) ! i) (cur s i) (ph s i))
     \<and> (\<forall>j. pc_good n (pops s) (pushes s) (cur s) (ph s) (buffer (ab s)) (race_pcs s j))
     \<and> (\<forall>i j x y. i \<noteq> j \<longrightarrow> owned (race_pcs s i) = Some x \<longrightarrow> owned (race_pcs s j) = Some y \<longrightarrow> x mod n \<noteq> y mod n)
     \<and> distinct (map fst (delivered s))
     \<and> (\<forall>(x, d)\<in>set (delivered s). x < cur s (x mod n) \<and> x < pops s \<and> x < length (pushes s) \<and> d = pushes s ! x))"

section \<open>Arithmetic of positions\<close>

lemma sizedD:
  assumes "sized a"
  shows "2 \<le> length (buffer a)" and "unat (word_of_nat x AND ab_mask a) = x mod length (buffer a)"
    and "x mod length (buffer a) < length (buffer a)"
proof -
  from assms obtain k where k: "6 \<le> k" "k \<le> 58" "length (buffer a) = 2 ^ k" "ab_mask a = mask k" by (auto simp: sized_def)
  show n: "2 \<le> length (buffer a)" using power_increasing [OF k(1), of "2::nat"] k(3) by simp
  then have "0 < length (buffer a)" by linarith
  then show "x mod length (buffer a) < length (buffer a)" by (rule mod_less_divisor)
  show "unat (word_of_nat x AND ab_mask a) = x mod length (buffer a)" using k(2) by (simp add: k(3,4) mask_position)
qed

lemma word_inj:
  assumes "x < 2 ^ 64" and "y < 2 ^ 64" and "(word_of_nat x :: usize) = word_of_nat y"
  shows "x = y"
proof -
  have "unat (word_of_nat x :: usize) = unat (word_of_nat y :: usize)" by (simp only: assms(3))
  then show ?thesis using assms(1,2) by (simp add: unat_of_nat)
qed

lemma same_slot_le:
  assumes "x mod n = p mod n" and "x < p"
  shows "x + n \<le> (p :: nat)"
proof -
  have "n dvd p - x" using assms by (metis less_imp_le mod_eq_dvd_iff_nat)
  then show ?thesis using assms(2) by (auto dest: dvd_imp_le)
qed

lemma next_slot: "2 \<le> n \<Longrightarrow> (x + 1) mod n \<noteq> x mod (n :: nat)"
  using same_slot_le [of x n "x + 1"] by auto

section \<open>Stability\<close>

lemma pc_good_stable:
  assumes "pc_good n t log c f buf pc" and "t \<le> t'" and "\<And>k. c k \<le> c' k"
    and "\<And>x. owned pc = Some x \<Longrightarrow> c' (x mod n) = c (x mod n) \<and> f' (x mod n) = f (x mod n) \<and> buf' ! (x mod n) = buf ! (x mod n)"
    and "\<And>k. f k \<in> {Published, Reading} \<Longrightarrow> c' k = c k \<Longrightarrow> f' k \<in> {Published, Reading}"
  shows "pc_good n t' (log @ l) c' f' buf' pc"
proof -
  have "out n c' f' x" if "out n c f x" for x
    using that assms(3) [of "x mod n"] assms(5) [of "x mod n"] unfolding out_def by force
  moreover have "x \<le> c' k" if "x \<le> c k" for x k using that assms(3) le_trans by blast
  ultimately show ?thesis using assms(1,2,4) by (cases pc) (auto simp: nth_append)
qed

lemma slot_good_stable:
  assumes "slot_good n t log i e p f" and "t \<le> t'" and "length (log @ l) \<le> p + n"
    and "f \<in> {Writing, Published} \<Longrightarrow> t' \<le> p" and "f = Free \<Longrightarrow> length (log @ l) \<le> p"
  shows "slot_good n t' (log @ l) i e p f"
  using assms by (cases f) (auto simp: slot_good_def nth_append)

lemma race_invD:
  assumes "race_inv s"
  shows "sized (ab s)" and "head (ab s) = word_of_nat (length (pushes s))" and "tail (ab s) = word_of_nat (pops s)"
    and "list_all valid_event (pushes s)" and "pops s \<le> length (pushes s)" and "length (pushes s) \<le> pops s + length (buffer (ab s))"
    and "i < length (buffer (ab s)) \<Longrightarrow>
      slot_good (length (buffer (ab s))) (pops s) (pushes s) i (buffer (ab s) ! i) (cur s i) (ph s i)"
    and "pc_good (length (buffer (ab s))) (pops s) (pushes s) (cur s) (ph s) (buffer (ab s)) (race_pcs s j)"
    and "i \<noteq> j \<Longrightarrow> owned (race_pcs s i) = Some x \<Longrightarrow> owned (race_pcs s j) = Some y \<Longrightarrow>
      x mod length (buffer (ab s)) \<noteq> y mod length (buffer (ab s))"
    and "distinct (map fst (delivered s))"
    and "(x, d) \<in> set (delivered s) \<Longrightarrow>
      x < cur s (x mod length (buffer (ab s))) \<and> x < pops s \<and> x < length (pushes s) \<and> d = pushes s ! x"
  using assms unfolding race_inv_def Let_def by blast+

text \<open>A step that changes a program counter only.\<close>

lemma race_inv_move:
  assumes "race_inv s"
    and "pc_good (length (buffer (ab s))) (pops s) (pushes s) (cur s) (ph s) (buffer (ab s)) pc"
    and "owned pc = None \<or> owned pc = owned (race_pcs s i)"
  shows "race_inv (go s i pc)"
proof -
  have "x mod length (buffer (ab s)) \<noteq> y mod length (buffer (ab s))"
    if "j \<noteq> k" "owned (((race_pcs s)(i := pc)) j) = Some x" "owned (((race_pcs s)(i := pc)) k) = Some y" for j k x y
    using race_invD(9) [OF assms(1) that(1), of x y] that assms(3) by (auto split: if_splits)
  then show ?thesis using assms(1,2) unfolding race_inv_def Let_def by simp
qed

text \<open>A step of thread \<open>i\<close> that also changes slot \<open>j\<close>, the counters or the logs.\<close>

lemma race_inv_update:
  fixes s a' e' j p' f'
  defines "n \<equiv> length (buffer (ab s))"
  defines "c \<equiv> (cur s)(j := p')" and "f \<equiv> (ph s)(j := f')" and "buf \<equiv> (buffer (ab s))[j := e']"
  assumes inv: "race_inv s" and j: "j < n"
    and a': "buffer a' = buf" "ab_mask a' = ab_mask (ab s)" "head a' = word_of_nat (length (pushes s @ l))"
      "tail a' = word_of_nat t'"
    and sizes: "pops s \<le> t'" "t' \<le> length (pushes s @ l)" "length (pushes s @ l) \<le> t' + n" "list_all valid_event l"
    and slot: "slot_good n t' (pushes s @ l) j e' p' f'"
    and others: "\<And>k. k < n \<Longrightarrow> k \<noteq> j \<Longrightarrow> length (pushes s @ l) \<le> cur s k + n
        \<and> (ph s k \<in> {Writing, Published} \<longrightarrow> t' \<le> cur s k) \<and> (ph s k = Free \<longrightarrow> length (pushes s @ l) \<le> cur s k)"
    and mono: "cur s j \<le> p'" "ph s j \<in> {Published, Reading} \<Longrightarrow> p' = cur s j \<Longrightarrow> f' \<in> {Published, Reading}"
    and free: "\<And>k x. k \<noteq> i \<Longrightarrow> owned (race_pcs s k) = Some x \<Longrightarrow> x mod n \<noteq> j"
    and pc: "pc_good n t' (pushes s @ l) c f buf pc" "\<And>x. owned pc = Some x \<Longrightarrow> x mod n = j"
    and dl: "distinct (map fst dl)"
      "\<And>x d. (x, d) \<in> set dl \<Longrightarrow> x < c (x mod n) \<and> x < t' \<and> x < length (pushes s @ l) \<and> d = (pushes s @ l) ! x"
  shows "race_inv \<lparr>ab = a', race_pcs = (race_pcs s)(i := pc), pushes = pushes s @ l, pops = t', cur = c, ph = f,
           delivered = dl\<rparr>"
proof -
  have n': "length (buffer a') = n" by (simp add: a' buf_def n_def)
  have sized: "sized a'" using race_invD(1) [OF inv] by (simp add: sized_def n' a'(2) n_def)
  have slots: "\<forall>k<n. slot_good n t' (pushes s @ l) k (buf ! k) (c k) (f k)"
  proof (intro allI impI)
    fix k
    assume k: "k < n"
    show "slot_good n t' (pushes s @ l) k (buf ! k) (c k) (f k)"
    proof (cases "k = j")
      case True
      then show ?thesis using slot j by (simp add: buf_def c_def f_def n_def)
    next
      case False
      have "slot_good n (pops s) (pushes s) k (buffer (ab s) ! k) (cur s k) (ph s k)"
        using race_invD(7) [OF inv] k unfolding n_def by blast
      from slot_good_stable [OF this sizes(1)] others [OF k False] False
      show ?thesis by (simp add: buf_def c_def f_def)
    qed
  qed
  have pcs: "pc_good n t' (pushes s @ l) c f buf (((race_pcs s)(i := pc)) k)" for k
  proof (cases "k = i")
    case True
    then show ?thesis using pc(1) by simp
  next
    case False
    have "pc_good n (pops s) (pushes s) (cur s) (ph s) (buffer (ab s)) (race_pcs s k)"
      using race_invD(8) [OF inv] unfolding n_def by blast
    then have "pc_good n t' (pushes s @ l) c f buf (race_pcs s k)"
    proof (rule pc_good_stable [OF _ sizes(1)])
      show "cur s k \<le> c k" for k using mono(1) by (simp add: c_def)
      show "f k \<in> {Published, Reading}" if "ph s k \<in> {Published, Reading}" "c k = cur s k" for k
        using that mono(2) unfolding f_def c_def by (auto split: if_splits)
      show "c (x mod n) = cur s (x mod n) \<and> f (x mod n) = ph s (x mod n) \<and> buf ! (x mod n) = buffer (ab s) ! (x mod n)"
        if "owned (race_pcs s k) = Some x" for x using free [OF False that] by (simp add: c_def f_def buf_def)
    qed
    then show ?thesis using False by simp
  qed
  have owners: "x mod n \<noteq> y mod n" if "k \<noteq> m" "owned (((race_pcs s)(i := pc)) k) = Some x"
    "owned (((race_pcs s)(i := pc)) m) = Some y" for k m x y
    using race_invD(9) [OF inv that(1), of x y] that free [of k x] free [of m y] pc(2) [of x] pc(2) [of y] unfolding n_def by (auto split: if_splits)
  have logs: "list_all valid_event (pushes s @ l)" using race_invD(4) [OF inv] sizes(4) by simp
  have dl': "\<forall>(x, d)\<in>set dl. x < c (x mod n) \<and> x < t' \<and> x < length (pushes s @ l) \<and> d = (pushes s @ l) ! x"
    using dl(2) by blast
  show ?thesis unfolding race_inv_def Let_def race.select_convs n' unfolding a'(1)
    using sized a'(3,4) logs sizes(2,3) slots pcs owners dl(1) dl' by blast
qed

section \<open>Every step keeps the invariant\<close>

abbreviation in_bounds :: "race \<Rightarrow> bool" where
  "in_bounds s \<equiv> length (pushes s) + length (buffer (ab s)) < 2 ^ 64"

lemma slot_bounds:
  assumes "race_inv s" and "in_bounds s" and "k < length (buffer (ab s))"
  shows "cur s k mod length (buffer (ab s)) = k" and "cur s k + 1 < 2 ^ 64"
  using race_invD(7) [OF assms(1,3)] race_invD(5) [OF assms(1)] assms(2) by (auto simp: slot_good_def)

lemma push_sees:
  assumes inv: "race_inv s" and b: "in_bounds s" and x: "x \<le> length (pushes s)"
    and seq: "sequence (buffer (ab s) ! (x mod length (buffer (ab s)))) = word_of_nat x"
  shows "cur s (x mod length (buffer (ab s))) = x"
proof -
  let ?n = "length (buffer (ab s))"
  note size = sizedD [OF race_invD(1) [OF inv]]
  note k = slot_bounds [OF inv b size(3) [of x]]
  let ?p = "cur s (x mod ?n)"
  have "(word_of_nat x :: usize) = word_of_nat ?p \<or> (word_of_nat x :: usize) = word_of_nat (?p + 1)"
    using race_invD(7) [OF inv size(3) [of x]] seq
    by (cases "ph s (x mod ?n)") (simp_all add: slot_good_def)
  then have "x = ?p \<or> x = ?p + 1" using word_inj [of x] k(2) x b by auto
  moreover have "x \<noteq> ?p + 1" using next_slot [OF size(1), of ?p] k(1) by metis
  ultimately show ?thesis by simp
qed

lemma pop_sees:
  assumes inv: "race_inv s" and b: "in_bounds s" and x: "x \<le> pops s"
    and seq: "sequence (buffer (ab s) ! (x mod length (buffer (ab s)))) = word_of_nat x + 1"
  shows "cur s (x mod length (buffer (ab s))) = x \<and> x < length (pushes s) \<and> ph s (x mod length (buffer (ab s))) \<in> {Published, Reading}"
proof -
  let ?n = "length (buffer (ab s))"
  note size = sizedD [OF race_invD(1) [OF inv]]
  note k = slot_bounds [OF inv b size(3) [of x]]
  let ?p = "cur s (x mod ?n)"
  have seq': "sequence (buffer (ab s) ! (x mod ?n)) = word_of_nat (x + 1)" using seq by simp
  have x1: "x + 1 < 2 ^ 64" using x race_invD(5) [OF inv] b size(1) by linarith
  have "?p \<noteq> x + 1" using next_slot [OF size(1), of x] k(1) by metis
  then have ne: "(word_of_nat (x + 1) :: usize) \<noteq> word_of_nat ?p" using word_inj [OF x1, of ?p] k(2) by auto
  note g = race_invD(7) [OF inv size(3) [of x], unfolded slot_good_def seq']
  have f: "ph s (x mod ?n) \<in> {Published, Reading}" using g ne by (cases "ph s (x mod ?n)") simp_all
  then have "(word_of_nat (x + 1) :: usize) = word_of_nat (?p + 1)" "?p < length (pushes s)"
    using g by (auto simp del: of_nat_add of_nat_Suc)
  then show ?thesis using word_inj [OF x1 k(2)] f by simp
qed

lemma push_claims:
  assumes inv: "race_inv s" and b: "in_bounds s" and pc: "race_pcs s i = PushCas h x d" and h: "head (ab s) = h"
  defines "n \<equiv> length (buffer (ab s))"
  shows "x = length (pushes s)" and "cur s (x mod n) = x" and "ph s (x mod n) = Free" and "x < pops s + n"
    and "slot_ix s h = x mod n" and "h = word_of_nat x" and "valid_event d"
proof -
  note size = sizedD [OF race_invD(1) [OF inv]]
  have g: "h = word_of_nat x" "x \<le> length (pushes s)" "x \<le> cur s (x mod n)" "valid_event d"
    using race_invD(8) [OF inv, of i] pc by (auto simp: n_def)
  then show "h = word_of_nat x" "valid_event d" by simp_all
  show x: "x = length (pushes s)" using word_inj [of x "length (pushes s)"] g race_invD(2) [OF inv] h b by simp
  show "slot_ix s h = x mod n" using size(2) [of x] g(1) by (simp add: n_def)
  have sl: "slot_good n (pops s) (pushes s) (x mod n) (buffer (ab s) ! (x mod n)) (cur s (x mod n)) (ph s (x mod n))"
    using race_invD(7) [OF inv size(3) [of x]] by (simp add: n_def)
  then show "ph s (x mod n) = Free" using x g(3) race_invD(5) [OF inv]
    by (cases "ph s (x mod n)") (auto simp: slot_good_def)
  have "cur s (x mod n) < x + n" using sl x race_invD(5) [OF inv] by (auto simp: slot_good_def)
  then have "\<not> x < cur s (x mod n)" using same_slot_le [of x n "cur s (x mod n)"] sl by (auto simp: slot_good_def)
  then show "cur s (x mod n) = x" using g(3) by simp
  with sl show "x < pops s + n" by (simp add: slot_good_def)
qed

lemma pop_claims:
  assumes inv: "race_inv s" and b: "in_bounds s" and pc: "race_pcs s i = PopCas t x" and t: "tail (ab s) = t"
  defines "n \<equiv> length (buffer (ab s))"
  shows "x = pops s" and "cur s (x mod n) = x" and "ph s (x mod n) = Published" and "x < length (pushes s)"
    and "slot_ix s t = x mod n" and "t = word_of_nat x"
proof -
  note size = sizedD [OF race_invD(1) [OF inv]]
  have g: "t = word_of_nat x" "x \<le> pops s" "x < length (pushes s)" "out n (cur s) (ph s) x"
    using race_invD(8) [OF inv, of i] pc by (auto simp: n_def)
  then show "t = word_of_nat x" "x < length (pushes s)" by simp_all
  show x: "x = pops s"
    using word_inj [of x "pops s"] g race_invD(3,5) [OF inv] t b by simp
  show "slot_ix s t = x mod n" using size(2) [of x] g(1) by (simp add: n_def)
  have sl: "slot_good n (pops s) (pushes s) (x mod n) (buffer (ab s) ! (x mod n)) (cur s (x mod n)) (ph s (x mod n))"
    using race_invD(7) [OF inv size(3) [of x]] by (simp add: n_def)
  then have "\<not> x < cur s (x mod n)" using same_slot_le [of x n "cur s (x mod n)"] x by (auto simp: slot_good_def)
  then show c: "cur s (x mod n) = x" using g(4) by (simp add: out_def)
  then show "ph s (x mod n) = Published" using g(4) sl x by (auto simp: out_def slot_good_def)
qed

text \<open>A claim gives the slot to a thread when no thread has it.\<close>

lemma unowned:
  assumes inv: "race_inv s" and f: "ph s j \<in> {Free, Published}" and own: "owned (race_pcs s k) = Some x"
  shows "x mod length (buffer (ab s)) \<noteq> j"
  using race_invD(8) [OF inv, of k] own f by (cases "race_pcs s k") auto

lemma other_slot:
  assumes "race_inv s" and "k < length (buffer (ab s))" and "k \<noteq> x mod length (buffer (ab s))"
  shows "cur s k \<noteq> x" and "cur s k + length (buffer (ab s)) \<noteq> x"
  using race_invD(7) [OF assms(1,2)] assms(3) by (auto simp: slot_good_def)

lemma inv_push_claim:
  assumes inv: "race_inv s" and b: "in_bounds s" and pc: "race_pcs s i = PushCas h x d" and h: "head (ab s) = h"
  shows "race_inv (go s i (PushData h x d)\<lparr>ab := (ab s)\<lparr>head := h + 1\<rparr>, pushes := pushes s @ [d],
                   ph := (ph s)(slot_ix s h := Writing)\<rparr>)"
proof -
  note c = push_claims [OF assms]
  note size = sizedD [OF race_invD(1) [OF inv]]
  let ?n = "length (buffer (ab s))" and ?j = "x mod length (buffer (ab s))"
  note sl = race_invD(7) [OF inv]
  have "race_inv \<lparr>ab = (ab s)\<lparr>head := h + 1\<rparr>, race_pcs = (race_pcs s)(i := PushData h x d), pushes = pushes s @ [d],
     pops = pops s, cur = (cur s)(?j := cur s ?j), ph = (ph s)(?j := Writing), delivered = delivered s\<rparr>"
  proof (rule race_inv_update [OF inv size(3), where e' = "buffer (ab s) ! ?j"])
    show "slot_good ?n (pops s) (pushes s @ [d]) ?j (buffer (ab s) ! ?j) (cur s ?j) Writing"
      using sl [OF size(3) [of x]] c race_invD(5) [OF inv] by (auto simp: slot_good_def)
    show "length (pushes s @ [d]) \<le> cur s k + ?n
        \<and> (ph s k \<in> {Writing, Published} \<longrightarrow> pops s \<le> cur s k) \<and> (ph s k = Free \<longrightarrow> length (pushes s @ [d]) \<le> cur s k)"
      if "k < ?n" "k \<noteq> ?j" for k
      using sl [OF that(1)] other_slot [OF inv that] c(1) by (cases "ph s k") (auto simp: slot_good_def)
    show "x' < ((cur s)(?j := cur s ?j)) (x' mod ?n) \<and> x' < pops s \<and> x' < length (pushes s @ [d]) \<and> d' = (pushes s @ [d]) ! x'"
      if "(x', d') \<in> set (delivered s)" for x' d'
      using race_invD(11) [OF inv that] by (auto simp: nth_append)
  qed (use c race_invD [OF inv] unowned [OF inv, of ?j] in \<open>auto simp: nth_append\<close>)
  then show ?thesis using c(5) by (cases s) simp
qed

lemma inv_pop_claim:
  assumes inv: "race_inv s" and b: "in_bounds s" and pc: "race_pcs s i = PopCas t x" and t: "tail (ab s) = t"
  shows "race_inv (go s i (PopData t x)\<lparr>ab := (ab s)\<lparr>tail := t + 1\<rparr>, pops := pops s + 1,
                   ph := (ph s)(slot_ix s t := Reading)\<rparr>)"
proof -
  note c = pop_claims [OF assms]
  note size = sizedD [OF race_invD(1) [OF inv]]
  let ?n = "length (buffer (ab s))" and ?j = "x mod length (buffer (ab s))"
  note sl = race_invD(7) [OF inv]
  have "race_inv \<lparr>ab = (ab s)\<lparr>tail := t + 1\<rparr>, race_pcs = (race_pcs s)(i := PopData t x), pushes = pushes s @ [],
     pops = pops s + 1, cur = (cur s)(?j := cur s ?j), ph = (ph s)(?j := Reading), delivered = delivered s\<rparr>"
  proof (rule race_inv_update [OF inv size(3), where e' = "buffer (ab s) ! ?j"])
    show "slot_good ?n (pops s + 1) (pushes s @ []) ?j (buffer (ab s) ! ?j) (cur s ?j) Reading"
      using sl [OF size(3) [of x]] c race_invD(6) [OF inv] by (auto simp: slot_good_def)
    show "length (pushes s @ []) \<le> cur s k + ?n
        \<and> (ph s k \<in> {Writing, Published} \<longrightarrow> pops s + 1 \<le> cur s k) \<and> (ph s k = Free \<longrightarrow> length (pushes s @ []) \<le> cur s k)"
      if "k < ?n" "k \<noteq> ?j" for k
      using sl [OF that(1)] other_slot [OF inv that] c(1) by (cases "ph s k") (auto simp: slot_good_def)
    show "x' < ((cur s)(?j := cur s ?j)) (x' mod ?n) \<and> x' < pops s + 1 \<and> x' < length (pushes s @ []) \<and> d' = (pushes s @ []) ! x'"
      if "(x', d') \<in> set (delivered s)" for x' d'
      using race_invD(11) [OF inv that] by (auto simp: nth_append)
  qed (use c race_invD [OF inv] unowned [OF inv, of ?j] in \<open>auto\<close>)
  then show ?thesis using c(5) by (cases s) simp
qed

text \<open>A step of the owner of a slot: nobody else notices, and the counters stay.\<close>

lemma race_inv_own:
  fixes s x
  defines "n \<equiv> length (buffer (ab s))"
  defines "j \<equiv> x mod n"
  assumes inv: "race_inv s" and own: "owned (race_pcs s i) = Some x"
    and slot: "slot_good n (pops s) (pushes s) j e' p' f'"
    and mono: "cur s j \<le> p'" "ph s j \<in> {Published, Reading} \<Longrightarrow> p' = cur s j \<Longrightarrow> f' \<in> {Published, Reading}"
    and pc: "pc_good n (pops s) (pushes s) ((cur s)(j := p')) ((ph s)(j := f')) ((buffer (ab s))[j := e']) pc"
      "\<And>y. owned pc = Some y \<Longrightarrow> y = x"
    and dl: "distinct (map fst (delivered s @ new))"
      "\<And>y d. (y, d) \<in> set new \<Longrightarrow> y < ((cur s)(j := p')) (y mod n) \<and> y < pops s \<and> y < length (pushes s) \<and> d = pushes s ! y"
  shows "race_inv \<lparr>ab = (ab s)\<lparr>buffer := (buffer (ab s))[j := e']\<rparr>, race_pcs = (race_pcs s)(i := pc), pushes = pushes s @ [],
           pops = pops s, cur = (cur s)(j := p'), ph = (ph s)(j := f'), delivered = delivered s @ new\<rparr>"
proof -
  note size = sizedD [OF race_invD(1) [OF inv]]
  have dl': "y < ((cur s)(j := p')) (y mod n) \<and> y < pops s \<and> y < length (pushes s) \<and> d = pushes s ! y"
    if "(y, d) \<in> set (delivered s @ new)" for y d
    using that dl(2) [of y d] race_invD(11) [OF inv, of y d] mono(1) unfolding n_def by auto
  show ?thesis unfolding j_def n_def
  proof (rule race_inv_update [OF inv size(3)])
    show "length (pushes s @ []) \<le> cur s k + length (buffer (ab s))
        \<and> (ph s k \<in> {Writing, Published} \<longrightarrow> pops s \<le> cur s k) \<and> (ph s k = Free \<longrightarrow> length (pushes s @ []) \<le> cur s k)"
      if "k < length (buffer (ab s))" for k
      using race_invD(7) [OF inv that] by (cases "ph s k") (auto simp: slot_good_def)
    show "y mod length (buffer (ab s)) \<noteq> x mod length (buffer (ab s))"
      if "k \<noteq> i" "owned (race_pcs s k) = Some y" for k y using race_invD(9) [OF inv that(1,2) own] .
  qed (use assms dl' race_invD [OF inv] in \<open>auto\<close>)
qed

lemma owner_slot:
  assumes inv: "race_inv s" and own: "owned (race_pcs s i) = Some x"
  shows "slot_good (length (buffer (ab s))) (pops s) (pushes s) (x mod length (buffer (ab s)))
     (buffer (ab s) ! (x mod length (buffer (ab s)))) x (ph s (x mod length (buffer (ab s))))"
    and "cur s (x mod length (buffer (ab s))) = x" and "x < length (pushes s)"
    and "unat (word_of_nat x AND ab_mask (ab s)) = x mod length (buffer (ab s))"
    and "x mod length (buffer (ab s)) < length (buffer (ab s))"
proof -
  note size = sizedD [OF race_invD(1) [OF inv]]
  have "cur s (x mod length (buffer (ab s))) = x \<and> x < length (pushes s)"
    using race_invD(8) [OF inv, of i] own by (cases "race_pcs s i") simp_all
  then show c: "cur s (x mod length (buffer (ab s))) = x" and "x < length (pushes s)" by simp_all
  show "slot_good (length (buffer (ab s))) (pops s) (pushes s) (x mod length (buffer (ab s)))
     (buffer (ab s) ! (x mod length (buffer (ab s)))) x (ph s (x mod length (buffer (ab s))))"
    using race_invD(7) [OF inv size(3) [of x]] by (simp add: c)
qed (rule sizedD [OF race_invD(1) [OF inv]])+

lemma inv_push_data:
  assumes inv: "race_inv s" and pc: "race_pcs s i = PushData h x d"
  shows "race_inv (go s i (PushPub h x d)\<lparr>ab := set_slot s h ((at_slot s h)\<lparr>ev_data := encode_event d\<rparr>)\<rparr>)"
proof -
  have own: "owned (race_pcs s i) = Some x" by (simp add: pc)
  note o = owner_slot [OF inv own]
  let ?j = "x mod length (buffer (ab s))"
  let ?e = "(buffer (ab s) ! ?j)\<lparr>ev_data := encode_event d\<rparr>"
  have g: "h = word_of_nat x" "d = pushes s ! x" "ph s ?j = Writing" using race_invD(8) [OF inv, of i] pc by auto
  have "race_inv \<lparr>ab = (ab s)\<lparr>buffer := (buffer (ab s))[?j := ?e]\<rparr>, race_pcs = (race_pcs s)(i := PushPub h x d),
     pushes = pushes s @ [], pops = pops s, cur = (cur s)(?j := x), ph = (ph s)(?j := Writing), delivered = delivered s @ []\<rparr>"
  proof (rule race_inv_own [OF inv own])
    show "slot_good (length (buffer (ab s))) (pops s) (pushes s) ?j ?e x Writing"
      using o(1) g(3) by (simp add: slot_good_def)
  qed (use o g race_invD(10) [OF inv] in auto)
  moreover have "(cur s)(?j := x) = cur s" "(ph s)(?j := Writing) = ph s" using o(2) g(3) by (simp_all add: fun_upd_idem)
  ultimately show ?thesis using o(4) g(1) by (cases s) simp
qed

lemma inv_push_pub:
  assumes inv: "race_inv s" and pc: "race_pcs s i = PushPub h x d"
  shows "race_inv (go s i Idle\<lparr>ab := set_slot s h ((at_slot s h)\<lparr>sequence := h + 1\<rparr>),
                   ph := (ph s)(slot_ix s h := Published)\<rparr>)"
proof -
  have own: "owned (race_pcs s i) = Some x" by (simp add: pc)
  note o = owner_slot [OF inv own]
  let ?j = "x mod length (buffer (ab s))"
  let ?e = "(buffer (ab s) ! ?j)\<lparr>sequence := h + 1\<rparr>"
  have g: "h = word_of_nat x" "d = pushes s ! x" "ph s ?j = Writing" "ev_data (buffer (ab s) ! ?j) = encode_event d"
    using race_invD(8) [OF inv, of i] pc by auto
  have "race_inv \<lparr>ab = (ab s)\<lparr>buffer := (buffer (ab s))[?j := ?e]\<rparr>, race_pcs = (race_pcs s)(i := Idle),
     pushes = pushes s @ [], pops = pops s, cur = (cur s)(?j := x), ph = (ph s)(?j := Published), delivered = delivered s @ []\<rparr>"
  proof (rule race_inv_own [OF inv own])
    show "slot_good (length (buffer (ab s))) (pops s) (pushes s) ?j ?e x Published"
      using o(1) g by (simp add: slot_good_def)
  qed (use o g race_invD(10) [OF inv] in auto)
  moreover have "(cur s)(?j := x) = cur s" using o(2) by (simp add: fun_upd_idem)
  ultimately show ?thesis using o(4) g(1) by (cases s) simp
qed

lemma inv_pop_rel:
  assumes inv: "race_inv s" and pc: "race_pcs s i = PopRel t x d"
  shows "race_inv (go s i Idle\<lparr>ab := set_slot s t ((at_slot s t)\<lparr>sequence := t + word_of_nat (length (buffer (ab s)))\<rparr>),
                   cur := (cur s)(slot_ix s t := x + length (buffer (ab s))), ph := (ph s)(slot_ix s t := Free),
                   delivered := delivered s @ [(x, decode_event d)]\<rparr>)"
proof -
  have own: "owned (race_pcs s i) = Some x" by (simp add: pc)
  note o = owner_slot [OF inv own]
  note size = sizedD [OF race_invD(1) [OF inv]]
  let ?n = "length (buffer (ab s))"
  let ?j = "x mod ?n" and ?d = "delivered s @ [(x, decode_event d)]"
  let ?e = "(buffer (ab s) ! ?j)\<lparr>sequence := t + word_of_nat ?n\<rparr>"
  have g: "t = word_of_nat x" "d = encode_event (pushes s ! x)" "ph s ?j = Reading"
    using race_invD(8) [OF inv, of i] pc by auto
  have x: "x < pops s" using o(1) g(3) by (simp add: slot_good_def)
  have "valid_event (pushes s ! x)" using race_invD(4) [OF inv] o(3) by (simp add: list_all_length)
  then have d: "decode_event d = pushes s ! x" using decode_encode_event g(2) by (cases "pushes s ! x") simp
  have "x \<notin> fst ` set (delivered s)" using race_invD(11) [OF inv, of x] o(2) by fastforce
  then have dist: "distinct (map fst ?d)" using race_invD(10) [OF inv] by auto
  have "race_inv \<lparr>ab = (ab s)\<lparr>buffer := (buffer (ab s))[?j := ?e]\<rparr>, race_pcs = (race_pcs s)(i := Idle),
     pushes = pushes s @ [], pops = pops s, cur = (cur s)(?j := x + ?n), ph = (ph s)(?j := Free), delivered = ?d\<rparr>"
  proof (rule race_inv_own [OF inv own])
    show "slot_good ?n (pops s) (pushes s) ?j ?e (x + ?n) Free"
      using o(1) g x by (simp add: slot_good_def)
    show "y < ((cur s)(?j := x + ?n)) (y mod ?n) \<and> y < pops s \<and> y < length (pushes s) \<and> e = pushes s ! y"
      if "(y, e) \<in> set [(x, decode_event d)]" for y e using that x o(3) d size(1) by auto
  qed (use o(2) size(1) dist in auto)
  then show ?thesis using o(2,4) g by (cases s) auto
qed

lemma race_step_inv:
  assumes "race_step s s'" and "race_inv s" and "in_bounds s"
  shows "race_inv s'"
  using assms(1)
proof cases
  case (push_seen i h x d)
  note g = race_invD(8) [OF assms(2), of i, unfolded push_seen(2), simplified]
  have "slot_ix s h = x mod length (buffer (ab s))" using sizedD(2) [OF race_invD(1) [OF assms(2)]] g by simp
  then have "cur s (x mod length (buffer (ab s))) = x" using push_sees [OF assms(2,3)] g push_seen(3) by simp
  then show ?thesis using race_inv_move [OF assms(2), of "PushCas h x d" i] g unfolding push_seen(1) by simp
next
  case (pop_seen i t x)
  note g = race_invD(8) [OF assms(2), of i, unfolded pop_seen(2), simplified]
  have "slot_ix s t = x mod length (buffer (ab s))" using sizedD(2) [OF race_invD(1) [OF assms(2)]] g by simp
  then have "out (length (buffer (ab s))) (cur s) (ph s) x" "x < length (pushes s)"
    using pop_sees [OF assms(2,3), of x] g pop_seen(3) by (auto simp: out_def)
  then show ?thesis using race_inv_move [OF assms(2), of "PopCas t x" i] g unfolding pop_seen(1) by simp
next
  case (pop_data i t x)
  note o = owner_slot [OF assms(2), of i x]
  note g = race_invD(8) [OF assms(2), of i, unfolded pop_data(2), simplified]
  have "ev_data (at_slot s t) = encode_event (pushes s ! x)" using o g pop_data(2) by (simp add: slot_good_def)
  then show ?thesis using race_inv_move [OF assms(2), of "PopRel t x (ev_data (at_slot s t))" i] g pop_data(2)
    unfolding pop_data(1) by simp
next
  case (push_claim i h x d)
  show ?thesis unfolding push_claim(1) by (rule inv_push_claim [OF assms(2,3) push_claim(2,3)])
next
  case (pop_claim i t x)
  show ?thesis unfolding pop_claim(1) by (rule inv_pop_claim [OF assms(2,3) pop_claim(2,3)])
qed (use assms(2) race_invD(2,3) [OF assms(2)] in \<open>auto intro: race_inv_move inv_push_data inv_push_pub inv_pop_rel\<close>)

section \<open>Nothing is lost\<close>

definition in_hand :: "(nat \<Rightarrow> race_pc) \<Rightarrow> nat set" where
  "in_hand pcs = {x. \<exists>k. owned (pcs k) = Some x}"

text \<open>A claimed position has been delivered or a thread is at it, and so is every slot that is
  being written or read.\<close>

definition accounted :: "race \<Rightarrow> bool" where
  "accounted s \<longleftrightarrow> {..<pops s} \<subseteq> fst ` set (delivered s) \<union> in_hand (race_pcs s)
     \<and> (\<forall>k<length (buffer (ab s)). ph s k \<in> {Writing, Reading} \<longrightarrow> cur s k \<in> in_hand (race_pcs s))"

lemma in_hand_move: "owned pc = owned (pcs i) \<Longrightarrow> in_hand (pcs(i := pc)) = in_hand pcs"
  unfolding in_hand_def by auto

lemma in_hand_gain: "owned (pcs i) = None \<Longrightarrow> owned pc = Some x \<Longrightarrow> in_hand (pcs(i := pc)) = insert x (in_hand pcs)"
  unfolding in_hand_def by auto (metis option.distinct(1))

lemma in_hand_drop: "owned (pcs i) = Some x \<Longrightarrow> y \<in> in_hand pcs \<Longrightarrow> y \<noteq> x \<Longrightarrow> y \<in> in_hand (pcs(i := Idle))"
  unfolding in_hand_def by auto (metis option.inject)

lemma accounted_drop:
  assumes inv: "race_inv s" and acc: "accounted s" and own: "owned (race_pcs s i) = Some x"
  shows "x < pops s \<longrightarrow> x \<in> fst ` D \<Longrightarrow> set (delivered s) \<subseteq> D \<Longrightarrow> {..<pops s} \<subseteq> fst ` D \<union> in_hand ((race_pcs s)(i := Idle))"
    and "k < length (buffer (ab s)) \<Longrightarrow> k \<noteq> x mod length (buffer (ab s)) \<Longrightarrow> ph s k \<in> {Writing, Reading} \<Longrightarrow>
      cur s k \<in> in_hand ((race_pcs s)(i := Idle))"
proof -
  note drop = in_hand_drop [where pcs = "race_pcs s" and i = i, OF own]
  assume D: "x < pops s \<longrightarrow> x \<in> fst ` D" "set (delivered s) \<subseteq> D"
  show "{..<pops s} \<subseteq> fst ` D \<union> in_hand ((race_pcs s)(i := Idle))"
  proof
    fix y
    assume y: "y \<in> {..<pops s}"
    then have "y \<in> fst ` set (delivered s) \<union> in_hand (race_pcs s)" using acc unfolding accounted_def by blast
    then show "y \<in> fst ` D \<union> in_hand ((race_pcs s)(i := Idle))" using y D drop [of y] by (cases "y = x") auto
  qed
next
  assume k: "k < length (buffer (ab s))" "k \<noteq> x mod length (buffer (ab s))" "ph s k \<in> {Writing, Reading}"
  show "cur s k \<in> in_hand ((race_pcs s)(i := Idle))"
    using acc k other_slot(1) [OF inv k(1,2)] unfolding accounted_def
    by (intro in_hand_drop [where pcs = "race_pcs s" and i = i, OF own]) blast+
qed

lemma accounted_step:
  assumes "race_step s s'" and inv: "race_inv s" and "in_bounds s" and acc: "accounted s"
  shows "accounted s'"
  using assms(1)
proof cases
  case (push_claim i h x d)
  note c = push_claims [OF inv assms(3) push_claim(2,3)]
  have "in_hand ((race_pcs s)(i := PushData h x d)) = insert x (in_hand (race_pcs s))"
    by (rule in_hand_gain) (simp_all add: push_claim(2))
  then show ?thesis using acc c(2,5) unfolding push_claim(1) accounted_def by auto
next
  case (pop_claim i t x)
  note c = pop_claims [OF inv assms(3) pop_claim(2,3)]
  have "in_hand ((race_pcs s)(i := PopData t x)) = insert x (in_hand (race_pcs s))"
    by (rule in_hand_gain) (simp_all add: pop_claim(2))
  then show ?thesis using acc c(1,2,5) unfolding pop_claim(1) accounted_def by (auto simp: less_Suc_eq)
next
  case (push_pub i h x d)
  have own: "owned (race_pcs s i) = Some x" by (simp add: push_pub(2))
  note o = owner_slot [OF inv own] and g = race_invD(8) [OF inv, of i, unfolded push_pub(2), simplified]
  have "pops s \<le> x" using o(1) g by (simp add: slot_good_def)
  moreover have "slot_ix s h = x mod length (buffer (ab s))" using o(4) g by simp
  ultimately show ?thesis using accounted_drop [OF inv acc own] unfolding push_pub(1) accounted_def by simp
next
  case (pop_rel i t x d)
  have own: "owned (race_pcs s i) = Some x" by (simp add: pop_rel(2))
  note o = owner_slot [OF inv own] and g = race_invD(8) [OF inv, of i, unfolded pop_rel(2), simplified]
  have "slot_ix s t = x mod length (buffer (ab s))" using o(4) g by simp
  moreover have "{..<pops s} \<subseteq> fst ` set (delivered s @ [(x, decode_event d)]) \<union> in_hand ((race_pcs s)(i := Idle))"
    by (rule accounted_drop(1) [OF inv acc own]) auto
  ultimately show ?thesis using accounted_drop(2) [OF inv acc own] unfolding pop_rel(1) accounted_def by simp
qed (use acc in \<open>simp_all add: accounted_def in_hand_move\<close>)

lemma race_step_grows:
  "race_step s s' \<Longrightarrow> length (pushes s) \<le> length (pushes s') \<and> length (buffer (ab s')) = length (buffer (ab s))"
  by (auto elim!: race_stepE)

lemma race_start_inv:
  assumes "ring a 0 0"
  shows "race_inv (race_start a)" and "accounted (race_start a)"
proof -
  note size = ring_size [OF assms]
  have "sequence (buffer a ! i) = word_of_nat i" if "i < length (buffer a)" for i
  proof -
    have "\<forall>p. 0 \<le> p \<longrightarrow> p < 0 + length (buffer a) \<longrightarrow>
        sequence (buffer a ! (p mod length (buffer a))) = word_of_nat (if p < 0 then p + 1 else p)"
      using assms unfolding ring_def by blast
    then show ?thesis using that by simp
  qed
  then have "\<forall>i<length (buffer a). slot_good (length (buffer a)) 0 [] i (buffer a ! i) i Free"
    by (simp add: slot_good_def)
  moreover have "sized a" "head a = 0" "tail a = 0" using assms by (auto simp: ring_def sized_def)
  ultimately show "race_inv (race_start a)" unfolding race_inv_def Let_def race_start_def by simp
  show "accounted (race_start a)" by (simp add: accounted_def race_start_def)
qed

lemma race_reachable_inv:
  assumes "race_reachable n s" and "n \<le> 2 ^ 58" and "in_bounds s"
  shows "race_inv s \<and> accounted s"
  using assms(1,3)
proof (induction rule: race_reachable.induct)
  case (start a)
  obtain a' where "buffer_new n = Inr a'" "ring a' 0 0" using buffer_new_ok [OF assms(2)] by blast
  then have "ring a 0 0" using start(1) by simp
  then show ?case using race_start_inv by blast
next
  case (step s s')
  have "in_bounds s" using race_step_grows [OF step(2)] step.prems by simp
  then show ?case using step race_step_inv accounted_step by blast
qed

text \<open>Between operations the ring is the one of the sequential model.\<close>

lemma quiescent_ring:
  assumes inv: "race_inv s" and acc: "accounted s" and idle: "\<forall>k. race_pcs s k = Idle"
  shows "ring (ab s) (length (pushes s)) (pops s)" and "pending (ab s) = drop (pops s) (pushes s)"
    and "fst ` set (delivered s) = {..<pops s}"
proof -
  let ?n = "length (buffer (ab s))"
  note size = sizedD [OF race_invD(1) [OF inv]]
  have none: "in_hand (race_pcs s) = {}" using idle by (simp add: in_hand_def)
  show "fst ` set (delivered s) = {..<pops s}"
    using acc race_invD(11) [OF inv] unfolding accounted_def none by force
  have pos: "cur s (p mod ?n) = p \<and> ph s (p mod ?n) = (if p < length (pushes s) then Published else Free)"
    if "pops s \<le> p" "p < pops s + ?n" for p
  proof -
    note sl = race_invD(7) [OF inv size(3) [of p]]
    have f: "ph s (p mod ?n) \<in> {Free, Published}" using acc size(3) [of p] unfolding accounted_def none
      by (cases "ph s (p mod ?n)") auto
    then have "pops s \<le> cur s (p mod ?n)" "cur s (p mod ?n) < pops s + ?n" "cur s (p mod ?n) mod ?n = p mod ?n"
      using sl race_invD(5) [OF inv] by (auto simp: slot_good_def)
    then have "cur s (p mod ?n) = p" using ring_positions that by blast
    then show ?thesis using f sl by (auto simp: slot_good_def)
  qed
  have sl: "slot_good ?n (pops s) (pushes s) (p mod ?n) (buffer (ab s) ! (p mod ?n)) p (if p < length (pushes s) then Published else Free)"
    if "pops s \<le> p" "p < pops s + ?n" for p using race_invD(7) [OF inv size(3) [of p]] pos [OF that] by simp
  have "sequence (buffer (ab s) ! (p mod ?n)) = word_of_nat (if p < length (pushes s) then p + 1 else p)"
    if "pops s \<le> p" "p < pops s + ?n" for p using sl [OF that] by (simp add: slot_good_def split: if_splits)
  then show r: "ring (ab s) (length (pushes s)) (pops s)"
    using race_invD(1,2,3,5,6) [OF inv] unfolding ring_def sized_def by blast
  have "decode_event (ev_data (buffer (ab s) ! (p mod ?n))) = pushes s ! p" if "pops s \<le> p" "p < length (pushes s)" for p
  proof -
    have "valid_event (pushes s ! p)" using race_invD(4) [OF inv] that by (simp add: list_all_length)
    then have "decode_event (encode_event (pushes s ! p)) = pushes s ! p" using decode_encode_event by (cases "pushes s ! p") simp
    then show ?thesis using sl [of p] that race_invD(6) [OF inv] by (simp add: slot_good_def)
  qed
  then show "pending (ab s) = drop (pops s) (pushes s)"
    unfolding pending_ring [OF r] by (intro nth_equalityI) auto
qed

section \<open>Nobody waits\<close>

text \<open>The atomic operations a thread has left in its current call, at most.\<close>

fun remaining :: "race_pc \<Rightarrow> nat" where
  "remaining Idle = 0"
| "remaining (PushSeq h x d) = 4" | "remaining (PushCas h x d) = 3"
| "remaining (PushData h x d) = 2" | "remaining (PushPub h x d) = 1"
| "remaining (PopSeq t x) = 4" | "remaining (PopCas t x) = 3"
| "remaining (PopData t x) = 2" | "remaining (PopRel t x d) = 1"

lemma own_step:
  assumes "race_pcs s i \<noteq> Idle"
  shows "\<exists>s'. race_step s s' \<and> remaining (race_pcs s' i) < remaining (race_pcs s i)
     \<and> (\<forall>j. j \<noteq> i \<longrightarrow> race_pcs s' j = race_pcs s j)"
proof (cases "race_pcs s i")
  case Idle
  then show ?thesis using assms by simp
next
  case (PushSeq h x d)
  then show ?thesis using race_step.push_full [OF PushSeq] race_step.push_seen [OF PushSeq]
    by (cases "sequence (at_slot s h) = h") (force intro!: exI)+
next
  case (PushCas h x d)
  then show ?thesis using race_step.push_fail [OF PushCas] race_step.push_claim [OF PushCas]
    by (cases "head (ab s) = h") (force intro!: exI)+
next
  case (PushData h x d)
  then show ?thesis using race_step.push_data [OF PushData] by (force intro!: exI)
next
  case (PushPub h x d)
  then show ?thesis using race_step.push_pub [OF PushPub] by (force intro!: exI)
next
  case (PopSeq t x)
  then show ?thesis using race_step.pop_empty [OF PopSeq] race_step.pop_seen [OF PopSeq]
    by (cases "sequence (at_slot s t) = t + 1") (force intro!: exI)+
next
  case (PopCas t x)
  then show ?thesis using race_step.pop_fail [OF PopCas] race_step.pop_claim [OF PopCas]
    by (cases "tail (ab s) = t") (force intro!: exI)+
next
  case (PopData t x)
  then show ?thesis using race_step.pop_data [OF PopData] by (force intro!: exI)
next
  case (PopRel t x d)
  then show ?thesis using race_step.pop_rel [OF PopRel] by (force intro!: exI)
qed

lemma runs_alone:
  "\<exists>k s'. k \<le> remaining (race_pcs s i) \<and> (race_step ^^ k) s s' \<and> race_pcs s' i = Idle
     \<and> (\<forall>j. j \<noteq> i \<longrightarrow> race_pcs s' j = race_pcs s j)"
proof (induction "remaining (race_pcs s i)" arbitrary: s rule: less_induct)
  case less
  show ?case
  proof (cases "race_pcs s i = Idle")
    case True
    then show ?thesis by (intro exI [of _ 0] exI [of _ s]) simp
  next
    case False
    then obtain s1 where s1: "race_step s s1" "remaining (race_pcs s1 i) < remaining (race_pcs s i)"
      "\<forall>j. j \<noteq> i \<longrightarrow> race_pcs s1 j = race_pcs s j" using own_step by blast
    from less [OF s1(2)] obtain k s2 where s2: "k \<le> remaining (race_pcs s1 i)" "(race_step ^^ k) s1 s2"
      "race_pcs s2 i = Idle" "\<forall>j. j \<noteq> i \<longrightarrow> race_pcs s2 j = race_pcs s1 j" by blast
    have "(race_step ^^ Suc k) s s2" using relpowp_Suc_I2 [of race_step s s1 k s2, OF s1(1) s2(2)] .
    then show ?thesis using s1 s2 by (intro exI [of _ "Suc k"] exI [of _ s2]) auto
  qed
qed

section \<open>Properties\<close>

text \<open>
  C18: the access buffer under contention. However the atomic operations of producers and consumers
  interleave (before the counters wrap), no two threads work on the same slot, no claimed position is
  delivered twice, every delivered event is exactly the event pushed at its position, and at most a
  buffer full of events is outstanding. Whenever no thread is inside an operation, every claimed event
  has been delivered and the ring holds exactly the pushed events that have not been, in order.
\<close>

theorem buffer_race_free:
  assumes "race_reachable n s" and "n \<le> 2 ^ 58" and "length (pushes s) + length (buffer (ab s)) < 2 ^ 64"
  shows "(\<forall>i j x y. i \<noteq> j \<longrightarrow> owned (race_pcs s i) = Some x \<longrightarrow> owned (race_pcs s j) = Some y \<longrightarrow>
        x mod length (buffer (ab s)) \<noteq> y mod length (buffer (ab s)))
     \<and> distinct (map fst (delivered s))
     \<and> (\<forall>(x, e)\<in>set (delivered s). x < pops s \<and> e = pushes s ! x)
     \<and> pops s \<le> length (pushes s) \<and> length (pushes s) \<le> pops s + length (buffer (ab s))
     \<and> ((\<forall>i. race_pcs s i = Idle) \<longrightarrow>
          fst ` set (delivered s) = {..<pops s} \<and> buffer_inv (ab s) \<and> pending (ab s) = drop (pops s) (pushes s))"
proof -
  have inv: "race_inv s" "accounted s" using race_reachable_inv [OF assms] by blast+
  show ?thesis
    using race_invD(5,6,9,10,11) [OF inv(1)] quiescent_ring [OF inv] unfolding buffer_inv_def by blast
qed

theorem buffer_race_free_witness:
  "\<exists>s. race_reachable 64 s \<and> pushes s = [(5, 3)] \<and> pops s = 0 \<and> owned (race_pcs s 1) = Some 0
     \<and> distinct (map fst (delivered s)) \<and> length (pushes s) \<le> length (buffer (ab s))"
proof -
  have "(64 :: nat) \<le> 2 ^ 58" by simp
  then obtain a where a: "buffer_new 64 = Inr a" "ring a 0 0" "64 \<le> length (buffer a)" by (rule buffer_new_ok)
  note z = ring_size [OF a(2)]
  let ?s0 = "race_start a"
  let ?s1 = "go ?s0 1 (PushSeq (head (ab ?s0)) (length (pushes ?s0)) (5, 3))"
  let ?s2 = "go ?s1 1 (PushCas (head a) 0 (5, 3))"
  let ?s3 = "go ?s2 1 (PushData (head a) 0 (5, 3))\<lparr>ab := (ab ?s2)\<lparr>head := head a + 1\<rparr>, pushes := pushes ?s2 @ [(5, 3)],
     ph := (ph ?s2)(slot_ix ?s2 (head a) := Writing)\<rparr>"
  have h: "head a = 0" using a(2) by (simp add: ring_def)
  have q: "sequence (buffer a ! 0) = 0" using race_invD(7) [OF race_start_inv(1) [OF a(2)], of 0] z(1)
    by (simp add: race_start_def slot_good_def)
  have r0: "race_reachable 64 ?s0" by (rule race_reachable.start [OF a(1)])
  have r1: "race_reachable 64 ?s1"
    by (rule race_reachable.step [OF r0 race_step.push_load]) (simp_all add: race_start_def valid_event_def)
  have r2: "race_reachable 64 ?s2"
    by (rule race_reachable.step [OF r1 race_step.push_seen]) (simp_all add: race_start_def h q)
  have r3: "race_reachable 64 ?s3"
    by (rule race_reachable.step [OF r2 race_step.push_claim]) (simp_all add: race_start_def)
  have "length (pushes ?s3) + length (buffer (ab ?s3)) < 2 ^ 64" using z(3) by (simp add: race_start_def)
  from buffer_race_free [OF r3 _ this] r3 show ?thesis by (intro exI [of _ ?s3]) (auto simp: race_start_def)
qed

text \<open>
  C19: push and pop are wait-free. In every state, whatever the other threads are in the middle of, a
  thread inside \<^verbatim>\<open>push\<close> or \<^verbatim>\<open>pop\<close> can finish by at most four atomic operations of its own; each of
  its own steps brings it nearer to the end of its call, and no step of another thread sets it back.
\<close>

theorem buffer_wait_free:
  "remaining (race_pcs s i) \<le> 4
   \<and> (\<exists>k s'. k \<le> remaining (race_pcs s i) \<and> (race_step ^^ k) s s' \<and> race_pcs s' i = Idle
        \<and> (\<forall>j. j \<noteq> i \<longrightarrow> race_pcs s' j = race_pcs s j))
   \<and> (\<forall>s'. race_step s s' \<longrightarrow> race_pcs s i \<noteq> Idle \<longrightarrow>
        race_pcs s' i = race_pcs s i \<or> remaining (race_pcs s' i) < remaining (race_pcs s i))"
proof (intro conjI allI impI)
  show "remaining (race_pcs s i) \<le> 4" by (cases "race_pcs s i") auto
  show "race_pcs s' i = race_pcs s i \<or> remaining (race_pcs s' i) < remaining (race_pcs s i)"
    if "race_step s s'" "race_pcs s i \<noteq> Idle" for s' using that by (auto elim!: race_stepE)
qed (rule runs_alone)

theorem buffer_wait_free_witness:
  "\<exists>a k s'. buffer_new 64 = Inr a \<and> k \<le> 4
     \<and> (race_step ^^ k) (go (race_start a) 0 (PushSeq (head a) 0 (5, 3))) s' \<and> race_pcs s' 0 = Idle"
proof -
  have "(64 :: nat) \<le> 2 ^ 58" by simp
  then obtain a where a: "buffer_new 64 = Inr a" by (rule buffer_new_ok)
  from buffer_wait_free [of "go (race_start a) 0 (PushSeq (head a) 0 (5, 3))" 0] a show ?thesis by fastforce
qed

end
