(* ===== verification/Resize.thy ===== *)
theory Resize
  imports Sync
begin

text \<open>
  Growing a \<^verbatim>\<open>ConcurrentPulseMap\<close>: a resize to more buckets loses no entry and changes
  no stamp, and its retry loop ends in the first round, because a larger power of two splits every
  old bucket and never merges two. With that, an insertion into a map that resizes itself meets
  the same contract as one into a map of fixed size.
\<close>

section \<open>Collecting the entries\<close>

definition entry_at :: "ghost \<Rightarrow> slot_ttl list \<Rightarrow> position \<Rightarrow> (bytes \<times> bytes \<times> slot_ttl) option" where
  "entry_at C T pos = map_option (\<lambda>(k, v). (k, v, T ! stamp_index pos)) (C pos)"

definition table_entries :: "nat \<Rightarrow> ghost \<Rightarrow> slot_ttl list \<Rightarrow> (bytes \<times> bytes \<times> slot_ttl) list" where
  "table_entries n C T = List.map_filter (entry_at C T) (List.product [0..<n] [0..<4])"

lemma collect_slots_ok:
  assumes inv: "table_inv wy ix bs p C" and b: "b < length bs" and T: "length T = 4 * length bs"
    and "\<forall>i\<in>set is. i < 4"
  shows "collect_slots p T b (bs ! b) is = Inr (List.map_filter (\<lambda>i. entry_at C T (b, i)) is)"
  using assms(4)
proof (induction "is")
  case Nil
  then show ?case by (simp add: List.map_filter_def)
next
  case (Cons i "is")
  have full: "get_state (meta (bs ! b)) i = Full \<longleftrightarrow> C (b, i) \<noteq> None"
    using bucket_full_iff [OF inv b] Cons.prems by simp
  show ?case
  proof (cases "C (b, i)")
    case None
    then show ?thesis using Cons full by (simp add: List.map_filter_def entry_at_def)
  next
    case (Some kv)
    then obtain k v where kv: "C (b, i) = Some (k, v)" by (cases kv) auto
    have "length (slots (bs ! b)) = 4"
      using reprD(2) [OF inv_repr [OF inv]] b by (simp add: bucket_shape_def)
    then show ?thesis
      using Cons full kv T b holds_reads(3,4) [OF reprD(4) [OF inv_repr [OF inv] kv]]
      by (simp add: List.map_filter_def entry_at_def index_ok slot_at_def stamp_index_def Let_def)
  qed
qed

lemma collect_buckets_ok:
  assumes inv: "table_inv wy ix bs p C" and T: "length T = 4 * length bs" and "off \<le> length bs"
  shows "collect_buckets p T off (drop off bs) =
     Inr (List.map_filter (entry_at C T) (List.product [off..<length bs] [0..<4]))"
  using assms(3)
proof (induction "length bs - off" arbitrary: off)
  case 0
  then show ?case by (simp add: List.map_filter_def)
next
  case (Suc d)
  then have off: "off < length bs" by simp
  note s = collect_slots_ok [OF inv off T, of "[0..<4]"]
  have mf: "List.map_filter (\<lambda>i. entry_at C T (off, i)) [0..<4] @ List.map_filter (entry_at C T) ys =
      List.map_filter (entry_at C T) (map (Pair off) [0..<4] @ ys)" for ys
    unfolding List.map_filter_def filter_append map_append filter_map map_map comp_def ..
  have "collect_buckets p T (off + 1) (drop (Suc off) bs) =
      Inr (List.map_filter (entry_at C T) (List.product [Suc off..<length bs] [0..<4]))"
    using Suc.hyps(1) [of "Suc off"] Suc.hyps(2) off by simp
  then show ?case
    using off s mf by (simp add: Cons_nth_drop_Suc [symmetric] upt_conv_Cons del: upt.simps)
qed

lemma in_map_filter: "y \<in> set (List.map_filter f xs) \<longleftrightarrow> (\<exists>x\<in>set xs. f x = Some y)"
  by (induction xs) (auto simp: List.map_filter_simps split: option.split)

lemma table_entries_facts:
  assumes ky: "keyed bx bs C"
  shows "map_of (table_entries (length bs) C T) = view bx C T"
    and "distinct (map fst (table_entries (length bs) C T))"
    and "length (table_entries (length bs) C T) \<le> 4 * length bs"
proof -
  let ?ps = "List.product [0..<length bs] [0..<4]" and ?es = "table_entries (length bs) C T"
  have ps: "set ?ps = cells bs" "distinct ?ps" by (auto simp: cells_def distinct_product)
  have es: "?es = map (\<lambda>pos. the (entry_at C T pos)) (filter (\<lambda>pos. C pos \<noteq> None) ?ps)"
    by (simp add: table_entries_def List.map_filter_def entry_at_def comp_def)
  have mem: "(k, v, t) \<in> set ?es \<longleftrightarrow> (\<exists>pos. C pos = Some (k, v) \<and> t = T ! stamp_index pos)" for k v t
  proof -
    have "(k, v, t) \<in> set ?es \<longleftrightarrow> (\<exists>pos\<in>cells bs. entry_at C T pos = Some (k, v, t))"
      unfolding table_entries_def in_map_filter ps(1) ..
    then show ?thesis using keyedD(1) [OF ky] by (auto simp: entry_at_def)
  qed
  have inj: "inj_on (\<lambda>pos. fst (the (entry_at C T pos))) (set (filter (\<lambda>pos. C pos \<noteq> None) ?ps))"
  proof (rule inj_onI)
    fix q r assume "q \<in> set (filter (\<lambda>pos. C pos \<noteq> None) ?ps)" "r \<in> set (filter (\<lambda>pos. C pos \<noteq> None) ?ps)"
      and eq: "fst (the (entry_at C T q)) = fst (the (entry_at C T r))"
    then obtain k v k' v' where "C q = Some (k, v)" "C r = Some (k', v')" by auto
    with eq show "q = r" using keyedD(3) [OF ky] by (auto simp: entry_at_def)
  qed
  show d: "distinct (map fst ?es)"
    unfolding es map_map distinct_map comp_def using inj ps(2) by simp
  show "map_of ?es = view bx C T"
  proof
    fix key
    show "map_of ?es key = view bx C T key"
      by (rule view_eqI [OF ky, symmetric]) (simp add: map_of_eq_Some_iff [OF d] mem)
  qed
  show "length ?es \<le> 4 * length bs" unfolding es using length_filter_le [of _ ?ps] by (simp add: mult.commute)
qed

section \<open>Room in the new table\<close>

lemma holds_small:
  assumes "wf_pool p" and "holds wy p s k v"
  shows "small_pair k v"
proof (cases "is_slab s")
  case True
  with assms(2) obtain e where e: "slab_get p (slab_idx s) = Inr e" "entry_key e = Inr k" "entry_value e = Inr v"
    by (auto simp: holds_def elim: stored_parts)
  then have "wf_entry e"
    using assms(1) by (auto simp: slab_get_def index_def wf_pool_def set_conv_nth split: if_splits option.splits)
  moreover have "unat (cap e) < 2 ^ 32" using unsigned_less [of "cap e", where 'a = nat] by simp
  ultimately show ?thesis
    using e(2,3) by (auto simp: entry_key_def entry_value_def wf_entry_def small_pair_def split: if_splits)
next
  case False
  then have "length k \<le> 14" "length v \<le> 14"
    using assms(2) by (auto simp: holds_def inline_key_def inline_value_def slice_def)
  then show ?thesis by (simp add: small_pair_def)
qed

lemma bucket_crowd:
  assumes ky: "keyed bx bs C"
  shows "card {k \<in> dom (view bx C T). bx k = b} \<le> 4"
proof -
  have "{k \<in> dom (view bx C T). bx k = b} \<subseteq> (\<lambda>i. fst (the (C (b, i)))) ` {..<4}"
  proof
    fix k assume "k \<in> {k \<in> dom (view bx C T). bx k = b}"
    then obtain pos v where p: "C pos = Some (k, v)" "bx k = b" using view_Some [OF ky, of T k] by fastforce
    then have "pos = (b, snd pos)" using keyedD(2) [OF ky p(1)] by (simp add: prod_eq_iff)
    moreover have "snd pos < 4" using keyedD(1) [OF ky p(1)] by (simp add: in_cells)
    ultimately show "k \<in> (\<lambda>i. fst (the (C (b, i)))) ` {..<4}"
      using p(1) by (intro image_eqI [of _ _ "snd pos"]) auto
  qed
  from surj_card_le [OF _ this] show ?thesis by simp
qed

lemma crowd_free:
  assumes ky: "keyed bx bs C" and new: "view bx C T key = None"
    and sub: "insert key (dom (view bx C T)) \<subseteq> S" and fin: "finite S"
    and crowd: "card {k \<in> S. bx k = bx key} \<le> 4"
  shows "\<exists>i<4. C (bx key, i) = None"
proof (rule ccontr)
  assume "\<not> (\<exists>i<4. C (bx key, i) = None)"
  then have full: "\<exists>k v. C (bx key, i) = Some (k, v)" if "i < 4" for i using that by fastforce
  let ?f = "\<lambda>i. fst (the (C (bx key, i)))"
  have inj: "inj_on ?f {..<4}"
  proof (rule inj_onI)
    fix i j assume "i \<in> {..<4::nat}" "j \<in> {..<4::nat}" and eq: "?f i = ?f j"
    then obtain k v k' v' where "C (bx key, i) = Some (k, v)" "C (bx key, j) = Some (k', v')"
      using full [of i] full [of j] by auto
    with eq show "i = j" using keyedD(3) [OF ky] by fastforce
  qed
  have in_view: "?f i \<in> dom (view bx C T) \<and> bx (?f i) = bx key" if i: "i < 4" for i
  proof -
    obtain k v where kv: "C (bx key, i) = Some (k, v)" using full [OF i] by blast
    then have "view bx C T k \<noteq> None" using view_None [OF ky, of T k] by blast
    moreover have "bx k = bx key" using keyedD(2) [OF ky kv] by simp
    ultimately show ?thesis using kv by (simp add: domIff)
  qed
  then have "insert key (?f ` {..<4}) \<subseteq> {k \<in> S. bx k = bx key}" using sub by auto
  then have "card (insert key (?f ` {..<4})) \<le> card {k \<in> S. bx k = bx key}" using fin by (intro card_mono) auto
  moreover have "key \<notin> ?f ` {..<4}" using in_view new by force
  then have "card (insert key (?f ` {..<4})) = 5" using card_image [OF inj] by simp
  ultimately show False using crowd by simp
qed

lemma bucket_index_mask: "bucket_index sh h (mask k) = bucket_index sh h (- 1) mod 2 ^ k"
proof -
  have "unat (w AND mask k) = unat w mod 2 ^ k" for w :: u64
    using take_bit_eq_mod [of k "unat w"] by (simp add: take_bit_eq_mask [symmetric] unsigned_take_bit_eq del: take_bit_eq_mod)
  then show ?thesis by (simp add: bucket_index_def Let_def)
qed

lemma bucket_index_split:
  assumes "j \<le> k"
  shows "bucket_index sh h (mask j) = bucket_index sh h (mask k) mod 2 ^ j"
  using assms bucket_index_mask [of sh h j] bucket_index_mask [of sh h k]
  by (simp add: mod_mod_cancel le_imp_power_dvd)

section \<open>Rehashing\<close>

lemma place_entry_ok:
  assumes inv: "table_inv wy ix bs p C" and n: "length bs < 2 ^ 57" and T: "length T = 4 * length bs"
    and ix: "ix = (\<lambda>h. bucket_index sh h m)" and b: "ix (wy key) < length bs"
    and sz: "small_pair key val" and new: "view bx C T key = None" and free: "\<exists>i<4. C (ix (wy key), i) = None"
    and bx_def: "bx = (\<lambda>k. ix (wy k))"
  obtains bs' p' T' C' where "place_entry wy sh m (key, val, st) (bs, p, T, cnt) = Inr (True, bs', p', T', cnt + 1)"
    and "table_inv wy ix bs' p' C'" and "length bs' = length bs" and "length T' = length T"
    and "view bx C' T' = (view bx C T)(key \<mapsto> (val, st))"
proof -
  note ky = table_keyed [OF inv, folded bx_def]
  let ?b = "ix (wy key)" and ?hr = "compute_hash wy key" let ?bk = "bs ! ?b"
  note full = bucket_full_iff [OF inv b]
  obtain i where f: "find_free_slot (meta ?bk) = Some i" "i < 4" "get_state (meta ?bk) i \<noteq> Full"
  proof (cases "find_free_slot (meta ?bk)")
    case None
    then show thesis using free full by (auto simp: find_free_slot_eq find_upt_None)
  next
    case (Some i)
    then show thesis using that [of i] by (simp add: find_free_slot_eq find_upt_Some)
  qed
  have pos: "(?b, i) \<in> cells bs" using b f(2) by (simp add: in_cells)
  have nk: "C q \<noteq> Some (key, v)" for q v using new view_None [OF ky] by blast
  let ?v = "on_insert (set_h2 (set_state (meta ?bk) i Full) i (h2 ?hr)) i"
  obtain s p' where u: "store_entry p key val ?hr = Inr (s, p')"
    "table_inv wy ix (put_slot bs (?b, i) s ?v) p' (C((?b, i) \<mapsto> (key, val)))"
    using table_place [OF inv pos refl nk sz [unfolded small_pair_def] n] f(3) by auto
  have "length (slots ?bk) = 4" using reprD(2) [OF inv_repr [OF inv]] b by (simp add: bucket_shape_def)
  then have "place_entry wy sh m (key, val, st) (bs, p, T, cnt) =
      Inr (True, put_slot bs (?b, i) s ?v, p', T[stamp_index (?b, i) := st], cnt + 1)"
    using f(1,2) u(1) b T by (simp add: place_entry_def index_ok put_slot_pair stamp_index_def h1_compute_hash ix Let_def)
  moreover have "C (?b, i) = None" using full [OF f(2)] f(3) by blast
  then have "view bx (C((?b, i) \<mapsto> (key, val))) (T[stamp_index (?b, i) := st]) = (view bx C T)(key \<mapsto> (val, st))"
    using view_store [OF ky pos _ nk T, of val st] by (simp add: bx_def without_def)
  ultimately show thesis using that u(2) by (metis length_list_update put_slot_length)
qed

lemma place_entries_ok:
  assumes inv: "table_inv wy ix bs p C" and n: "length bs < 2 ^ 57" and T: "length T = 4 * length bs"
    and ix: "ix = (\<lambda>h. bucket_index sh h m)" and b: "\<And>h. ix h < length bs"
    and es: "distinct (map fst es)" "fst ` set es \<inter> dom (view bx C T) = {}"
      "\<forall>(k, v, t)\<in>set es. small_pair k v"
    and crowd: "\<And>b. card {k \<in> dom (view bx C T) \<union> fst ` set es. bx k = b} \<le> 4"
    and cnt: "unat cnt = card (dom (view bx C T))"
    and bx_def: "bx = (\<lambda>k. ix (wy k))"
  shows "\<exists>bs' p' T' C' cnt'. place_entries wy sh m es (bs, p, T, cnt) = Inr (True, bs', p', T', cnt')
     \<and> table_inv wy ix bs' p' C' \<and> length bs' = length bs \<and> length T' = length T
     \<and> view bx C' T' = view bx C T ++ map_of es \<and> unat cnt' = card (dom C')"
  using inv n T b es crowd cnt
proof (induction es arbitrary: bs p C T cnt)
  case Nil
  note ky = table_keyed [OF Nil.prems(1), folded bx_def]
  show ?case using Nil.prems card_view [OF ky] by auto
next
  case (Cons e es)
  obtain key val st where e: "e = (key, val, st)" by (cases e) auto
  note ky = table_keyed [OF Cons.prems(1), folded bx_def]
  have new: "view bx C T key = None" using Cons.prems(6) e by (auto simp: domIff)
  have fin: "finite (dom (view bx C T))" by (rule card_view(2) [OF ky])
  have "\<exists>i<4. C (bx key, i) = None"
    by (rule crowd_free [OF ky new _ _ Cons.prems(8) [of "bx key"]]) (use e fin in auto)
  then have free: "\<exists>i<4. C (ix (wy key), i) = None" by (simp add: bx_def)
  have sz: "small_pair key val" using Cons.prems(7) e by auto
  obtain bs1 p1 T1 C1 where s: "place_entry wy sh m e (bs, p, T, cnt) = Inr (True, bs1, p1, T1, cnt + 1)"
    "table_inv wy ix bs1 p1 C1" "length bs1 = length bs" "length T1 = length T"
    "view bx C1 T1 = (view bx C T)(key \<mapsto> (val, st))"
    using place_entry_ok [OF Cons.prems(1-3) ix Cons.prems(4) sz new free bx_def, of st cnt]
    unfolding e by blast
  have "card (dom (view bx C T)) \<le> 4 * length bs" using card_view(1) [OF ky] card_cells_le [OF ky] by simp
  then have "unat cnt + 1 < 2 ^ 64" using Cons.prems(2,9) by simp
  then have cnt: "unat (cnt + 1) = card (dom (view bx C1 T1))"
    using unat_Suc [of cnt] Cons.prems(9) fin new unfolding s(5) by (simp add: card_insert_if domIff)
  have "dom (view bx C1 T1) \<union> fst ` set es = dom (view bx C T) \<union> fst ` set (e # es)" unfolding s(5) e by auto
  then have crowd1: "card {k \<in> dom (view bx C1 T1) \<union> fst ` set es. bx k = b} \<le> 4" for b using Cons.prems(8) [of b] by simp
  have es1: "distinct (map fst es)" "\<forall>(k, v, t)\<in>set es. small_pair k v"
    "fst ` set es \<inter> dom (view bx C1 T1) = {}" using Cons.prems(5-7) e unfolding s(5) by auto
  have len1: "length bs1 < 2 ^ 57" "length T1 = 4 * length bs1" "\<And>h. ix h < length bs1"
    using Cons.prems(2-4) s(3,4) by simp_all
  obtain bs' p' T' C' cnt' where r: "place_entries wy sh m es (bs1, p1, T1, cnt + 1) = Inr (True, bs', p', T', cnt')"
     "table_inv wy ix bs' p' C'" "length bs' = length bs" "length T' = length T"
     "view bx C' T' = view bx C1 T1 ++ map_of es" "unat cnt' = card (dom C')"
    using Cons.IH [OF s(2) len1 es1(1,3,2) crowd1 cnt] unfolding s(3,4) by blast
  have "map_of es key = None" using Cons.prems(5) e by (auto simp: map_of_eq_None_iff)
  then have v: "view bx C' T' = view bx C T ++ map_of (e # es)"
    unfolding r(5) s(5) e by (auto simp: map_add_def split: option.split)
  have "place_entries wy sh m (e # es) (bs, p, T, cnt) = Inr (True, bs', p', T', cnt')" using s(1) r(1) by simp
  then show ?case using r(2-4,6) v by blast
qed

lemma rehash_ok:
  fixes k sh
  defines "ix \<equiv> \<lambda>h. bucket_index sh h (mask k :: usize)"
  assumes k: "k \<le> 56" and es: "distinct (map fst es)" "\<forall>(k, v, t)\<in>set es. small_pair k v"
    and crowd: "\<And>b. card {key \<in> fst ` set es. ix (wy key) = b} \<le> 4"
  obtains st cnt C where "rehash wy sh es (word_of_nat (2 ^ k)) = Some (Inr (st, cnt))"
    and "inner_shape st k" and "mi_locks st = locks_new (2 ^ k)"
    and "table_inv wy ix (mi_buckets st) (mi_pool st) C"
    and "view (\<lambda>key. ix (wy key)) C (mi_epochs st) = map_of es" and "unat cnt = card (dom C)"
proof -
  have k64: "(2::nat) ^ k \<le> 2 ^ 56" using k by (rule power_increasing) simp
  have n: "unat (word_of_nat (2 ^ k) :: usize) = 2 ^ k"
    using k by (simp add: unsigned_of_nat take_bit_nat_eq_self del: of_nat_power)
  have m: "word_of_nat (2 ^ k) - 1 = (mask k :: usize)" by (simp add: mask_eq_exp_minus_1)
  have ix_less: "ix h < 2 ^ k" for h
    unfolding ix_def bucket_index_mask [of sh h k] by simp
  let ?bs = "replicate (2 ^ k) bucket_empty" and ?T = "replicate (2 ^ k * 4) slot_ttl_default"
  obtain bs p T C cnt where r: "place_entries wy sh (mask k) es (?bs, slab_new, ?T, 0) = Inr (True, bs, p, T, cnt)"
    "table_inv wy ix bs p C" "length bs = 2 ^ k" "length T = 2 ^ k * 4"
    "view (\<lambda>key. ix (wy key)) C T = map_of es" "unat cnt = card (dom C)"
    using place_entries_ok [OF table_inv_empty, of "2 ^ k" ?T ix sh "mask k" es _ 0 wy] k64 ix_less es crowd
    by (auto simp: ix_def view_empty)
  let ?st = "\<lparr>mi_buckets = bs, mi_locks = locks_new (2 ^ k), mi_pool = p, mi_num_buckets = 2 ^ k,
      mi_mask = mask k, mi_epochs = T\<rparr>"
  have "\<not> isize_max < 2 ^ k * 64" using k64 by (simp add: isize_max_def)
  then have "rehash wy sh es (word_of_nat (2 ^ k)) = Some (Inr (?st, cnt))"
    unfolding rehash.simps [of wy sh es "word_of_nat (2 ^ k)"] Let_def n m by (simp add: r(1))
  then show thesis using that r(2-6) k by (simp add: inner_shape_def)
qed

lemma conc_tab_len:
  assumes "conc_tab wy c k C"
  shows "conc_len c = card (dom (conc_lookup wy c))" and "finite (dom (conc_lookup wy c))"
  using card_view [OF conc_tabD(6) [OF assms]] conc_tabD(3,5) [OF assms] by (auto simp: conc_len_def)

lemma conc_len_lookup: "conc_inv wy c \<Longrightarrow> conc_len c = card (dom (conc_lookup wy c))"
  by (elim conc_invE) (rule conc_tab_len)

lemma conc_dom_finite: "conc_inv wy c \<Longrightarrow> finite (dom (conc_lookup wy c))"
  by (elim conc_invE) (rule conc_tab_len)

lemma stored_pairs_small:
  assumes t: "conc_tab wy c k C" and es: "distinct (map fst es)" "map_of es = conc_lookup wy c"
  shows "\<forall>(key, v, t)\<in>set es. small_pair key v"
proof (clarify)
  note ti = inv_repr [OF conc_tabD(2) [OF t]]
  fix key v t' assume "(key, v, t') \<in> set es"
  then have "conc_lookup wy c key = Some (v, t')" unfolding es(2) [symmetric] by (simp add: es(1))
  then obtain pos where "C pos = Some (key, v)"
    unfolding conc_tabD(5) [OF t] view_Some [OF conc_tabD(6) [OF t]] by blast
  from reprD(4) [OF ti this] show "small_pair key v" by (rule holds_small [OF reprD(1) [OF ti]])
qed

text \<open>No bucket of a larger table gets more than four of the keys: it takes from one old bucket only.\<close>

lemma split_crowd:
  assumes inv: "conc_inv wy c" and t: "conc_tab wy c k C" and "k < j"
  shows "card {key \<in> dom (conc_lookup wy c). bucket_index (sharded_index c) (wy key) (mask j) = b} \<le> 4"
proof -
  let ?old = "{key \<in> dom (conc_lookup wy c). conc_ix c (wy key) = b mod 2 ^ k}"
  have "{key \<in> dom (conc_lookup wy c). bucket_index (sharded_index c) (wy key) (mask j) = b} \<subseteq> ?old"
    using bucket_index_split [of k j "sharded_index c"] assms(3) conc_tabD(1) [OF t, unfolded inner_shape_def]
    by (auto simp: conc_ix_def)
  then have "card {key \<in> dom (conc_lookup wy c). bucket_index (sharded_index c) (wy key) (mask j) = b} \<le> card ?old"
    using conc_dom_finite [OF inv] by (intro card_mono) auto
  also have "\<dots> \<le> 4" using bucket_crowd [OF conc_tabD(6) [OF t]] unfolding conc_tabD(5) [OF t] by simp
  finally show ?thesis .
qed

lemma conc_resize_law:
  assumes inv: "conc_inv wy c" and n: "n \<le> 2 ^ 55"
  shows "\<exists>c'. conc_resize wy c n = Inr c' \<and> conc_inv wy c' \<and> conc_lookup wy c' = conc_lookup wy c
     \<and> conc_num_buckets c' = max (conc_num_buckets c) (next_power_of_two (max n 1))
     \<and> c_epoch c' = c_epoch c \<and> c_eviction_count c' = c_eviction_count c \<and> same_config c c'"
proof -
  from inv obtain k C where c: "conc_tab wy c k C" "mi_locks (inner c) = locks_new (2 ^ k)"
    "buffer_inv (c_buffer c)" "\<forall>(b, i)\<in>set (pending (c_buffer c)). b < 2 ^ k \<and> i < 4"
    by (rule conc_invE)
  note shape = conc_tabD(1) [OF c(1), unfolded inner_shape_def] and t = conc_tabD(2) [OF c(1)]
  have "max n 1 \<le> 2 ^ 55" using n by simp
  then obtain j where j: "next_power_of_two (max n 1) = 2 ^ j" "j \<le> 55" using next_power_of_two_le [of "max n 1" 55] by auto
  show ?thesis
  proof (cases "(2::nat) ^ j \<le> 2 ^ k")
    case True
    then have "conc_resize wy c n = Inr c" using shape j(1) by (simp add: conc_resize_def)
    then show ?thesis using inv True shape j(1) by (auto simp: same_config_def conc_num_buckets_def)
  next
    case False
    then have "k < j" by (meson leI power_increasing one_le_numeral)
    let ?es = "table_entries (2 ^ k) C (mi_epochs (inner c))"
    note ky = conc_tabD(6) [OF c(1)] and lu = conc_tabD(5) [OF c(1)]
    note es = table_entries_facts [OF ky, of "mi_epochs (inner c)", unfolded conc_tabD(7) [OF c(1)] lu [symmetric]]
    have col: "collect_buckets (mi_pool (inner c)) (mi_epochs (inner c)) 0 (mi_buckets (inner c)) = Inr ?es"
      using collect_buckets_ok [OF t, of "mi_epochs (inner c)" 0] shape by (simp add: table_entries_def)
    have "(2::nat) ^ k \<le> 2 ^ 54" using \<open>k < j\<close> j(2) by (intro power_increasing) auto
    then have fit: "\<not> isize_max < length ?es * 64" using es(3) by (simp add: isize_max_def)
    have dom: "fst ` set ?es = dom (conc_lookup wy c)" using es(1) dom_map_of_conv_image_fst by metis
    note small = stored_pairs_small [OF c(1) es(2,1)]
    let ?ix = "\<lambda>key. bucket_index (sharded_index c) (wy key) (mask j)"
    have crowd: "card {key \<in> fst ` set ?es. ?ix key = b} \<le> 4" for b
      unfolding dom by (rule split_crowd [OF inv c(1) \<open>k < j\<close>])
    have j56: "j \<le> 56" using j(2) by simp
    obtain st cnt C' where r: "rehash wy (sharded_index c) ?es (word_of_nat (2 ^ j)) = Some (Inr (st, cnt))"
      "inner_shape st j" "mi_locks st = locks_new (2 ^ j)"
      "table_inv wy (\<lambda>h. bucket_index (sharded_index c) h (mask j)) (mi_buckets st) (mi_pool st) C'"
      "view ?ix C' (mi_epochs st) = map_of ?es" "unat cnt = card (dom C')"
      by (rule rehash_ok [OF j56 es(2) small crowd])
    obtain buf where buf: "buffer_clear (c_buffer c) = Inr buf" "buffer_inv buf" "pending buf = []"
      using buffer_clear_ok [OF c(3)] by blast
    let ?c = "c\<lparr>inner := st, c_count := cnt, c_buffer := buf\<rparr>"
    have ix': "conc_ix ?c = (\<lambda>h. bucket_index (sharded_index c) h (mask j))"
      using r(2) by (simp add: conc_ix_def fun_eq_iff inner_shape_def)
    have res: "conc_resize wy c n = Inr ?c"
      using False fit r(1) buf(1) col shape j(1) by (simp add: conc_resize_def del: of_nat_power)
    have t': "conc_tab wy ?c j C'" unfolding conc_tab_def ix' using r(2,4,6) by simp
    have "conc_inv wy ?c" by (rule conc_invI [OF t']) (use r(3) buf in simp_all)
    moreover have "conc_lookup wy ?c = conc_lookup wy c" unfolding conc_tabD(5) [OF t'] ix' using r(5) es(1) by simp
    ultimately show ?thesis using res r(2) shape j(1) False by (simp add: same_config_def conc_num_buckets_def inner_shape_def)
  qed
qed

section \<open>The contract of a map that may resize\<close>

text \<open>
  A map with automatic resizing doubles once its entries pass three quarters of the capacity;
  \<open>conc_ready wy n c\<close> leaves it room for \<open>n\<close> more insertions below the \<open>2 ^ 55\<close> buckets a
  collected entry vector can still serve. A map of fixed size needs no such room.
\<close>

definition conc_ready :: "(bytes \<Rightarrow> u64) \<Rightarrow> nat \<Rightarrow> concurrent_map \<Rightarrow> bool" where
  "conc_ready wy n c \<longleftrightarrow> conc_inv wy c \<and> (auto_resize c \<longrightarrow>
     resize_threshold c = 3 / 4 \<and> conc_num_buckets c \<le> 2 ^ 54 \<and> conc_len c + n \<le> 2 ^ 54)"

lemma conc_buckets_pos: "conc_inv wy c \<Longrightarrow> 0 < conc_num_buckets c"
  by (auto elim!: conc_invE dest!: conc_tabD(1) simp: inner_shape_def conc_num_buckets_def)

lemma load_exceeded_pos:
  assumes "0 < conc_num_buckets c" and "resize_threshold c = 3 / 4"
  shows "load_exceeded c \<longleftrightarrow> 3 * conc_num_buckets c < conc_len c"
proof -
  let ?n = "conc_num_buckets c"
  have "0 < real ?n" using assms(1) by simp
  then have "3 / 4 < real (conc_len c) / real (?n * 4) \<longleftrightarrow> real (3 * ?n) < real (conc_len c)"
    by (simp add: less_divide_eq)
  then show ?thesis
    unfolding load_exceeded_def assms(2) Let_def conc_num_buckets_def [symmetric] conc_len_def [symmetric]
    by (simp only: of_nat_less_iff)
qed

lemmas load_exceeded_iff = load_exceeded_pos [OF conc_buckets_pos]

lemma next_power_of_two_double: "k \<le> 62 \<Longrightarrow> next_power_of_two (2 * 2 ^ k) = 2 * 2 ^ k"
proof -
  assume k: "k \<le> 62"
  have "(2::nat) * 2 ^ k \<le> 2 ^ Suc k" by simp
  then obtain j where j: "next_power_of_two (2 * 2 ^ k) = 2 ^ j" "j \<le> Suc k"
    using next_power_of_two_le [of "2 * 2 ^ k" "Suc k"] k by auto
  have "(2::nat) ^ Suc k \<le> 2 ^ 63" using k by (intro power_increasing) auto
  then have "(2::nat) ^ Suc k \<le> 2 ^ j" using next_power_of_two_ge [of "2 * 2 ^ k"] j(1) by simp
  moreover have "(2::nat) ^ j \<le> 2 ^ Suc k" using j(2) by (rule power_increasing) simp
  ultimately show ?thesis using j(1) by simp
qed

lemma conc_grow:
  assumes "conc_ready wy n c"
  shows "\<exists>c'. (if auto_resize c \<and> load_exceeded c then conc_resize wy c (mi_num_buckets (inner c) * 2) else Inr c) = Inr c'
     \<and> conc_ready wy n c' \<and> conc_lookup wy c' = conc_lookup wy c
     \<and> conc_num_buckets c' = (if auto_resize c \<and> load_exceeded c then 2 * conc_num_buckets c else conc_num_buckets c)
     \<and> c_epoch c' = c_epoch c \<and> c_eviction_count c' = c_eviction_count c \<and> same_config c c'"
proof (cases "auto_resize c \<and> load_exceeded c")
  case True
  then have r: "conc_inv wy c" "resize_threshold c = 3 / 4" "conc_num_buckets c \<le> 2 ^ 54" "conc_len c + n \<le> 2 ^ 54"
    using assms by (simp_all add: conc_ready_def)
  have n: "mi_num_buckets (inner c) * 2 \<le> 2 ^ 55" using r(3) by (simp add: conc_num_buckets_def)
  obtain k where k: "conc_num_buckets c = 2 ^ k" "k \<le> 56"
    using r(1) by (auto elim!: conc_invE dest!: conc_tabD(1) simp: inner_shape_def conc_num_buckets_def)
  have grown: "max (conc_num_buckets c) (next_power_of_two (max (mi_num_buckets (inner c) * 2) 1)) = 2 * conc_num_buckets c"
  proof -
    have "max (2 ^ k * 2) 1 = (2 * 2 ^ k :: nat)" by simp
    then show ?thesis using next_power_of_two_double [of k] k by (simp add: conc_num_buckets_def mult.commute)
  qed
  obtain c' where c': "conc_resize wy c (mi_num_buckets (inner c) * 2) = Inr c'" "conc_inv wy c'"
    "conc_lookup wy c' = conc_lookup wy c" "conc_num_buckets c' = 2 * conc_num_buckets c"
    "c_epoch c' = c_epoch c" "c_eviction_count c' = c_eviction_count c" "same_config c c'"
    using conc_resize_law [OF r(1) n] unfolding grown by blast
  have "3 * conc_num_buckets c < conc_len c" using True load_exceeded_iff [OF r(1,2)] by simp
  then have "conc_num_buckets c' \<le> 2 ^ 54" using r(4) c'(4) by simp
  moreover have "conc_len c' = conc_len c" using conc_len_lookup [OF c'(2)] conc_len_lookup [OF r(1)] c'(3) by simp
  ultimately have "conc_ready wy n c'" using c'(2,7) r(2,4) by (simp add: conc_ready_def same_config_def)
  with c' True show ?thesis by simp
next
  case False
  then show ?thesis using assms by (auto simp: same_config_def)
qed

lemma stored_after_card:
  assumes "finite (dom V)"
  shows "card (dom (stored_after V x key e)) \<le> card (dom V) + 1"
proof -
  have "dom (stored_after V x key e) \<subseteq> insert key (dom V)"
    by (auto simp: stored_after_def split: option.splits if_splits)
  from card_mono [OF _ this] have "card (dom (stored_after V x key e)) \<le> card (insert key (dom V))" using assms by simp
  also have "\<dots> \<le> card (dom V) + 1" using assms by (simp add: card_insert_if)
  finally show ?thesis .
qed

lemma conc_insert_law:
  assumes ready: "conc_ready wy (Suc n) c" and sz: "small_pair key val"
  shows "\<exists>c' victim. conc_insert_internal wy c key val ttl = Inr c' \<and> conc_ready wy n c'
     \<and> c_epoch c' = c_epoch c + 1
     \<and> conc_lookup wy c' =
         stored_after (conc_lookup wy c) victim key (val, \<lparr>st_epoch = c_epoch c + 1, st_ttl = ttl\<rparr>)
     \<and> (case victim of
          None \<Rightarrow> c_eviction_count c' = c_eviction_count c
        | Some x \<Rightarrow> x \<noteq> key \<and> conc_lookup wy c key = None \<and> conc_lookup wy c x \<noteq> None
                    \<and> c_eviction_count c' = c_eviction_count c + 1)
     \<and> same_config c c'
     \<and> conc_num_buckets c' = (if auto_resize c \<and> load_exceeded c then 2 * conc_num_buckets c else conc_num_buckets c)"
proof -
  obtain c1 where g: "(if auto_resize c \<and> load_exceeded c then conc_resize wy c (mi_num_buckets (inner c) * 2) else Inr c) = Inr c1"
    "conc_ready wy (Suc n) c1" "conc_lookup wy c1 = conc_lookup wy c"
    "conc_num_buckets c1 = (if auto_resize c \<and> load_exceeded c then 2 * conc_num_buckets c else conc_num_buckets c)"
    "c_epoch c1 = c_epoch c" "c_eviction_count c1 = c_eviction_count c" "same_config c c1"
    using conc_grow [OF ready] by blast
  have inv1: "conc_inv wy c1" using g(2) by (simp add: conc_ready_def)
  obtain c2 victim where i: "insert_no_resize wy c1 key val ttl = Inr c2" "conc_inv wy c2" "c_epoch c2 = c_epoch c + 1"
    "conc_lookup wy c2 = stored_after (conc_lookup wy c) victim key (val, \<lparr>st_epoch = c_epoch c + 1, st_ttl = ttl\<rparr>)"
    "case victim of
          None \<Rightarrow> c_eviction_count c2 = c_eviction_count c
        | Some x \<Rightarrow> x \<noteq> key \<and> conc_lookup wy c key = None \<and> conc_lookup wy c x \<noteq> None
                    \<and> c_eviction_count c2 = c_eviction_count c + 1"
    "same_config c1 c2" "conc_num_buckets c2 = conc_num_buckets c1"
    using insert_no_resize_law [OF inv1 sz, of ttl] unfolding g(3,5,6) by blast
  have "conc_len c2 \<le> conc_len c1 + 1"
    unfolding conc_len_lookup [OF i(2)] conc_len_lookup [OF inv1] i(4) g(3)
    by (rule stored_after_card) (use conc_dom_finite [OF inv1] g(3) in simp)
  then have "conc_ready wy n c2" using g(2) i(2,6,7) by (auto simp: conc_ready_def same_config_def)
  moreover have "conc_insert_internal wy c key val ttl = Inr c2" by (simp add: conc_insert_internal_def g(1) i(1))
  moreover have "same_config c c2" using g(7) i(6) by (simp add: same_config_def)
  ultimately show ?thesis using i(3-5,7) g(4) by (intro exI [of _ c2] exI [of _ victim]) simp
qed

lemma conc_ready_keep:
  assumes "conc_ready wy n c" and "conc_inv wy c'" and "same_config c c'" and "conc_num_buckets c' = conc_num_buckets c"
    and "dom (conc_lookup wy c') \<subseteq> dom (conc_lookup wy c)"
  shows "conc_ready wy n c'"
proof -
  have inv: "conc_inv wy c" using assms(1) by (simp add: conc_ready_def)
  have "conc_len c' \<le> conc_len c"
    unfolding conc_len_lookup [OF assms(2)] conc_len_lookup [OF inv]
    by (rule card_mono [OF conc_dom_finite [OF inv] assms(5)])
  then show ?thesis using assms by (auto simp: conc_ready_def same_config_def)
qed

interpretation conc: byte_cache "conc_ready wy" "conc_lookup wy" "\<lambda>c _. c_epoch c" c_default_ttl c_eviction_count
  "conc_insert_internal wy" "conc_get_bytes wy" "conc_remove_bytes wy" for wy
proof unfold_locales
  fix n :: nat and c :: concurrent_map and k v :: bytes and ttl :: u64
  assume "conc_ready wy (Suc n) c" "small_pair k v"
  from conc_insert_law [OF this, of ttl]
  show "\<exists>s' victim. conc_insert_internal wy c k v ttl = Inr s' \<and> conc_ready wy n s' \<and> c_epoch s' = c_epoch c + 1 \<and> c_default_ttl s' = c_default_ttl c
        \<and> conc_lookup wy s' = stored_after (conc_lookup wy c) victim k (v, \<lparr>st_epoch = c_epoch c + 1, st_ttl = ttl\<rparr>)
        \<and> (case victim of
             None \<Rightarrow> c_eviction_count s' = c_eviction_count c
           | Some x \<Rightarrow> x \<noteq> k \<and> conc_lookup wy c k = None \<and> conc_lookup wy c x \<noteq> None
                       \<and> c_eviction_count s' = c_eviction_count c + 1)"
    unfolding same_config_def by blast
next
  fix n :: nat and c :: concurrent_map and k :: bytes
  assume r: "conc_ready wy n c"
  then have inv: "conc_inv wy c" by (simp add: conc_ready_def)
  show "\<exists>s'. conc_get_bytes wy c k = Inr (live_value (c_epoch c) (c_default_ttl c) (conc_lookup wy c k), s') \<and> conc_ready wy n s'
        \<and> conc_lookup wy s' = conc_lookup wy c \<and> (\<forall>j :: bytes. c_epoch s' = c_epoch c) \<and> c_default_ttl s' = c_default_ttl c
        \<and> c_eviction_count s' = c_eviction_count c"
    using conc_get_law [OF inv, of k] conc_ready_keep [OF r] unfolding same_config_def by auto
  show "\<exists>s'. conc_remove_bytes wy c k = Inr (conc_lookup wy c k \<noteq> None, s') \<and> conc_ready wy n s'
        \<and> conc_lookup wy s' = (conc_lookup wy c)(k := None) \<and> (\<forall>j :: bytes. c_epoch s' = c_epoch c) \<and> c_default_ttl s' = c_default_ttl c
        \<and> c_eviction_count s' = c_eviction_count c"
  proof -
    obtain c' where c': "conc_remove_bytes wy c k = Inr (conc_lookup wy c k \<noteq> None, c')" "conc_inv wy c'"
      "conc_lookup wy c' = (conc_lookup wy c)(k := None)" "c_epoch c' = c_epoch c"
      "c_eviction_count c' = c_eviction_count c" "same_config c c'" "conc_num_buckets c' = conc_num_buckets c"
      using conc_remove_law [OF inv, of k] by blast
    have "conc_ready wy n c'" by (rule conc_ready_keep [OF r c'(2,6,7)]) (auto simp: c'(3))
    then show ?thesis using c' by (auto simp: same_config_def)
  qed
qed

lemma conc_ready_start:
  assumes "n \<le> 2 ^ 53" and "j \<le> 2 ^ 54"
  obtains c where "with_config n auto sh = Inr c" and "conc_ready wy j c" and "conc_lookup wy c = Map.empty"
    and "c_epoch c = 0" and "c_default_ttl c = 0" and "c_eviction_count c = 0"
    and "auto_resize c = auto" and "sharded_index c = sh"
    and "max n 1 \<le> conc_num_buckets c" and "conc_num_buckets c < 2 * max n 1"
proof -
  have "n \<le> 2 ^ 56" using assms(1) by simp
  then obtain c k where c: "with_config n auto sh = Inr c" "conc_inv wy c" "conc_lookup wy c = Map.empty"
    "c_epoch c = 0" "c_default_ttl c = 0" "c_eviction_count c = 0" "c_count c = 0" "auto_resize c = auto"
    "sharded_index c = sh" "resize_threshold c = 3 / 4" "conc_num_buckets c = 2 ^ k" "max n 1 \<le> 2 ^ k" "2 ^ k < 2 * max n 1"
    by (rule conc_start)
  have "conc_num_buckets c \<le> 2 ^ 54" using c(11,13) assms(1) by simp
  moreover have "conc_len c = 0" using c(7) by (simp add: conc_len_def)
  ultimately have "conc_ready wy j c" using c(2,10) assms(2) by (simp add: conc_ready_def)
  then show thesis using that c by simp
qed

section \<open>Properties\<close>

text \<open>
  C4: insertion into a concurrent map, fixed or resizing itself. It never panics or deadlocks,
  stores its pair under a fresh stamp, keeps every other entry but at most one victim, which it
  takes only when the key was new, and a lookup right after it returns the value. The table
  doubles exactly when the map resizes itself and was more than three quarters full.
\<close>

theorem conc_insert_refines:
  assumes "typed_codec K key_ok V val_ok" and "conc_ready wy (Suc n) c" and "val_ok v"
    and "small_pair (key_to_bytes K k) (val_to_bytes V v)"
  shows "\<exists>c' c'' victim. conc_insert_ttl K V wy c k v ttl = Inr c' \<and> conc_ready wy n c'
     \<and> conc_get K V wy c' k = Inr (Some v, c'')
     \<and> conc_lookup wy c' = stored_after (conc_lookup wy c) victim (key_to_bytes K k)
         (val_to_bytes V v, \<lparr>st_epoch = conc_current_epoch c + 1, st_ttl = ttl\<rparr>)
     \<and> (case victim of
          None \<Rightarrow> c_eviction_count c' = c_eviction_count c
        | Some x \<Rightarrow> x \<noteq> key_to_bytes K k \<and> conc_lookup wy c (key_to_bytes K k) = None
            \<and> conc_lookup wy c x \<noteq> None \<and> c_eviction_count c' = c_eviction_count c + 1)
     \<and> conc_num_buckets c' =
         (if auto_resize c \<and> 3 * conc_num_buckets c < conc_len c then 2 * conc_num_buckets c
          else conc_num_buckets c)"
proof -
  let ?k = "key_to_bytes K k" and ?v = "val_to_bytes V v"
  obtain c' victim where i: "conc_insert_internal wy c ?k ?v ttl = Inr c'" "conc_ready wy n c'" "c_epoch c' = c_epoch c + 1"
    "conc_lookup wy c' = stored_after (conc_lookup wy c) victim ?k (?v, \<lparr>st_epoch = c_epoch c + 1, st_ttl = ttl\<rparr>)"
    "case victim of
          None \<Rightarrow> c_eviction_count c' = c_eviction_count c
        | Some x \<Rightarrow> x \<noteq> ?k \<and> conc_lookup wy c ?k = None \<and> conc_lookup wy c x \<noteq> None
                    \<and> c_eviction_count c' = c_eviction_count c + 1"
    "conc_num_buckets c' = (if auto_resize c \<and> load_exceeded c then 2 * conc_num_buckets c else conc_num_buckets c)"
    using conc_insert_law [OF assms(2,4), of ttl] by blast
  have load: "auto_resize c \<and> load_exceeded c \<longleftrightarrow> auto_resize c \<and> 3 * conc_num_buckets c < conc_len c"
    using load_exceeded_iff [of wy c] assms(2) by (auto simp: conc_ready_def)
  obtain c1 c2 where g: "conc_insert_internal wy c ?k ?v ttl = Inr c1" "conc_get_bytes wy c1 ?k = Inr (Some ?v, c2)"
    using conc.read_your_write [OF assms(2,4), of ttl] by blast
  have "conc_get K V wy c' k = Inr (Some v, c2)"
    using g i(1) value_codec.val_roundtrip [OF typed_codec.axioms(2) [OF assms(1)] assms(3)]
      key_codec.key_view [OF typed_codec.axioms(1) [OF assms(1)]]
    by (simp add: conc_get_def)
  then show ?thesis using i load by (auto simp: conc_insert_ttl_def conc_current_epoch_def)
qed

theorem conc_insert_refines_witness:
  "\<exists>c c' c''. conc_with_auto_resize 16 = Inr c \<and> conc_insert_ttl key_u32 val_u64 demo_hash c 42 100 7 = Inr c'
     \<and> conc_get key_u32 val_u64 demo_hash c' 42 = Inr (Some 100, c'')"
proof -
  have "(16::nat) \<le> 2 ^ 53" "(1::nat) \<le> 2 ^ 54" by simp_all
  then obtain c where c: "with_config 16 True False = Inr c" "conc_ready demo_hash 1 c" by (rule conc_ready_start)
  have "small_pair (key_to_bytes key_u32 42) (val_to_bytes val_u64 100)" by (simp add: small_pair_def key_defs val_defs)
  from conc_insert_refines [OF u32u64.typed_codec_axioms c(2) [unfolded One_nat_def] TrueI this, of 7] c(1)
  show ?thesis by (auto simp: conc_with_auto_resize_def)
qed

text \<open>
  C14: lookups and removal of a concurrent map. \<^verbatim>\<open>get\<close>, \<^verbatim>\<open>peek\<close> and
  \<^verbatim>\<open>contains_key\<close> agree on the unexpired entry of the key; \<^verbatim>\<open>peek\<close> leaves the state
  as it is and \<^verbatim>\<open>get\<close> leaves every entry and stamp; a removal reports whether the key was
  stored, drops it and nothing else. Each ends with all bucket locks released.
\<close>

theorem conc_reads_and_removal:
  assumes "typed_codec K key_ok V val_ok" and "conc_ready wy n c"
  shows "(let found = Option.bind (live_value (conc_current_epoch c) (conc_get_ttl c) (conc_lookup wy c (key_to_bytes K k)))
                        (val_from_bytes V)
          in conc_peek K V wy c k = Inr (found, c) \<and> conc_contains_key K V wy c k = Inr (found \<noteq> None, c)
             \<and> (\<exists>c'. conc_get K V wy c k = Inr (found, c') \<and> conc_ready wy n c' \<and> conc_lookup wy c' = conc_lookup wy c))
     \<and> (\<exists>c'. conc_remove K wy c k = Inr (conc_lookup wy c (key_to_bytes K k) \<noteq> None, c') \<and> conc_ready wy n c'
          \<and> conc_lookup wy c' = (conc_lookup wy c)(key_to_bytes K k := None)
          \<and> set (mi_locks (inner c')) \<subseteq> {0})"
proof -
  let ?k = "key_to_bytes K k"
  have v: "with_key_bytes K k = ?k" by (rule key_codec.key_view [OF typed_codec.axioms(1) [OF assms(1)]])
  have inv: "conc_inv wy c" using assms(2) by (simp add: conc_ready_def)
  obtain c1 where g: "conc_get_bytes wy c ?k = Inr (live_value (c_epoch c) (c_default_ttl c) (conc_lookup wy c ?k), c1)"
    "conc_ready wy n c1" "conc_lookup wy c1 = conc_lookup wy c"
    using conc.get_law [OF assms(2), of ?k] by blast
  obtain c2 where r: "conc_remove_bytes wy c ?k = Inr (conc_lookup wy c ?k \<noteq> None, c2)" "conc_ready wy n c2"
    "conc_lookup wy c2 = (conc_lookup wy c)(?k := None)"
    using conc.remove_law [OF assms(2), of ?k] by blast
  have "set (mi_locks (inner c2)) \<subseteq> {0}"
    using r(2) by (auto simp: conc_ready_def conc_inv_def locks_new_def)
  then show ?thesis
    using g r conc_peek_law [OF inv, of ?k] v
    by (auto simp: conc_peek_def conc_get_def conc_remove_def conc_contains_key_def conc_current_epoch_def
        conc_get_ttl_def Let_def)
qed

theorem conc_reads_and_removal_witness:
  "\<exists>c c'. conc_new 16 = Inr c \<and> conc_remove key_u32 demo_hash c 42 = Inr (False, c')
     \<and> conc_peek key_u32 val_u64 demo_hash c 42 = Inr (None, c)"
proof -
  have "(16::nat) \<le> 2 ^ 53" "(1::nat) \<le> 2 ^ 54" by simp_all
  then obtain c where c: "with_config 16 False False = Inr c" "conc_ready demo_hash 1 c" "conc_lookup demo_hash c = Map.empty"
    by (rule conc_ready_start)
  from conc_reads_and_removal [OF u32u64.typed_codec_axioms c(2), of 42] c(1,3)
  show ?thesis by (auto simp: conc_new_def live_value_def Let_def)
qed

text \<open>
  C5: \<^verbatim>\<open>resize\<close> loses nothing. Growing a map keeps every entry with its value and stamp, expired
  ones included, the length, the epoch and the eviction count; the new size is the requested one
  rounded up, and a smaller request changes nothing. In particular the retry loop ends.
\<close>

theorem resize_lossless:
  assumes "conc_inv wy c" and "n \<le> 2 ^ 55"
  shows "\<exists>c'. conc_resize wy c n = Inr c' \<and> conc_inv wy c' \<and> conc_lookup wy c' = conc_lookup wy c
     \<and> conc_len c' = conc_len c \<and> conc_current_epoch c' = conc_current_epoch c
     \<and> conc_eviction_count c' = conc_eviction_count c
     \<and> conc_capacity c' = max (conc_capacity c) (4 * next_power_of_two (max n 1))"
proof -
  obtain c' where c': "conc_resize wy c n = Inr c'" "conc_inv wy c'" "conc_lookup wy c' = conc_lookup wy c"
    "conc_num_buckets c' = max (conc_num_buckets c) (next_power_of_two (max n 1))"
    "c_epoch c' = c_epoch c" "c_eviction_count c' = c_eviction_count c"
    using conc_resize_law [OF assms] by blast
  have "conc_len c' = conc_len c" using conc_len_lookup [OF c'(2)] conc_len_lookup [OF assms(1)] c'(3) by simp
  moreover have "conc_capacity c' = max (conc_capacity c) (4 * next_power_of_two (max n 1))"
    using c'(4) by (simp add: conc_capacity_def conc_num_buckets_def max_def)
  ultimately show ?thesis using c' by (simp add: conc_current_epoch_def conc_eviction_count_def)
qed

theorem resize_lossless_witness:
  "\<exists>c c'. conc_new 2 = Inr c \<and> conc_resize demo_hash c 64 = Inr c' \<and> conc_len c' = conc_len c"
proof -
  have "(2::nat) \<le> 2 ^ 53" "(1::nat) \<le> 2 ^ 54" "(64::nat) \<le> 2 ^ 55" by simp_all
  then obtain c where c: "with_config 2 False False = Inr c" "conc_ready demo_hash 1 c" using conc_ready_start by metis
  from resize_lossless [of demo_hash c 64] c show ?thesis by (auto simp: conc_new_def conc_ready_def)
qed

end
