(* ===== verification/Interleave.thy ===== *)
theory Interleave
  imports Resize
begin

text \<open>
  Whole operations of \<^verbatim>\<open>ConcurrentPulseMap\<close> (\<^verbatim>\<open>src/src/sync.rs\<close>) under any interleaving of any number
  of threads. An operation is cut where other threads may come in between: the load check, the
  resize under the write lock, the epoch increment, taking the read lock, each pop of the access
  ring, each acquisition and release of a bucket lock, and the critical sections. What is one step
  here is atomic by the locks the step holds: a section works on its bucket alone and reaches the pool
  and the stamps through their mutexes, and the ring is linearizable by \<open>Buffer_Race\<close>.
\<close>

section \<open>Threads\<close>

datatype task = Call command | Peek bytes | ResizeTo nat

text \<open>The reference operation of a task; a peek answers like a lookup.\<close>

fun op_of :: "task \<Rightarrow> command option" where
  "op_of (Call cmd) = Some cmd"
| "op_of (Peek k) = Some (Get k)"
| "op_of (ResizeTo n) = None"

fun key_of :: "task \<Rightarrow> bytes" where
  "key_of (Call (Insert k v ttl)) = k"
| "key_of (Call (Get k)) = k"
| "key_of (Call (Remove k)) = k"
| "key_of (Peek k) = k"
| "key_of (ResizeTo n) = []"

fun is_insert :: "task \<Rightarrow> bool" where
  "is_insert (Call (Insert k v ttl)) = True"
| "is_insert _ = False"

text \<open>
  Where a thread stands; the last argument is the rest of its program. A thread is about to resize
  (within an insertion, or by itself), to count its epoch, to take the read lock; with the read lock
  it drains up to \<open>j\<close> events, waits for or holds the bucket of an event, waits for or holds the
  bucket of its key, has run its section, has dropped the bucket lock.
\<close>

datatype thread_pc =
    Ready "task list"
  | Growing nat "task option" "task list"
  | Ticking task "task list"
  | Entering task "task list"
  | Draining task nat nat "task list"
  | WaitEvent nat nat task nat nat "task list"
  | AtEvent nat nat task nat nat "task list"
  | WaitBucket task nat "task list"
  | AtBucket task nat "task list"
  | Leaving nat "task list"
  | Releasing "task list"

record threads =
  shared :: concurrent_map
  pcs :: "thread_pc list"
  history :: "(nat \<times> command \<times> outcome) list"

fun reading :: "thread_pc \<Rightarrow> bool" where
  "reading (Ready ts) = False"
| "reading (Growing n tk ts) = False"
| "reading (Ticking tk ts) = False"
| "reading (Entering tk ts) = False"
| "reading _ = True"

fun held :: "thread_pc \<Rightarrow> nat option" where
  "held (AtEvent b i tk idx j ts) = Some b"
| "held (AtBucket tk b ts) = Some b"
| "held (Leaving b ts) = Some b"
| "held _ = None"

section \<open>Steps\<close>

text \<open>The first step of a task.\<close>

fun begin_task :: "concurrent_map \<Rightarrow> task \<Rightarrow> task list \<Rightarrow> thread_pc" where
  "begin_task c (ResizeTo n) ts = Growing n None ts"
| "begin_task c tk ts =
     (if \<not> is_insert tk then Entering tk ts
      else if auto_resize c \<and> load_exceeded c then Growing (mi_num_buckets (inner c) * 2) (Some tk) ts
      else Ticking tk ts)"

fun after_growing :: "task option \<Rightarrow> task list \<Rightarrow> thread_pc" where
  "after_growing None ts = Ready ts"
| "after_growing (Some tk) ts = Ticking tk ts"

text \<open>With the read lock: the bucket index is computed; only an insertion drains.\<close>

definition enter_task :: "(bytes \<Rightarrow> u64) \<Rightarrow> concurrent_map \<Rightarrow> task \<Rightarrow> task list \<Rightarrow> thread_pc" where
  "enter_task wy c tk ts =
     (let idx = bucket_index (sharded_index c) (h1 (compute_hash wy (key_of tk))) (mi_mask (inner c)) in
      if is_insert tk then Draining tk idx DRAIN_BATCH ts else WaitBucket tk idx ts)"

text \<open>The critical section of a task on the bucket it has locked.\<close>

fun section_of :: "(bytes \<Rightarrow> u64) \<Rightarrow> concurrent_map \<Rightarrow> task \<Rightarrow> nat \<Rightarrow> (outcome \<times> concurrent_map) res" where
  "section_of wy c (Call (Insert k v ttl)) b =
     bindR (insert_section c b k v (compute_hash wy k) ttl) (\<lambda>(_, c). Inr (Done, c))"
| "section_of wy c (Call (Get k)) b = bindR (get_section c b k (compute_hash wy k)) (\<lambda>(r, c). Inr (Value r, c))"
| "section_of wy c (Call (Remove k)) b = bindR (remove_section c b k (compute_hash wy k)) (\<lambda>(r, c). Inr (Removed r, c))"
| "section_of wy c (Peek k) b = bindR (peek_section c b k (compute_hash wy k)) (\<lambda>(r, c). Inr (Value r, c))"
| "section_of wy c (ResizeTo n) b = Inr (Done, c)"

definition touch_bucket :: "concurrent_map \<Rightarrow> nat \<Rightarrow> nat \<Rightarrow> concurrent_map res" where
  "touch_bucket c b i =
     bindR (index (mi_buckets (inner c)) b) (\<lambda>bk.
     Inr (c\<lparr>inner := (inner c)\<lparr>mi_buckets := (mi_buckets (inner c))[b := bk\<lparr>meta := on_access (meta bk) i\<rparr>]\<rparr>\<rparr>))"

abbreviation with_locks :: "concurrent_map \<Rightarrow> bucket_locks \<Rightarrow> concurrent_map" where
  "with_locks c l \<equiv> c\<lparr>inner := (inner c)\<lparr>mi_locks := l\<rparr>\<rparr>"

text \<open>
  What thread \<open>t\<close> at \<open>pc\<close> can do next: the new shared state, its new position, what it adds to the
  history. The write lock needs all readers gone, a bucket lock needs its word to be 0.
\<close>

inductive thread_step ::
  "(bytes \<Rightarrow> u64) \<Rightarrow> bool \<Rightarrow> concurrent_map \<Rightarrow> thread_pc \<Rightarrow> concurrent_map \<Rightarrow> thread_pc \<Rightarrow> (command \<times> outcome) list \<Rightarrow> bool"
  for wy nr c where
  first: "thread_step wy nr c (Ready (tk # ts)) c (begin_task c tk ts) []"
| grow: "nr \<Longrightarrow> conc_resize wy c n = Inr c' \<Longrightarrow>
    thread_step wy nr c (Growing n tk ts) c' (after_growing tk ts) []"
| tick: "thread_step wy nr c (Ticking tk ts) (c\<lparr>c_epoch := c_epoch c + 1\<rparr>) (Entering tk ts) []"
| enter: "thread_step wy nr c (Entering tk ts) c (enter_task wy c tk ts) []"
| drain_none: "thread_step wy nr c (Draining tk idx 0 ts) c (WaitBucket tk idx ts) []"
| drain_empty: "buffer_pop (c_buffer c) = Inr (None, buf) \<Longrightarrow>
    thread_step wy nr c (Draining tk idx (Suc j) ts) (c\<lparr>c_buffer := buf\<rparr>) (WaitBucket tk idx ts) []"
| drain_pop: "buffer_pop (c_buffer c) = Inr (Some (b, i), buf) \<Longrightarrow>
    thread_step wy nr c (Draining tk idx (Suc j) ts) (c\<lparr>c_buffer := buf\<rparr>) (WaitEvent b i tk idx j ts) []"
| event_lock: "locks_lock (mi_locks (inner c)) b = Inr l \<Longrightarrow>
    thread_step wy nr c (WaitEvent b i tk idx j ts) (with_locks c l) (AtEvent b i tk idx j ts) []"
| event_touch: "touch_bucket c b i = Inr c' \<Longrightarrow> locks_unlock (mi_locks (inner c')) b = Inr l \<Longrightarrow>
    thread_step wy nr c (AtEvent b i tk idx j ts) (with_locks c' l) (Draining tk idx j ts) []"
| lock: "locks_lock (mi_locks (inner c)) b = Inr l \<Longrightarrow>
    thread_step wy nr c (WaitBucket tk b ts) (with_locks c l) (AtBucket tk b ts) []"
| critical: "op_of tk = Some cmd \<Longrightarrow> section_of wy c tk b = Inr (r, c') \<Longrightarrow>
    thread_step wy nr c (AtBucket tk b ts) c' (Leaving b ts) [(cmd, r)]"
| unlock: "locks_unlock (mi_locks (inner c)) b = Inr l \<Longrightarrow>
    thread_step wy nr c (Leaving b ts) (with_locks c l) (Releasing ts) []"
| release: "thread_step wy nr c (Releasing ts) c (Ready ts) []"

inductive_cases thread_stepE: "thread_step wy nr c pc c' pc' ev"

definition no_readers :: "thread_pc list \<Rightarrow> bool" where
  "no_readers ps \<longleftrightarrow> list_all (\<lambda>pc. \<not> reading pc) ps"

inductive threads_step :: "(bytes \<Rightarrow> u64) \<Rightarrow> threads \<Rightarrow> threads \<Rightarrow> bool" for wy where
  move: "t < length (pcs s) \<Longrightarrow> thread_step wy (no_readers (pcs s)) (shared s) (pcs s ! t) c' pc' ev \<Longrightarrow>
    threads_step wy s (s\<lparr>shared := c', pcs := (pcs s)[t := pc'],
                         history := history s @ map (Pair t) ev\<rparr>)"

inductive threads_reachable :: "(bytes \<Rightarrow> u64) \<Rightarrow> concurrent_map \<Rightarrow> task list list \<Rightarrow> threads \<Rightarrow> bool"
  for wy c programs where
  start: "threads_reachable wy c programs \<lparr>shared = c, pcs = map Ready programs, history = []\<rparr>"
| step: "threads_reachable wy c programs s \<Longrightarrow> threads_step wy s s' \<Longrightarrow> threads_reachable wy c programs s'"

section \<open>Invariant\<close>

text \<open>The lock words are exactly the locks held, each by one thread.\<close>

definition locks_ok :: "bucket_locks \<Rightarrow> nat \<Rightarrow> thread_pc list \<Rightarrow> bool" where
  "locks_ok l n ps \<longleftrightarrow> length l = n
     \<and> (\<forall>b<n. l ! b = (if \<exists>t<length ps. held (ps ! t) = Some b then 1 else 0))
     \<and> (\<forall>t<length ps. \<forall>u<length ps. held (ps ! t) \<noteq> None \<longrightarrow> held (ps ! t) = held (ps ! u) \<longrightarrow> t = u)"

definition task_ok :: "task \<Rightarrow> bool" where
  "task_ok tk = (case tk of Call cmd \<Rightarrow> small_command cmd | Peek k \<Rightarrow> True | ResizeTo n \<Rightarrow> n \<le> 2 ^ 54)"

text \<open>A position is consistent with a table of \<open>2 ^ k\<close> buckets indexed by \<open>ix\<close>.\<close>

fun pc_ok :: "(bytes \<Rightarrow> nat) \<Rightarrow> nat \<Rightarrow> thread_pc \<Rightarrow> bool" where
  "pc_ok ix k (Ready ts) = list_all task_ok ts"
| "pc_ok ix k (Growing n tk ts) = (n \<le> 2 ^ 54 \<and> list_all task_ok ts \<and> pred_option (\<lambda>tk. task_ok tk \<and> is_insert tk) tk)"
| "pc_ok ix k (Ticking tk ts) = (task_ok tk \<and> is_insert tk \<and> list_all task_ok ts)"
| "pc_ok ix k (Entering tk ts) = (task_ok tk \<and> op_of tk \<noteq> None \<and> list_all task_ok ts)"
| "pc_ok ix k (Draining tk idx j ts) = (task_ok tk \<and> is_insert tk \<and> idx = ix (key_of tk) \<and> j \<le> DRAIN_BATCH \<and> list_all task_ok ts)"
| "pc_ok ix k (WaitEvent b i tk idx j ts) =
     (b < 2 ^ k \<and> i < 4 \<and> task_ok tk \<and> is_insert tk \<and> idx = ix (key_of tk) \<and> j < DRAIN_BATCH \<and> list_all task_ok ts)"
| "pc_ok ix k (AtEvent b i tk idx j ts) =
     (b < 2 ^ k \<and> i < 4 \<and> task_ok tk \<and> is_insert tk \<and> idx = ix (key_of tk) \<and> j < DRAIN_BATCH \<and> list_all task_ok ts)"
| "pc_ok ix k (WaitBucket tk b ts) = (task_ok tk \<and> op_of tk \<noteq> None \<and> b = ix (key_of tk) \<and> list_all task_ok ts)"
| "pc_ok ix k (AtBucket tk b ts) = (task_ok tk \<and> op_of tk \<noteq> None \<and> b = ix (key_of tk) \<and> b < 2 ^ k \<and> list_all task_ok ts)"
| "pc_ok ix k (Leaving b ts) = (b < 2 ^ k \<and> list_all task_ok ts)"
| "pc_ok ix k (Releasing ts) = list_all task_ok ts"

text \<open>The shared state without its lock words.\<close>

definition map_ok :: "(bytes \<Rightarrow> u64) \<Rightarrow> concurrent_map \<Rightarrow> nat \<Rightarrow> bool" where
  "map_ok wy c k \<longleftrightarrow> (\<exists>C. conc_tab wy c k C) \<and> buffer_inv (c_buffer c)
     \<and> (\<forall>(b, i)\<in>set (pending (c_buffer c)). b < 2 ^ k \<and> i < 4)
     \<and> resize_threshold c = 3 / 4 \<and> k \<le> 54"

abbreviation key_ix :: "(bytes \<Rightarrow> u64) \<Rightarrow> concurrent_map \<Rightarrow> bytes \<Rightarrow> nat" where
  "key_ix wy c \<equiv> \<lambda>key. conc_ix c (wy key)"

definition commands :: "(nat \<times> command \<times> outcome) list \<Rightarrow> command list" where
  "commands h = map (\<lambda>(_, cmd, _). cmd) h"

definition outcomes :: "(nat \<times> command \<times> outcome) list \<Rightarrow> outcome list" where
  "outcomes h = map (\<lambda>(_, _, r). r) h"

definition threads_inv :: "(bytes \<Rightarrow> u64) \<Rightarrow> threads \<Rightarrow> bool" where
  "threads_inv wy s \<longleftrightarrow> (\<exists>k. map_ok wy (shared s) k \<and> locks_ok (mi_locks (inner (shared s))) (2 ^ k) (pcs s)
      \<and> list_all (pc_ok (key_ix wy (shared s)) k) (pcs s))
     \<and> trace_ok Map.empty (commands (history s)) (outcomes (history s))
     \<and> recorded_in (conc_lookup wy (shared s)) (foldl shadow_step Map.empty (commands (history s)))"

section \<open>Locks\<close>

lemma locks_okD:
  assumes "locks_ok l n ps"
  shows "length l = n" and "b < n \<Longrightarrow> l ! b = (if \<exists>t<length ps. held (ps ! t) = Some b then 1 else 0)"
    and "t < length ps \<Longrightarrow> u < length ps \<Longrightarrow> held (ps ! t) = Some b \<Longrightarrow> held (ps ! u) = Some b \<Longrightarrow> t = u"
  using assms unfolding locks_ok_def by (blast, blast, metis option.distinct(1))

lemma locks_okI:
  assumes "length l = n" and "\<And>b. b < n \<Longrightarrow> l ! b = (if \<exists>t<length ps. held (ps ! t) = Some b then 1 else 0)"
    and "\<And>t u b. t < length ps \<Longrightarrow> u < length ps \<Longrightarrow> held (ps ! t) = Some b \<Longrightarrow> held (ps ! u) = Some b \<Longrightarrow> t = u"
  shows "locks_ok l n ps"
  using assms unfolding locks_ok_def by (metis option.exhaust)

lemma held_upd: "t < length ps \<Longrightarrow> held (ps[t := pc] ! u) = (if u = t then held pc else held (ps ! u))"
  by (auto simp: nth_list_update)

lemma holder_upd:
  assumes "t < length ps" and "held pc \<noteq> Some x" and "held (ps ! t) \<noteq> Some x"
  shows "(\<exists>u<length ps. held (ps[t := pc] ! u) = Some x) \<longleftrightarrow> (\<exists>u<length ps. held (ps ! u) = Some x)"
  using assms by (metis held_upd)

lemma locks_ok_move:
  assumes "locks_ok l n ps" and "t < length ps" and "held pc = held (ps ! t)"
  shows "locks_ok l n (ps[t := pc])"
proof -
  have h: "held (ps[t := pc] ! u) = held (ps ! u)" for u using assms(2,3) by (simp add: held_upd)
  show ?thesis by (rule locks_okI) (use locks_okD [OF assms(1)] in \<open>auto simp: h\<close>)
qed

lemma locks_ok_free: "locks_ok l n ps \<Longrightarrow> b < n \<Longrightarrow> l ! b = 0 \<Longrightarrow> t < length ps \<Longrightarrow> held (ps ! t) \<noteq> Some b"
  by (auto simp: locks_ok_def split: if_splits)

lemma locks_ok_take:
  assumes ok: "locks_ok l n ps" and t: "t < length ps" "held (ps ! t) = None" and b: "b < n" "l ! b = 0"
    and pc: "held pc = Some b"
  shows "locks_ok (l[b := 1]) n (ps[t := pc])"
proof -
  note free = locks_ok_free [OF ok b]
  have "l[b := 1] ! x = (if \<exists>u<length ps. held (ps[t := pc] ! u) = Some x then 1 else 0)" if x: "x < n" for x
  proof (cases "x = b")
    case True
    then show ?thesis using ok b t pc by (auto simp: locks_ok_def intro!: exI [of _ t])
  next
    case False
    then show ?thesis using ok x t pc holder_upd [OF t(1), of pc x] by (simp add: locks_ok_def)
  qed
  moreover have "u = v" if "u < length ps" "v < length ps" "held (ps[t := pc] ! u) = Some x"
    "held (ps[t := pc] ! v) = Some x" for u v x
    using that locks_okD(3) [OF ok, of u v x] free [of u] free [of v] pc by (auto simp: held_upd [OF t(1)] split: if_splits)
  ultimately show ?thesis by (intro locks_okI) (use locks_okD(1) [OF ok] in auto)
qed

lemma locks_ok_drop:
  assumes ok: "locks_ok l n ps" and t: "t < length ps" "held (ps ! t) = Some b" and b: "b < n" and pc: "held pc = None"
  shows "locks_ok (l[b := 0]) n (ps[t := pc])"
proof -
  have only: "u = t" if "u < length ps" "held (ps ! u) = Some b" for u
    using ok t that unfolding locks_ok_def by (metis option.distinct(1))
  have "l[b := 0] ! x = (if \<exists>u<length ps. held (ps[t := pc] ! u) = Some x then 1 else 0)" if x: "x < n" for x
  proof (cases "x = b")
    case True
    then show ?thesis using ok b only pc t(1) by (auto simp: locks_ok_def held_upd split: if_splits)
  next
    case False
    then show ?thesis using ok x t pc holder_upd [OF t(1), of pc x] by (simp add: locks_ok_def)
  qed
  moreover have "u = v" if "u < length ps" "v < length ps" "held (ps[t := pc] ! u) = Some x"
    "held (ps[t := pc] ! v) = Some x" for u v x
    using that locks_okD(3) [OF ok, of u v x] pc by (auto simp: held_upd [OF t(1)] split: if_splits)
  ultimately show ?thesis by (intro locks_okI) (use locks_okD(1) [OF ok] in auto)
qed

lemma locks_ok_idle:
  assumes "locks_ok l n ps" and "list_all (\<lambda>pc. held pc = None) ps"
  shows "l = locks_new n"
  using assms by (intro nth_equalityI) (auto simp: locks_ok_def locks_new_def list_all_length)

lemma locks_ok_new: "list_all (\<lambda>pc. held pc = None) ps \<Longrightarrow> locks_ok (locks_new n) n ps"
  by (auto simp: locks_ok_def locks_new_def list_all_length)

lemma outside_holds_none: "\<not> reading pc \<Longrightarrow> held pc = None"
  by (cases pc) auto

section \<open>Steps keep the map\<close>

lemma map_okE:
  assumes "map_ok wy c k"
  obtains C where "conc_tab wy c k C" and "buffer_inv (c_buffer c)"
    and "\<forall>(b, i)\<in>set (pending (c_buffer c)). b < 2 ^ k \<and> i < 4" and "resize_threshold c = 3 / 4" and "k \<le> 54"
  using assms unfolding map_ok_def by blast

lemma map_ok_ix: "map_ok wy c k \<Longrightarrow> conc_ix c h < 2 ^ k"
  by (auto elim!: map_okE dest: conc_tabD(10))

lemma same_ix:
  assumes "conc_tab wy c k C" and "conc_tab wy c' k C'" and "same_config c c'"
  shows "conc_ix c' = conc_ix c"
  using assms(3) conc_tabD(1) [OF assms(1)] conc_tabD(1) [OF assms(2)]
  by (simp add: conc_ix_def inner_shape_def same_config_def fun_eq_iff)

text \<open>
  What a step with the events \<open>ev\<close> does to the map: a section has the effect of its operation on the
  stored entries and the eviction count; every other step leaves both alone. No step shrinks the table.
\<close>

fun section_effect :: "(bytes \<Rightarrow> u64) \<Rightarrow> concurrent_map \<Rightarrow> concurrent_map \<Rightarrow> command \<Rightarrow> outcome \<Rightarrow> bool" where
  "section_effect wy c c' (Insert k v ttl) Done \<longleftrightarrow>
     (\<exists>victim. conc_lookup wy c' = stored_after (conc_lookup wy c) victim k (v, \<lparr>st_epoch = c_epoch c, st_ttl = ttl\<rparr>)
        \<and> (case victim of
             None \<Rightarrow> c_eviction_count c' = c_eviction_count c
           | Some x \<Rightarrow> x \<noteq> k \<and> conc_lookup wy c k = None \<and> conc_lookup wy c x \<noteq> None
                       \<and> c_eviction_count c' = c_eviction_count c + 1))"
| "section_effect wy c c' (Get k) (Value r) \<longleftrightarrow> r = live_value (c_epoch c) (c_default_ttl c) (conc_lookup wy c k)
     \<and> conc_lookup wy c' = conc_lookup wy c \<and> c_eviction_count c' = c_eviction_count c"
| "section_effect wy c c' (Remove k) (Removed r) \<longleftrightarrow> r = (conc_lookup wy c k \<noteq> None)
     \<and> conc_lookup wy c' = (conc_lookup wy c)(k := None) \<and> c_eviction_count c' = c_eviction_count c"
| "section_effect wy c c' _ _ \<longleftrightarrow> False"

fun effect :: "(bytes \<Rightarrow> u64) \<Rightarrow> concurrent_map \<Rightarrow> concurrent_map \<Rightarrow> (command \<times> outcome) list \<Rightarrow> bool" where
  "effect wy c c' [] \<longleftrightarrow> same_config c c' \<and> conc_num_buckets c \<le> conc_num_buckets c'
     \<and> conc_lookup wy c' = conc_lookup wy c \<and> c_eviction_count c' = c_eviction_count c"
| "effect wy c c' [(cmd, r)] \<longleftrightarrow> same_config c c' \<and> conc_num_buckets c \<le> conc_num_buckets c' \<and> section_effect wy c c' cmd r"
| "effect wy c c' _ \<longleftrightarrow> False"

text \<open>In particular a section answers as the reference would.\<close>

definition answers :: "(bytes \<Rightarrow> u64) \<Rightarrow> concurrent_map \<Rightarrow> concurrent_map \<Rightarrow> (command \<times> outcome) list \<Rightarrow> bool" where
  "answers wy c c' ev \<longleftrightarrow> (\<forall>M. recorded_in (conc_lookup wy c) M \<longrightarrow>
     trace_ok M (map fst ev) (map snd ev) \<and> recorded_in (conc_lookup wy c') (foldl shadow_step M (map fst ev)))"

lemma effect_answers: "effect wy c c' ev \<Longrightarrow> answers wy c c' ev"
proof (induction wy c c' ev rule: effect.induct)
  case (2 wy c c' cmd r)
  then show ?case
    by (cases "(wy, c, c', cmd, r)" rule: section_effect.cases)
      (auto simp: answers_def recorded_in_insert recorded_in_get recorded_in_remove recorded_in_dom dest: recorded_in_dom)
qed (auto simp: answers_def)

lemma same_config_refl [simp]: "same_config c c"
  by (simp add: same_config_def)

lemma conc_tab_buckets: "conc_tab wy c k C \<Longrightarrow> conc_num_buckets c = 2 ^ k"
  by (auto dest!: conc_tabD(1) simp: inner_shape_def conc_num_buckets_def)

text \<open>A section runs without a panic and changes no lock.\<close>

lemma section_ok:
  assumes m: "map_ok wy c k" and tk: "task_ok tk" "op_of tk = Some cmd"
  shows "\<exists>r c'. section_of wy c tk (conc_ix c (wy (key_of tk))) = Inr (r, c') \<and> map_ok wy c' k
     \<and> mi_locks (inner c') = mi_locks (inner c) \<and> conc_ix c' = conc_ix c \<and> effect wy c c' [(cmd, r)]"
proof -
  from m obtain C where c: "conc_tab wy c k C" "buffer_inv (c_buffer c)"
    "\<forall>(b, i)\<in>set (pending (c_buffer c)). b < 2 ^ k \<and> i < 4" "resize_threshold c = 3 / 4" "k \<le> 54"
    by (rule map_okE)
  consider (ins) key v ttl where "tk = Call (Insert key v ttl)" | (get) key where "tk = Call (Get key)"
    | (rem) key where "tk = Call (Remove key)" | (peek) key where "tk = Peek key"
    using tk(2) by (cases tk rule: key_of.cases) auto
  then show ?thesis
  proof cases
    case ins
    have "small_pair key v" using tk(1) ins by (simp add: task_ok_def)
    from insert_section_ok [OF c(1) this, of ttl] obtain c' C' victim where
      i: "insert_section c (conc_ix c (wy key)) key v (compute_hash wy key) ttl = Inr ((), c')"
      "conc_tab wy c' k C'" "mi_locks (inner c') = mi_locks (inner c)" "c_buffer c' = c_buffer c" "c_epoch c' = c_epoch c" "same_config c c'"
      "conc_lookup wy c' = stored_after (conc_lookup wy c) victim key (v, \<lparr>st_epoch = c_epoch c, st_ttl = ttl\<rparr>)"
      "case victim of
          None \<Rightarrow> c_eviction_count c' = c_eviction_count c
        | Some x \<Rightarrow> x \<noteq> key \<and> conc_lookup wy c key = None \<and> conc_lookup wy c x \<noteq> None
                    \<and> c_eviction_count c' = c_eviction_count c + 1" .
    have "map_ok wy c' k" using i(2,4,6) c by (auto simp: map_ok_def same_config_def)
    moreover have "section_effect wy c c' (Insert key v ttl) Done"
      unfolding section_effect.simps using i(7,8) by blast
    then have "effect wy c c' [(cmd, Done)]"
      using tk(2) ins i(6) conc_tab_buckets [OF c(1)] conc_tab_buckets [OF i(2)] by (auto simp del: section_effect.simps)
    ultimately show ?thesis using i(1,3) ins same_ix [OF c(1) i(2,6)] by auto
  next
    case get
    obtain buf where g: "get_section c (conc_ix c (wy key)) key (compute_hash wy key) =
        Inr (live_value (c_epoch c) (c_default_ttl c) (conc_lookup wy c key), c\<lparr>c_buffer := buf\<rparr>)"
      "buffer_inv buf" "set (pending buf) \<subseteq> set (pending (c_buffer c)) \<union> {conc_ix c (wy key)} \<times> {..<4}"
      by (rule get_section_ok [OF c(1,2), of key])
    have "map_ok wy (c\<lparr>c_buffer := buf\<rparr>) k" using g(2,3) c map_ok_ix [OF m, of "wy key"] by (auto simp: map_ok_def)
    moreover have "effect wy c (c\<lparr>c_buffer := buf\<rparr>) [(cmd, Value (live_value (c_epoch c) (c_default_ttl c) (conc_lookup wy c key)))]"
      using tk(2) get by (auto simp: same_config_def conc_num_buckets_def)
    ultimately show ?thesis using g get by auto
  next
    case rem
    obtain c' C' where r: "remove_section c (conc_ix c (wy key)) key (compute_hash wy key) = Inr (conc_lookup wy c key \<noteq> None, c')"
      "conc_tab wy c' k C'" "conc_lookup wy c' = (conc_lookup wy c)(key := None)"
      "mi_locks (inner c') = mi_locks (inner c)" "c_buffer c' = c_buffer c" "c_eviction_count c' = c_eviction_count c"
      "same_config c c'"
      by (rule remove_section_ok [OF c(1), of key])
    have "map_ok wy c' k" using r(2,5,7) c by (auto simp: map_ok_def same_config_def)
    moreover have "effect wy c c' [(cmd, Removed (conc_lookup wy c key \<noteq> None))]"
      using tk(2) rem r(3,6,7) conc_tab_buckets [OF c(1)] conc_tab_buckets [OF r(2)] by auto
    ultimately show ?thesis using r rem same_ix [OF c(1) r(2,7)] by auto
  next
    case peek
    have "effect wy c c [(cmd, Value (live_value (c_epoch c) (c_default_ttl c) (conc_lookup wy c key)))]"
      using tk(2) peek by auto
    then show ?thesis using peek_section_ok [OF c(1), of key] m peek by auto
  qed
qed

lemma touch_bucket_ok:
  assumes m: "map_ok wy c k" and b: "b < 2 ^ k" and i: "i < 4"
  obtains c' where "touch_bucket c b i = Inr c'" and "map_ok wy c' k" and "mi_locks (inner c') = mi_locks (inner c)"
    and "conc_ix c' = conc_ix c" and "effect wy c c' []"
proof -
  from m obtain C where c: "conc_tab wy c k C" "buffer_inv (c_buffer c)"
    "\<forall>(b, i)\<in>set (pending (c_buffer c)). b < 2 ^ k \<and> i < 4" "resize_threshold c = 3 / 4" "k \<le> 54"
    by (rule map_okE)
  let ?bs = "(mi_buckets (inner c))[b := (mi_buckets (inner c) ! b)\<lparr>meta := on_access (meta (mi_buckets (inner c) ! b)) i\<rparr>]"
  let ?c = "c\<lparr>inner := (inner c)\<lparr>mi_buckets := ?bs\<rparr>\<rparr>"
  have bl: "b < length (mi_buckets (inner c))" using b conc_tabD(7) [OF c(1)] by simp
  have t: "conc_tab wy ?c k C"
    using c(1) table_touch [OF conc_tabD(2) [OF c(1)] bl i] by (simp add: conc_tab_def inner_shape_def)
  have "effect wy c ?c []"
    using conc_tabD(5) [OF t] conc_tabD(5) [OF c(1)] by (simp add: same_config_def conc_num_buckets_def)
  moreover have "map_ok wy ?c k" using t c by (auto simp: map_ok_def)
  moreover have "touch_bucket c b i = Inr ?c" using bl by (simp add: touch_bucket_def index_ok)
  ultimately show thesis using that by simp
qed

lemma pop_ok:
  assumes m: "map_ok wy c k"
  obtains r buf where "buffer_pop (c_buffer c) = Inr (r, buf)" and "map_ok wy (c\<lparr>c_buffer := buf\<rparr>) k"
    and "\<And>b i. r = Some (b, i) \<Longrightarrow> b < 2 ^ k \<and> i < 4"
proof -
  from m obtain C where c: "conc_tab wy c k C" "buffer_inv (c_buffer c)"
    "\<forall>(b, i)\<in>set (pending (c_buffer c)). b < 2 ^ k \<and> i < 4" "resize_threshold c = 3 / 4" "k \<le> 54"
    by (rule map_okE)
  obtain buf where p: "buffer_pop (c_buffer c) = Inr (case pending (c_buffer c) of [] \<Rightarrow> None | e # _ \<Rightarrow> Some e, buf)"
    "buffer_inv buf" "pending buf = List.tl (pending (c_buffer c))"
    using access.pop_law [OF c(2)] by blast
  have "set (pending buf) \<subseteq> set (pending (c_buffer c))" unfolding p(3) by (cases "pending (c_buffer c)") auto
  then have "map_ok wy (c\<lparr>c_buffer := buf\<rparr>) k" using c p(2) by (auto simp: map_ok_def)
  then show thesis by (rule that [OF p(1)]) (use c(3) in \<open>auto split: list.splits\<close>)
qed

end
