(* ===== verification/Linearizable.thy ===== *)
theory Linearizable
  imports Interleave
begin

text \<open>
  Every interleaving of operations on a concurrent map keeps its invariant, answers like a
  sequential execution of the operations in the order of their critical sections, and ends.
\<close>

section \<open>Steps keep the system\<close>

definition sys_ok :: "(bytes \<Rightarrow> u64) \<Rightarrow> concurrent_map \<Rightarrow> nat \<Rightarrow> thread_pc list \<Rightarrow> bool" where
  "sys_ok wy c k ps \<longleftrightarrow> map_ok wy c k \<and> locks_ok (mi_locks (inner c)) (2 ^ k) ps \<and> list_all (pc_ok (key_ix wy c) k) ps"

lemma sys_okD:
  assumes "sys_ok wy c k ps"
  shows "map_ok wy c k" and "locks_ok (mi_locks (inner c)) (2 ^ k) ps" and "t < length ps \<Longrightarrow> pc_ok (key_ix wy c) k (ps ! t)"
  using assms by (auto simp: sys_ok_def list_all_length)

lemma pcs_upd: "list_all P ps \<Longrightarrow> P pc \<Longrightarrow> list_all P (ps[t := pc])"
  by (auto simp: list_all_iff dest!: set_update_subset_insert [THEN subsetD])

text \<open>A step that leaves the locks alone.\<close>

lemma sys_ok_move:
  assumes "sys_ok wy c k ps" and "t < length ps" and "map_ok wy c' k" and "mi_locks (inner c') = mi_locks (inner c)"
    and "conc_ix c' = conc_ix c" and "held pc = held (ps ! t)" and "pc_ok (key_ix wy c) k pc"
  shows "sys_ok wy c' k (ps[t := pc])"
  using assms by (auto simp: sys_ok_def intro: locks_ok_move pcs_upd)

lemma map_ok_locks [simp]: "map_ok wy (with_locks c l) k = map_ok wy c k"
  by (simp add: map_ok_def)

lemma effect_locks: "effect wy c c' [] \<Longrightarrow> effect wy c (with_locks c' l) []"
  by (auto simp: same_config_def conc_num_buckets_def conc_lookup_def conc_ix_def)

lemma sys_ok_lock:
  assumes ok: "sys_ok wy c k ps" and t: "t < length ps" "held (ps ! t) = None" and l: "locks_lock (mi_locks (inner c)) b = Inr l"
    and pc: "held pc = Some b" "pc_ok (key_ix wy c) k pc"
  shows "sys_ok wy (with_locks c l) k (ps[t := pc])"
proof -
  have "l = (mi_locks (inner c))[b := 1]" "mi_locks (inner c) ! b = 0" "b < 2 ^ k"
    using l locks_okD(1) [OF sys_okD(2) [OF ok]] by (auto simp: locks_lock_def index_def split: if_splits)
  then show ?thesis using ok t pc by (auto simp: sys_ok_def intro: locks_ok_take pcs_upd)
qed

lemma sys_ok_unlock:
  assumes ok: "sys_ok wy c k ps" and t: "t < length ps" "held (ps ! t) = Some b"
    and c': "map_ok wy c' k" "mi_locks (inner c') = mi_locks (inner c)" "conc_ix c' = conc_ix c"
    and l: "locks_unlock (mi_locks (inner c')) b = Inr l"
    and pc: "held pc = None" "pc_ok (key_ix wy c) k pc"
  shows "sys_ok wy (with_locks c' l) k (ps[t := pc])"
proof -
  have "l = (mi_locks (inner c))[b := 0]" "b < 2 ^ k"
    using l c'(2) locks_okD(1) [OF sys_okD(2) [OF ok]] by (auto simp: locks_unlock_def index_def split: if_splits)
  then show ?thesis using ok t c' pc by (auto simp: sys_ok_def intro: locks_ok_drop pcs_upd)
qed

lemma pc_ok_outside: "\<not> reading pc \<Longrightarrow> pc_ok ix k pc = pc_ok ix' k' pc"
  by (cases pc) auto

lemma sys_ok_grow:
  assumes ok: "sys_ok wy c k ps" and nr: "no_readers ps" and n: "n \<le> 2 ^ 54"
    and pc: "\<not> reading pc" "pc_ok (key_ix wy c) k pc"
  obtains c' k' where "conc_resize wy c n = Inr c'" and "sys_ok wy c' k' (ps[t := pc])" and "effect wy c c' []"
proof -
  have quiet: "list_all (\<lambda>pc. held pc = None) ps" using nr outside_holds_none by (auto simp: no_readers_def list_all_iff)
  from sys_okD(1) [OF ok] obtain C where c: "conc_tab wy c k C" "buffer_inv (c_buffer c)"
    "\<forall>(b, i)\<in>set (pending (c_buffer c)). b < 2 ^ k \<and> i < 4" "resize_threshold c = 3 / 4" "k \<le> 54"
    by (rule map_okE)
  have inv: "conc_inv wy c" by (rule conc_invI [OF c(1) locks_ok_idle [OF sys_okD(2) [OF ok] quiet] c(2,3)])
  have "n \<le> 2 ^ 55" using n by simp
  from conc_resize_law [OF inv this] obtain c' where c': "conc_resize wy c n = Inr c'" "conc_inv wy c'"
    "conc_lookup wy c' = conc_lookup wy c" "conc_num_buckets c' = max (conc_num_buckets c) (next_power_of_two (max n 1))"
    "c_eviction_count c' = c_eviction_count c" "same_config c c'" by blast
  from c'(2) obtain k' C' where t': "conc_tab wy c' k' C'" "mi_locks (inner c') = locks_new (2 ^ k')"
    "buffer_inv (c_buffer c')" "\<forall>(b, i)\<in>set (pending (c_buffer c')). b < 2 ^ k' \<and> i < 4"
    by (rule conc_invE)
  have "max n 1 \<le> 2 ^ 54" using n by simp
  then obtain j where j: "next_power_of_two (max n 1) = 2 ^ j" "j \<le> 54"
    using next_power_of_two_le [of "max n 1" 54] by auto
  have "(2::nat) ^ k' = max (2 ^ k) (2 ^ j)"
    using c'(4) j(1) conc_tabD(1) [OF c(1)] conc_tabD(1) [OF t'(1)] by (simp add: conc_num_buckets_def inner_shape_def)
  then have "k' = k \<or> k' = j" by (auto simp: max_def split: if_splits)
  then have "map_ok wy c' k'" using t' c(4,5) j(2) c'(6) by (auto simp: map_ok_def same_config_def)
  moreover have "locks_ok (mi_locks (inner c')) (2 ^ k') (ps[t := pc])"
    unfolding t'(2) by (intro locks_ok_new pcs_upd quiet) (rule outside_holds_none [OF pc(1)])
  moreover have "list_all (pc_ok (key_ix wy c') k') ps" unfolding list_all_iff
  proof
    fix q assume "q \<in> set ps"
    then have "\<not> reading q" "pc_ok (key_ix wy c) k q" using ok nr by (auto simp: sys_ok_def no_readers_def list_all_iff)
    then show "pc_ok (key_ix wy c') k' q" using pc_ok_outside [of q "key_ix wy c" k "key_ix wy c'" k'] by simp
  qed
  then have "list_all (pc_ok (key_ix wy c') k') (ps[t := pc])"
    using pc pc_ok_outside [of pc "key_ix wy c" k "key_ix wy c'" k'] by (simp add: pcs_upd)
  ultimately show thesis using that [OF c'(1)] c'(3-6) by (simp add: sys_ok_def)
qed

lemma begin_task_ok:
  assumes m: "map_ok wy c k" and len: "conc_len c \<le> 2 ^ 54" and "list_all task_ok (tk # ts)"
  shows "pc_ok (key_ix wy c) k (begin_task c tk ts)" and "\<not> reading (begin_task c tk ts)"
proof -
  from m obtain C where c: "conc_tab wy c k C" "resize_threshold c = 3 / 4" by (rule map_okE)
  have n: "conc_num_buckets c = 2 ^ k" using conc_tabD(1) [OF c(1)] by (simp add: inner_shape_def conc_num_buckets_def)
  have "load_exceeded c \<longleftrightarrow> 3 * 2 ^ k < conc_len c" using load_exceeded_pos [of c] c(2) n by simp
  then have "mi_num_buckets (inner c) * 2 \<le> 2 ^ 54" if "load_exceeded c"
    using that len n by (simp add: conc_num_buckets_def)
  then show "pc_ok (key_ix wy c) k (begin_task c tk ts)" "\<not> reading (begin_task c tk ts)"
    using assms(3) by (cases tk rule: is_insert.cases; simp add: task_ok_def)+
qed

lemma insert_op [simp]: "is_insert tk \<Longrightarrow> op_of tk \<noteq> None"
  by (cases tk rule: is_insert.cases) auto

lemma enter_task_ok:
  "task_ok tk \<Longrightarrow> op_of tk \<noteq> None \<Longrightarrow> list_all task_ok ts \<Longrightarrow> pc_ok (key_ix wy c) k (enter_task wy c tk ts)"
  "held (enter_task wy c tk ts) = None"
  by (simp_all add: enter_task_def h1_ix Let_def del: h1_compute_hash)

lemma thread_step_ok:
  assumes step: "thread_step wy (no_readers ps) c (ps ! t) c' pc' ev"
    and ok: "sys_ok wy c k ps" and t: "t < length ps" and len: "conc_len c \<le> 2 ^ 54"
  shows "(\<exists>k'. sys_ok wy c' k' (ps[t := pc'])) \<and> effect wy c c' ev"
proof -
  note m = sys_okD(1) [OF ok] and p = sys_okD(3) [OF ok t]
  note move = sys_ok_move [OF ok t]
  have silent: "effect wy c d []" if "inner d = inner c" "c_eviction_count d = c_eviction_count c" "same_config c d" for d
    using that by (simp add: conc_num_buckets_def conc_lookup_def conc_ix_def same_config_def)
  from step show ?thesis
  proof cases
    case (first tk ts)
    have "list_all task_ok (tk # ts)" using p first(1) by simp
    note b = begin_task_ok [OF m len this]
    have "sys_ok wy c k (ps[t := begin_task c tk ts])"
      by (rule move [OF m refl refl _ b(1)]) (use first(1) outside_holds_none [OF b(2)] in simp)
    then show ?thesis using first silent [of c] by auto
  next
    case (grow n tk ts)
    have "pc_ok (key_ix wy c) k (after_growing tk ts)" "\<not> reading (after_growing tk ts)" "n \<le> 2 ^ 54"
      using p grow(1) by (cases tk; simp)+
    from sys_ok_grow [OF ok grow(4) this(3,2,1)] grow show ?thesis by (metis sum.inject(2))
  next
    case (tick tk ts)
    have "map_ok wy (c\<lparr>c_epoch := c_epoch c + 1\<rparr>) k" using m by (simp add: map_ok_def)
    then have "sys_ok wy (c\<lparr>c_epoch := c_epoch c + 1\<rparr>) k (ps[t := Entering tk ts])"
      by (rule move) (use tick(1) p insert_op [of tk] in auto)
    then show ?thesis using tick silent [of "c\<lparr>c_epoch := c_epoch c + 1\<rparr>"] by (auto simp: same_config_def)
  next
    case (enter tk ts)
    have "sys_ok wy c k (ps[t := enter_task wy c tk ts])"
      by (rule move [OF m refl refl]) (use enter(1) enter_task_ok p in simp_all)
    then show ?thesis using enter silent [of c] by auto
  next
    case (drain_none tk idx ts)
    have "sys_ok wy c k (ps[t := WaitBucket tk idx ts])"
      by (rule move [OF m refl refl]) (use drain_none(1) p insert_op [of tk] in auto)
    then show ?thesis using drain_none silent [of c] by auto
  next
    case (drain_empty buf tk idx j ts)
    obtain r buf' where "buffer_pop (c_buffer c) = Inr (r, buf')" "map_ok wy (c\<lparr>c_buffer := buf'\<rparr>) k"
      by (rule pop_ok [OF m])
    then have "map_ok wy (c\<lparr>c_buffer := buf\<rparr>) k" using drain_empty(5) by simp
    then have "sys_ok wy (c\<lparr>c_buffer := buf\<rparr>) k (ps[t := WaitBucket tk idx ts])"
      by (rule move) (use drain_empty(1) p insert_op [of tk] in auto)
    then show ?thesis using drain_empty silent [of "c\<lparr>c_buffer := buf\<rparr>"] by (auto simp: same_config_def)
  next
    case (drain_pop b i buf tk idx j ts)
    obtain r buf' where "buffer_pop (c_buffer c) = Inr (r, buf')" "map_ok wy (c\<lparr>c_buffer := buf'\<rparr>) k"
      "\<And>b i. r = Some (b, i) \<Longrightarrow> b < 2 ^ k \<and> i < 4" using pop_ok [OF m] by blast
    then have "map_ok wy (c\<lparr>c_buffer := buf\<rparr>) k" and e: "b < 2 ^ k" "i < 4" using drain_pop(5) by auto
    then have "sys_ok wy (c\<lparr>c_buffer := buf\<rparr>) k (ps[t := WaitEvent b i tk idx j ts])"
      by (intro move) (use drain_pop(1) p e in auto)
    then show ?thesis using drain_pop silent [of "c\<lparr>c_buffer := buf\<rparr>"] by (auto simp: same_config_def)
  next
    case (event_lock b l i tk idx j ts)
    have "sys_ok wy (with_locks c l) k (ps[t := AtEvent b i tk idx j ts])"
      by (rule sys_ok_lock [OF ok t]) (use event_lock(1,5) p in auto)
    then show ?thesis using event_lock effect_locks [OF silent [of c]] by auto
  next
    case (event_touch b i c1 l tk idx j ts)
    have "b < 2 ^ k" "i < 4" using p event_touch(1) by auto
    then obtain c2 where c2: "touch_bucket c b i = Inr c2" "map_ok wy c2 k" "mi_locks (inner c2) = mi_locks (inner c)"
      "conc_ix c2 = conc_ix c" "effect wy c c2 []" by (rule touch_bucket_ok [OF m])
    have "c1 = c2" using event_touch(5) c2(1) by simp
    then have "sys_ok wy (with_locks c1 l) k (ps[t := Draining tk idx j ts])"
      by (intro sys_ok_unlock [OF ok t]) (use event_touch(1,6) c2 p in auto)
    then show ?thesis using event_touch effect_locks [OF c2(5)] \<open>c1 = c2\<close> by auto
  next
    case (lock b l tk ts)
    have "sys_ok wy (with_locks c l) k (ps[t := AtBucket tk b ts])"
      by (rule sys_ok_lock [OF ok t]) (use lock(1,5) p map_ok_ix [OF m] in auto)
    then show ?thesis using lock effect_locks [OF silent [of c]] by auto
  next
    case (critical tk cmd b r ts)
    have tk: "task_ok tk" "b = conc_ix c (wy (key_of tk))" using p critical(1) by auto
    obtain r2 c2 where c2: "section_of wy c tk b = Inr (r2, c2)" "map_ok wy c2 k"
      "mi_locks (inner c2) = mi_locks (inner c)" "conc_ix c2 = conc_ix c" "effect wy c c2 [(cmd, r2)]"
      using section_ok [OF m tk(1) critical(4)] unfolding tk(2) [symmetric] by blast
    have e: "r2 = r" "c2 = c'" using critical(5) c2(1) by simp_all
    have "sys_ok wy c' k (ps[t := Leaving b ts])"
      using c2(2-4) unfolding e by (rule move) (use critical(1) p in auto)
    then show ?thesis using critical(2,3) c2(5) e by auto
  next
    case (unlock b l ts)
    have "sys_ok wy (with_locks c l) k (ps[t := Releasing ts])"
      by (rule sys_ok_unlock [OF ok t _ m refl refl]) (use unlock(1,5) p in auto)
    then show ?thesis using unlock effect_locks [OF silent [of c]] by auto
  next
    case (release ts)
    have "sys_ok wy c k (ps[t := Ready ts])" by (rule move [OF m refl refl]) (use release(1) p in auto)
    then show ?thesis using release silent [of c] by auto
  qed
qed

section \<open>Reachable states\<close>

lemma shadow_card:
  "finite (dom M) \<Longrightarrow> finite (dom (foldl shadow_step M cs)) \<and> card (dom (foldl shadow_step M cs)) \<le> card (dom M) + length cs"
proof (induction cs arbitrary: M)
  case Nil
  then show ?case by simp
next
  case (Cons cmd cs)
  have "finite (dom (shadow_step M cmd)) \<and> card (dom (shadow_step M cmd)) \<le> Suc (card (dom M))"
    using Cons.prems by (cases cmd) (auto simp: card_insert_if card_Diff_subset_Int intro: le_SucI)
  then show ?case using Cons.IH [of "shadow_step M cmd"] by auto
qed

lemma recorded_len:
  assumes m: "map_ok wy c k" and r: "recorded_in (conc_lookup wy c) (foldl shadow_step Map.empty cs)"
  shows "conc_len c \<le> length cs"
proof -
  from m obtain C where "conc_tab wy c k C" by (rule map_okE)
  note len = conc_tab_len(1) [OF this]
  have "dom (conc_lookup wy c) \<subseteq> dom (foldl shadow_step Map.empty cs)"
    using recorded_in_dom [OF r] by blast
  then have "card (dom (conc_lookup wy c)) \<le> card (dom (foldl shadow_step Map.empty cs))"
    using shadow_card [of Map.empty cs] by (intro card_mono) auto
  then show ?thesis using len shadow_card [of Map.empty cs] by simp
qed

lemma trace_ok_append:
  "length cs = length rs \<Longrightarrow> trace_ok M (cs @ cs') (rs @ rs') \<longleftrightarrow> trace_ok M cs rs \<and> trace_ok (foldl shadow_step M cs) cs' rs'"
  by (induction cs rs arbitrary: M rule: list_induct2) auto

lemma trace_ok_length: "trace_ok M cs rs \<Longrightarrow> length cs = length rs"
  by (induction M cs rs rule: trace_ok.induct) auto

lemma threads_inv_iff:
  "threads_inv wy s \<longleftrightarrow> (\<exists>k. sys_ok wy (shared s) k (pcs s))
     \<and> trace_ok Map.empty (commands (history s)) (outcomes (history s))
     \<and> recorded_in (conc_lookup wy (shared s)) (foldl shadow_step Map.empty (commands (history s)))"
  by (simp add: threads_inv_def sys_ok_def)

lemma threads_step_inv:
  assumes "threads_step wy s s'" and inv: "threads_inv wy s" and len: "length (history s) \<le> 2 ^ 54"
  shows "threads_inv wy s'"
  using assms(1)
proof cases
  case (move t c' pc' ev)
  from inv obtain k where k: "sys_ok wy (shared s) k (pcs s)"
    and tr: "trace_ok Map.empty (commands (history s)) (outcomes (history s))"
    and rec: "recorded_in (conc_lookup wy (shared s)) (foldl shadow_step Map.empty (commands (history s)))"
    unfolding threads_inv_iff by blast
  have "conc_len (shared s) \<le> 2 ^ 54"
    using recorded_len [OF sys_okD(1) [OF k] rec] len by (simp add: commands_def)
  note st = thread_step_ok [OF move(3) k move(2) this]
  then have ans: "answers wy (shared s) c' ev" using effect_answers by blast
  let ?ev = "map (Pair t) ev"
  have c: "commands (history s @ ?ev) = commands (history s) @ map fst ev"
    "outcomes (history s @ ?ev) = outcomes (history s) @ map snd ev"
    by (auto simp: commands_def outcomes_def)
  from ans rec have "trace_ok (foldl shadow_step Map.empty (commands (history s))) (map fst ev) (map snd ev)"
    "recorded_in (conc_lookup wy c') (foldl shadow_step (foldl shadow_step Map.empty (commands (history s))) (map fst ev))"
    unfolding answers_def by blast+
  then show ?thesis using st tr unfolding threads_inv_iff move(1)
    by (simp add: c trace_ok_append [OF trace_ok_length [OF tr]])
qed

section \<open>Program order and the work left\<close>

text \<open>What of its program a thread has still to answer.\<close>

fun todo :: "thread_pc \<Rightarrow> task list" where
  "todo (Ready ts) = ts"
| "todo (Growing n tk ts) = (case tk of None \<Rightarrow> ts | Some tk \<Rightarrow> tk # ts)"
| "todo (Ticking tk ts) = tk # ts"
| "todo (Entering tk ts) = tk # ts"
| "todo (Draining tk idx j ts) = tk # ts"
| "todo (WaitEvent b i tk idx j ts) = tk # ts"
| "todo (AtEvent b i tk idx j ts) = tk # ts"
| "todo (WaitBucket tk b ts) = tk # ts"
| "todo (AtBucket tk b ts) = tk # ts"
| "todo (Leaving b ts) = ts"
| "todo (Releasing ts) = ts"

definition answered :: "nat \<Rightarrow> (nat \<times> command \<times> outcome) list \<Rightarrow> command list" where
  "answered t h = commands (filter (\<lambda>(u, _). u = t) h)"

abbreviation ops :: "task list \<Rightarrow> command list" where
  "ops \<equiv> List.map_filter op_of"

text \<open>A bound on the steps a thread has still to take.\<close>

definition task_steps :: nat where "task_steps = 3 * DRAIN_BATCH + 20"

fun work_left :: "thread_pc \<Rightarrow> nat" where
  "work_left (Ready ts) = task_steps * length ts"
| "work_left (Growing n tk ts) = task_steps * length ts + 3 * DRAIN_BATCH + 19"
| "work_left (Ticking tk ts) = task_steps * length ts + 3 * DRAIN_BATCH + 18"
| "work_left (Entering tk ts) = task_steps * length ts + 3 * DRAIN_BATCH + 17"
| "work_left (Draining tk idx j ts) = task_steps * length ts + 3 * j + 10"
| "work_left (WaitEvent b i tk idx j ts) = task_steps * length ts + 3 * j + 12"
| "work_left (AtEvent b i tk idx j ts) = task_steps * length ts + 3 * j + 11"
| "work_left (WaitBucket tk b ts) = task_steps * length ts + 9"
| "work_left (AtBucket tk b ts) = task_steps * length ts + 8"
| "work_left (Leaving b ts) = task_steps * length ts + 7"
| "work_left (Releasing ts) = task_steps * length ts + 6"

definition threads_work :: "threads \<Rightarrow> nat" where
  "threads_work s = sum_list (map work_left (pcs s))"

lemma thread_step_work: "thread_step wy nr c pc c' pc' ev \<Longrightarrow> work_left pc' < work_left pc"
proof (induction rule: thread_step.induct)
  case (first tk ts)
  then show ?case by (cases tk rule: is_insert.cases) (simp_all add: task_steps_def)
next
  case (grow n c' tk ts)
  then show ?case by (cases tk) simp_all
qed (simp_all add: enter_task_def Let_def)

lemma thread_step_todo:
  "thread_step wy nr c pc c' pc' ev \<Longrightarrow> ops (todo pc) = map fst ev @ ops (todo pc')
     \<and> length (todo pc') + length ev \<le> length (todo pc)"
proof (induction rule: thread_step.induct)
  case (first tk ts)
  then show ?case by (cases tk rule: is_insert.cases) (simp_all add: List.map_filter_simps)
next
  case (grow n c' tk ts)
  then show ?case by (cases tk) simp_all
qed (simp_all add: enter_task_def List.map_filter_simps Let_def)

lemma sum_list_update_nat:
  fixes f :: "'a \<Rightarrow> nat"
  assumes "t < length xs"
  shows "sum_list (map f (xs[t := x])) + f (xs ! t) = sum_list (map f xs) + f x"
  using assms
proof (induction xs arbitrary: t)
  case Nil
  then show ?case by simp
next
  case (Cons y xs)
  then show ?case by (cases t) force+
qed

lemma threads_step_progress:
  assumes "threads_step wy s s'"
  shows "threads_work s' < threads_work s" and "length (pcs s') = length (pcs s)"
    and "sum_list (map (\<lambda>pc. length (todo pc)) (pcs s')) + length (history s')
           \<le> sum_list (map (\<lambda>pc. length (todo pc)) (pcs s)) + length (history s)"
    and "u < length (pcs s) \<Longrightarrow>
      answered u (history s') @ ops (todo (pcs s' ! u)) = answered u (history s) @ ops (todo (pcs s ! u))"
proof -
  from assms obtain t c' pc' ev where t: "t < length (pcs s)"
    and st: "thread_step wy (no_readers (pcs s)) (shared s) (pcs s ! t) c' pc' ev"
    and s': "s' = s\<lparr>shared := c', pcs := (pcs s)[t := pc'], history := history s @ map (Pair t) ev\<rparr>"
    by (auto elim: threads_step.cases)
  note td = thread_step_todo [OF st]
  show "threads_work s' < threads_work s"
    using sum_list_update_nat [OF t, of work_left pc'] thread_step_work [OF st] by (simp add: s' threads_work_def)
  show "length (pcs s') = length (pcs s)" by (simp add: s')
  show "sum_list (map (\<lambda>pc. length (todo pc)) (pcs s')) + length (history s')
      \<le> sum_list (map (\<lambda>pc. length (todo pc)) (pcs s)) + length (history s)"
    using sum_list_update_nat [OF t, of "\<lambda>pc. length (todo pc)" pc'] td by (simp add: s')
  show "answered u (history s') @ ops (todo (pcs s' ! u)) = answered u (history s) @ ops (todo (pcs s ! u))"
    if "u < length (pcs s)"
  proof (cases "u = t")
    case True
    have "answered t (map (Pair t) ev) = map fst ev"
      by (auto simp: answered_def commands_def filter_map comp_def case_prod_beta)
    then show ?thesis using True t td by (simp add: s') (simp add: answered_def commands_def)
  next
    case False
    have "filter (\<lambda>(u', _). u' = u) (map (Pair t) ev) = []"
      using False by (auto simp: filter_empty_conv)
    then show ?thesis using False by (simp add: s' answered_def)
  qed
qed

lemma ready_sum: "sum_list (map (\<lambda>pc. length (todo pc)) (map Ready programs)) = sum_list (map length programs)"
  by (simp add: comp_def)

lemma threads_reachable_inv:
  assumes "threads_reachable wy c programs s" and c: "conc_ready wy 0 c" "conc_lookup wy c = Map.empty"
    "resize_threshold c = 3 / 4" "conc_num_buckets c \<le> 2 ^ 54"
    and tasks: "\<forall>p\<in>set programs. list_all task_ok p" and len: "sum_list (map length programs) \<le> 2 ^ 54"
  shows "threads_inv wy s \<and> length (pcs s) = length programs
     \<and> sum_list (map (\<lambda>pc. length (todo pc)) (pcs s)) + length (history s) \<le> sum_list (map length programs)
     \<and> (\<forall>t<length programs. answered t (history s) @ ops (todo (pcs s ! t)) = ops (programs ! t))"
  using assms(1)
proof (induction rule: threads_reachable.induct)
  case start
  from c(1) obtain k C where k: "conc_tab wy c k C" "mi_locks (inner c) = locks_new (2 ^ k)"
    "buffer_inv (c_buffer c)" "\<forall>(b, i)\<in>set (pending (c_buffer c)). b < 2 ^ k \<and> i < 4"
    by (auto simp: conc_ready_def elim: conc_invE)
  have "(2::nat) ^ k \<le> 2 ^ 54" using conc_tabD(1) [OF k(1)] c(4) by (simp add: inner_shape_def conc_num_buckets_def)
  then have "k \<le> 54" by (rule power_le_imp_le_exp [rotated]) simp
  then have "map_ok wy c k" using k c(3) by (auto simp: map_ok_def)
  moreover have "locks_ok (mi_locks (inner c)) (2 ^ k) (map Ready programs)"
    unfolding k(2) by (rule locks_ok_new) (simp add: list_all_iff)
  moreover have "list_all (pc_ok (key_ix wy c) k) (map Ready programs)" using tasks by (simp add: list_all_iff)
  ultimately have "threads_inv wy \<lparr>shared = c, pcs = map Ready programs, history = []\<rparr>"
    by (auto simp: threads_inv_def commands_def outcomes_def recorded_in_def c(2))
  then show ?case by (simp add: ready_sum [simplified] answered_def commands_def comp_def)
next
  case (step s s')
  have "length (history s) \<le> 2 ^ 54" using step.IH len by linarith
  then have "threads_inv wy s'" using threads_step_inv [OF step(2)] step.IH by blast
  then show ?case using step.IH threads_step_progress(2-4) [OF step(2)] by fastforce
qed

section \<open>No thread is stuck\<close>

lemma lock_free_step:
  assumes ok: "locks_ok l n ps" and b: "b < n" and free: "\<And>t. t < length ps \<Longrightarrow> held (ps ! t) \<noteq> Some b"
  shows "\<exists>l'. locks_lock l b = Inr l'"
  using locks_okD(1) [OF ok] locks_okD(2) [OF ok b] free b by (auto simp: locks_lock_def index_def)

text \<open>A thread that holds a bucket lock can always go on.\<close>

lemma holder_steps:
  assumes ok: "sys_ok wy c k ps" and t: "t < length ps" "held (ps ! t) = Some b"
  shows "\<exists>c' pc' ev. thread_step wy nr c (ps ! t) c' pc' ev"
proof -
  note m = sys_okD(1) [OF ok] and p = sys_okD(3) [OF ok t(1)] and l = locks_okD(1) [OF sys_okD(2) [OF ok]]
  have un: "\<exists>l. locks_unlock (mi_locks (inner c')) b = Inr l"
    if "mi_locks (inner c') = mi_locks (inner c)" "b < 2 ^ k" for c' b
    using that l by (simp add: locks_unlock_def index_def)
  show ?thesis
  proof (cases "ps ! t")
    case (AtEvent b' i tk idx j ts)
    then have "b' < 2 ^ k" "i < 4" using p by auto
    then obtain c1 where "touch_bucket c b' i = Inr c1" "mi_locks (inner c1) = mi_locks (inner c)"
      by (rule touch_bucket_ok [OF m])
    then show ?thesis using AtEvent un [of c1 b'] \<open>b' < 2 ^ k\<close> thread_step.event_touch by metis
  next
    case (AtBucket tk b' ts)
    then obtain cmd where tk: "op_of tk = Some cmd" "task_ok tk" "b' = conc_ix c (wy (key_of tk))" using p by auto
    then show ?thesis using AtBucket section_ok [OF m tk(2,1)] thread_step.critical by metis
  next
    case (Leaving b' ts)
    then show ?thesis using p un [of c b'] thread_step.unlock by (metis pc_ok.simps(10))
  qed (use t in auto)
qed

text \<open>When no bucket lock is held, every thread with the read lock can go on.\<close>

lemma reader_steps:
  assumes ok: "sys_ok wy c k ps" and t: "t < length ps" "reading (ps ! t)"
    and free: "\<And>u. u < length ps \<Longrightarrow> held (ps ! u) = None"
  shows "\<exists>c' pc' ev. thread_step wy nr c (ps ! t) c' pc' ev"
proof -
  note m = sys_okD(1) [OF ok] and p = sys_okD(3) [OF ok t(1)]
  have lk: "\<exists>l. locks_lock (mi_locks (inner c)) b = Inr l" if "b < 2 ^ k" for b
    by (rule lock_free_step [OF sys_okD(2) [OF ok] that]) (simp add: free)
  show ?thesis
  proof (cases "ps ! t")
    case (Draining tk idx j ts)
    obtain r buf where r: "buffer_pop (c_buffer c) = Inr (r, buf)" by (rule pop_ok [OF m])
    show ?thesis
    proof (cases j)
      case 0
      then show ?thesis using Draining thread_step.drain_none by metis
    next
      case (Suc j')
      then show ?thesis using Draining r thread_step.drain_empty thread_step.drain_pop by (metis option.exhaust surj_pair)
    qed
  next
    case (WaitEvent b i tk idx j ts)
    then show ?thesis using lk [of b] p thread_step.event_lock by (metis pc_ok.simps(6))
  next
    case (WaitBucket tk b ts)
    then show ?thesis using lk [of b] p map_ok_ix [OF m] thread_step.lock by (metis pc_ok.simps(8))
  next
    case (Releasing ts)
    then show ?thesis using thread_step.release by metis
  qed (use t free [OF t(1)] in auto)
qed

lemma outside_steps:
  assumes ok: "sys_ok wy c k ps" and t: "t < length ps" "ps ! t \<noteq> Ready []" and nr: "no_readers ps"
  shows "\<exists>c' pc' ev. thread_step wy (no_readers ps) c (ps ! t) c' pc' ev"
proof (cases "ps ! t")
  case (Ready ts)
  then show ?thesis using t thread_step.first by (metis list.exhaust)
next
  case (Growing n tk ts)
  then have "n \<le> 2 ^ 54" using sys_okD(3) [OF ok t(1)] by simp
  then obtain c' k' where "conc_resize wy c n = Inr c'"
    by (rule sys_ok_grow [OF ok nr, where pc = "Ready []"]) simp_all
  then show ?thesis using Growing nr thread_step.grow by metis
next
  case (Ticking tk ts)
  then show ?thesis using thread_step.tick by metis
next
  case (Entering tk ts)
  then show ?thesis using thread_step.enter by metis
qed (use nr t in \<open>auto simp: no_readers_def list_all_length\<close>)

lemma some_thread_steps:
  assumes ok: "sys_ok wy c k ps" and t: "t < length ps" "ps ! t \<noteq> Ready []"
  shows "\<exists>u<length ps. \<exists>c' pc' ev. thread_step wy (no_readers ps) c (ps ! u) c' pc' ev"
proof (cases "\<exists>u<length ps. held (ps ! u) \<noteq> None")
  case True
  then show ?thesis using holder_steps [OF ok] by blast
next
  case False
  then have free: "\<And>u. u < length ps \<Longrightarrow> held (ps ! u) = None" by blast
  show ?thesis
  proof (cases "no_readers ps")
    case True
    then show ?thesis using outside_steps [OF ok t] t(1) by blast
  next
    case False
    then obtain u where "u < length ps" "reading (ps ! u)" by (auto simp: no_readers_def list_all_length)
    then show ?thesis using reader_steps [OF ok _ _ free] by blast
  qed
qed

lemma runs_reachable:
  "(threads_step wy ^^ m) \<lparr>shared = c, pcs = map Ready programs, history = []\<rparr> s \<Longrightarrow> threads_reachable wy c programs s"
proof (induction m arbitrary: s)
  case 0
  then show ?case by (auto intro: threads_reachable.start)
next
  case (Suc m)
  then show ?case by (auto intro: threads_reachable.step)
qed

lemma runs_bounded: "(threads_step wy ^^ m) s s' \<Longrightarrow> m + threads_work s' \<le> threads_work s"
proof (induction m arbitrary: s')
  case 0
  then show ?case by simp
next
  case (Suc m)
  then obtain s1 where "(threads_step wy ^^ m) s s1" "threads_step wy s1 s'" by auto
  then show ?case using Suc.IH [of s1] threads_step_progress(1) [of wy s1 s'] by simp
qed

lemma runs_to_end: "\<exists>m s'. (threads_step wy ^^ m) s s' \<and> (\<nexists>s''. threads_step wy s' s'')"
proof (induction "threads_work s" arbitrary: s rule: less_induct)
  case less
  show ?case
  proof (cases "\<exists>s1. threads_step wy s s1")
    case True
    then obtain s1 where s1: "threads_step wy s s1" by blast
    from less [OF threads_step_progress(1) [OF s1]] obtain m s' where
      "(threads_step wy ^^ m) s1 s'" "\<nexists>s''. threads_step wy s' s''" by blast
    then show ?thesis using relpowp_Suc_I2 [of "threads_step wy" s s1 m s', OF s1] by blast
  next
    case False
    then show ?thesis by (intro exI [of _ 0] exI [of _ s]) simp
  qed
qed

lemma new_map_ready:
  assumes "with_config n auto sharded = Inr c" and "n \<le> 2 ^ 53"
  shows "conc_ready wy 0 c" and "conc_lookup wy c = Map.empty" and "resize_threshold c = 3 / 4"
    and "conc_num_buckets c \<le> 2 ^ 54"
proof -
  have "n \<le> 2 ^ 56" using assms(2) by simp
  then obtain c' k where c': "with_config n auto sharded = Inr c'" "conc_inv wy c'" "conc_lookup wy c' = Map.empty"
    "c_count c' = 0" "resize_threshold c' = 3 / 4" "conc_num_buckets c' = 2 ^ k" "2 ^ k < 2 * max n 1"
    by (rule conc_start)
  have c: "c' = c" using c'(1) assms(1) by simp
  show "conc_lookup wy c = Map.empty" "resize_threshold c = 3 / 4" using c'(3,5) by (simp_all add: c)
  show n: "conc_num_buckets c \<le> 2 ^ 54" using c'(6,7) assms(2) by (simp add: c)
  show "conc_ready wy 0 c" using c'(2,4,5) n by (simp add: c conc_ready_def conc_len_def)
qed

section \<open>Properties\<close>



lemma conc_finish:
  assumes "with_config n auto sharded = Inr c" and "n \<le> 2 ^ 53"
    and "\<forall>p\<in>set programs. list_all task_ok p" and "sum_list (map length programs) \<le> 2 ^ 54"
    and "(threads_step wy ^^ m) \<lparr>shared = c, pcs = map Ready programs, history = []\<rparr> s"
  shows "m \<le> 212 * sum_list (map length programs)
     \<and> ((\<exists>s'. threads_step wy s s') \<or> list_all (\<lambda>pc. pc = Ready []) (pcs s))
     \<and> (list_all (\<lambda>pc. pc = Ready []) (pcs s) \<longrightarrow>
          conc_inv wy (shared s) \<and> (\<forall>t<length programs. answered t (history s) = ops (programs ! t)))"
proof (intro conjI impI)
  let ?s0 = "\<lparr>shared = c, pcs = map Ready programs, history = []\<rparr>"
  have r: "threads_reachable wy c programs s" by (rule runs_reachable [OF assms(5)])
  note inv = threads_reachable_inv [OF r new_map_ready [OF assms(1,2)] assms(3,4)]
  then obtain k where k: "sys_ok wy (shared s) k (pcs s)" unfolding threads_inv_iff by blast
  have "threads_work ?s0 = 212 * sum_list (map length programs)"
    by (simp add: threads_work_def task_steps_def DRAIN_BATCH_def comp_def sum_list_const_mult)
  then show "m \<le> 212 * sum_list (map length programs)" using runs_bounded [OF assms(5)] by simp
  show "(\<exists>s'. threads_step wy s s') \<or> list_all (\<lambda>pc. pc = Ready []) (pcs s)"
    using some_thread_steps [OF k] threads_step.move unfolding list_all_length by metis
  assume fin: "list_all (\<lambda>pc. pc = Ready []) (pcs s)"
  then have quiet: "list_all (\<lambda>pc. held pc = None) (pcs s)" by (auto simp: list_all_iff)
  from sys_okD(1) [OF k] obtain C where C: "conc_tab wy (shared s) k C" "buffer_inv (c_buffer (shared s))"
    "\<forall>(b, i)\<in>set (pending (c_buffer (shared s))). b < 2 ^ k \<and> i < 4" by (rule map_okE)
  then show "conc_inv wy (shared s)"
    by (intro conc_invI [OF C(1) locks_ok_idle [OF sys_okD(2) [OF k] quiet]])
  show "\<forall>t<length programs. answered t (history s) = ops (programs ! t)"
    using inv fin by (fastforce simp: list_all_length List.map_filter_simps)
qed



end
