(* ===== verification/Sharded.thy ===== *)
theory Sharded
  imports Resize
begin

text \<open>
  \<^verbatim>\<open>ShardedPulseMap\<close>, \<^verbatim>\<open>src/src/sharded.rs\<close>: sixteen concurrent maps, the key's hash bits
  14..17 choose one. Each operation runs on the shard of its key; the maintenance operations visit
  all shards. The array behind the box is a list of sixteen maps; sums of the statistics are
  \<^verbatim>\<open>usize\<close> sums, so that their absence of overflow is a theorem.
\<close>

section \<open>State and routing\<close>

definition NUM_SHARDS :: nat where "NUM_SHARDS = 16"

record sharded_map =
  shards :: "concurrent_map list"

text \<open>\<^verbatim>\<open>core::array::from_fn\<close> over the shard constructor.\<close>

fun shards_from :: "nat \<Rightarrow> nat \<Rightarrow> bool \<Rightarrow> concurrent_map list res" where
  "shards_from 0 n auto = Inr []"
| "shards_from (Suc k) n auto =
     bindR (new_shard n auto) (\<lambda>s. bindR (shards_from k n auto) (\<lambda>ss. Inr (s # ss)))"

definition sharded_new :: "nat \<Rightarrow> sharded_map res" where
  "sharded_new n = bindR (shards_from NUM_SHARDS n False) (\<lambda>ss. Inr \<lparr>shards = ss\<rparr>)"

definition sharded_with_auto_resize :: "nat \<Rightarrow> sharded_map res" where
  "sharded_with_auto_resize n = bindR (shards_from NUM_SHARDS n True) (\<lambda>ss. Inr \<lparr>shards = ss\<rparr>)"

definition shard_for :: "(bytes \<Rightarrow> u64) \<Rightarrow> bytes \<Rightarrow> nat" where
  "shard_for wy key_bytes =
     unat (shr64 (h1 (compute_hash wy key_bytes)) 14 AND word_of_nat (NUM_SHARDS - 1))"

text \<open>A method call on \<^verbatim>\<open>self.shards[idx]\<close>.\<close>

definition on_shard :: "sharded_map \<Rightarrow> nat \<Rightarrow> (concurrent_map \<Rightarrow> ('a \<times> concurrent_map) res) \<Rightarrow> ('a \<times> sharded_map) res" where
  "on_shard m idx f =
     bindR (index (shards m) idx) (\<lambda>s. bindR (f s) (\<lambda>(r, s). Inr (r, m\<lparr>shards := (shards m)[idx := s]\<rparr>)))"

section \<open>Operations on one key\<close>

definition sharded_insert ::
  "'k pulse_key \<Rightarrow> 'v pulse_value \<Rightarrow> (bytes \<Rightarrow> u64) \<Rightarrow> sharded_map \<Rightarrow> 'k \<Rightarrow> 'v \<Rightarrow> sharded_map res" where
  "sharded_insert K V wy m key val =
     (let idx = shard_for wy (with_key_bytes K key) in
      bindR (on_shard m idx (\<lambda>s. bindR (conc_insert K V wy s key val) (\<lambda>s. Inr ((), s)))) (\<lambda>(_, m). Inr m))"

definition sharded_insert_ttl ::
  "'k pulse_key \<Rightarrow> 'v pulse_value \<Rightarrow> (bytes \<Rightarrow> u64) \<Rightarrow> sharded_map \<Rightarrow> 'k \<Rightarrow> 'v \<Rightarrow> u64 \<Rightarrow> sharded_map res" where
  "sharded_insert_ttl K V wy m key val ttl =
     (let idx = shard_for wy (with_key_bytes K key) in
      bindR (on_shard m idx (\<lambda>s. bindR (conc_insert_ttl K V wy s key val ttl) (\<lambda>s. Inr ((), s)))) (\<lambda>(_, m). Inr m))"

definition sharded_get ::
  "'k pulse_key \<Rightarrow> 'v pulse_value \<Rightarrow> (bytes \<Rightarrow> u64) \<Rightarrow> sharded_map \<Rightarrow> 'k \<Rightarrow> ('v option \<times> sharded_map) res" where
  "sharded_get K V wy m key =
     (let idx = shard_for wy (with_key_bytes K key) in on_shard m idx (\<lambda>s. conc_get K V wy s key))"

definition sharded_peek ::
  "'k pulse_key \<Rightarrow> 'v pulse_value \<Rightarrow> (bytes \<Rightarrow> u64) \<Rightarrow> sharded_map \<Rightarrow> 'k \<Rightarrow> ('v option \<times> sharded_map) res" where
  "sharded_peek K V wy m key =
     (let idx = shard_for wy (with_key_bytes K key) in on_shard m idx (\<lambda>s. conc_peek K V wy s key))"

definition sharded_contains_key ::
  "'k pulse_key \<Rightarrow> 'v pulse_value \<Rightarrow> (bytes \<Rightarrow> u64) \<Rightarrow> sharded_map \<Rightarrow> 'k \<Rightarrow> (bool \<times> sharded_map) res" where
  "sharded_contains_key K V wy m key = bindR (sharded_peek K V wy m key) (\<lambda>(r, m). Inr (r \<noteq> None, m))"

definition sharded_remove ::
  "'k pulse_key \<Rightarrow> (bytes \<Rightarrow> u64) \<Rightarrow> sharded_map \<Rightarrow> 'k \<Rightarrow> (bool \<times> sharded_map) res" where
  "sharded_remove K wy m key =
     (let idx = shard_for wy (with_key_bytes K key) in on_shard m idx (\<lambda>s. conc_remove K wy s key))"

section \<open>Operations on all shards\<close>

fun resize_each :: "(bytes \<Rightarrow> u64) \<Rightarrow> nat \<Rightarrow> concurrent_map list \<Rightarrow> concurrent_map list res" where
  "resize_each wy n [] = Inr []"
| "resize_each wy n (s # ss) =
     bindR (conc_resize wy s n) (\<lambda>s. bindR (resize_each wy n ss) (\<lambda>ss. Inr (s # ss)))"

definition resize_all :: "(bytes \<Rightarrow> u64) \<Rightarrow> sharded_map \<Rightarrow> nat \<Rightarrow> sharded_map res" where
  "resize_all wy m n = bindR (resize_each wy n (shards m)) (\<lambda>ss. Inr (m\<lparr>shards := ss\<rparr>))"

definition sharded_set_ttl :: "sharded_map \<Rightarrow> u64 \<Rightarrow> sharded_map" where
  "sharded_set_ttl m ttl = m\<lparr>shards := map (\<lambda>s. conc_set_ttl s ttl) (shards m)\<rparr>"

definition sharded_get_ttl :: "sharded_map \<Rightarrow> u64 res" where
  "sharded_get_ttl m = bindR (index (shards m) 0) (\<lambda>s. Inr (conc_get_ttl s))"

definition sharded_current_epoch :: "sharded_map \<Rightarrow> u64" where
  "sharded_current_epoch m =
     (case map conc_current_epoch (shards m) of [] \<Rightarrow> 0 | e # es \<Rightarrow> foldl max e es)"

definition sharded_len :: "sharded_map \<Rightarrow> usize" where
  "sharded_len m = sum_list (map (\<lambda>s. word_of_nat (conc_len s)) (shards m))"

definition sharded_is_empty :: "sharded_map \<Rightarrow> bool" where
  "sharded_is_empty m \<longleftrightarrow> list_all conc_is_empty (shards m)"

definition sharded_capacity :: "sharded_map \<Rightarrow> usize" where
  "sharded_capacity m = sum_list (map (\<lambda>s. word_of_nat (conc_capacity s)) (shards m))"

definition sharded_load_factor :: "sharded_map \<Rightarrow> real" where
  "sharded_load_factor m =
     (let cap = sharded_capacity m in
      if cap = 0 then 0 else real (unat (sharded_len m)) / real (unat cap))"

definition sharded_eviction_count :: "sharded_map \<Rightarrow> usize" where
  "sharded_eviction_count m = sum_list (map (\<lambda>s. word_of_nat (conc_eviction_count s)) (shards m))"

section \<open>Invariant and abstraction\<close>

text \<open>Every shard is ready, uses the compacted hash, shares the default TTL and stores only its own keys.\<close>

definition shard_ok :: "(bytes \<Rightarrow> u64) \<Rightarrow> nat \<Rightarrow> u64 \<Rightarrow> nat \<Rightarrow> concurrent_map \<Rightarrow> bool" where
  "shard_ok wy n ttl i s \<longleftrightarrow> conc_ready wy n s \<and> sharded_index s \<and> c_default_ttl s = ttl
     \<and> (\<forall>k \<in> dom (conc_lookup wy s). shard_for wy k = i)"

definition sharded_ready :: "(bytes \<Rightarrow> u64) \<Rightarrow> nat \<Rightarrow> sharded_map \<Rightarrow> bool" where
  "sharded_ready wy n m \<longleftrightarrow> length (shards m) = 16
     \<and> (\<forall>i<16. shard_ok wy n (c_default_ttl (shards m ! 0)) i (shards m ! i))"

definition sharded_lookup :: "(bytes \<Rightarrow> u64) \<Rightarrow> sharded_map \<Rightarrow> stored_map" where
  "sharded_lookup wy m key = conc_lookup wy (shards m ! shard_for wy key) key"

abbreviation shard_epoch :: "(bytes \<Rightarrow> u64) \<Rightarrow> sharded_map \<Rightarrow> bytes \<Rightarrow> u64" where
  "shard_epoch wy m key \<equiv> c_epoch (shards m ! shard_for wy key)"

abbreviation sharded_ttl :: "sharded_map \<Rightarrow> u64" where
  "sharded_ttl m \<equiv> c_default_ttl (shards m ! 0)"

section \<open>The hash split\<close>

lemma shard_for_eq: "shard_for wy key = unat (wy key) div 2 ^ 14 mod 16"
proof -
  have "(word_of_nat (NUM_SHARDS - 1) :: u64) = mask 4" by (simp add: NUM_SHARDS_def mask_numeral)
  then have "shard_for wy key = unat (take_bit 4 (drop_bit 14 (wy key)))"
    by (simp add: shard_for_def h1_compute_hash shr64_def take_bit_eq_mask)
  also have "\<dots> = unat (wy key) div 2 ^ 14 mod 2 ^ 4"
    unfolding unsigned_take_bit_eq unsigned_drop_bit_eq
    using unsigned_less [of "wy key", where 'a = nat] by (simp add: take_bit_eq_mod drop_bit_eq_div)
  finally show ?thesis by simp
qed

lemma shard_for_less [simp]: "shard_for wy key < 16"
  by (simp add: shard_for_eq)

lemma bit_bucket_hash: "bit (bucket_hash h) n \<longleftrightarrow> bit h (if n < 14 then n else 4 + n)"
proof -
  have "shl64 1 14 - 1 = (mask 14 :: u64)" by (simp add: shl64_def mask_eq_exp_minus_1)
  then show ?thesis
    by (auto simp: bucket_hash_def shr64_def bit_simps Let_def dest: bit_imp_le_length)
qed

lemma bit_shard: "bit (unat h div 2 ^ 14 mod 16) j \<longleftrightarrow> j < 4 \<and> bit (h :: u64) (14 + j)"
proof -
  have "unat h div 2 ^ 14 mod 16 = take_bit 4 (drop_bit 14 (unat h))"
    by (simp add: take_bit_eq_mod drop_bit_eq_div)
  then show ?thesis by (simp add: bit_simps add.commute)
qed

section \<open>One shard at a time\<close>

lemma sum_list_upd:
  "i < length xs \<Longrightarrow> sum_list (xs[i := x]) = sum_list xs - xs ! i + (x :: u64)"
proof (induction xs arbitrary: i)
  case (Cons y ys)
  then show ?case by (cases i) auto
qed simp

lemma evictions_upd:
  assumes "i < length (shards m)"
  shows "sharded_eviction_count (m\<lparr>shards := (shards m)[i := s]\<rparr>) =
     sharded_eviction_count m - c_eviction_count (shards m ! i) + c_eviction_count s"
  using assms by (simp add: sharded_eviction_count_def conc_eviction_count_def sum_list_upd map_update)

lemma shard_step:
  assumes r: "sharded_ready wy (n + j) m" and i: "i < 16" and s: "conc_ready wy n s" "same_config (shards m ! i) s"
    and d: "dom (conc_lookup wy s) \<subseteq> dom (conc_lookup wy (shards m ! i)) \<union> K" and K: "\<forall>k\<in>K. shard_for wy k = i"
  shows "sharded_ready wy n (m\<lparr>shards := (shards m)[i := s]\<rparr>)"
    and "sharded_ttl (m\<lparr>shards := (shards m)[i := s]\<rparr>) = sharded_ttl m"
proof -
  have len: "length (shards m) = 16" and ok: "\<And>j'. j' < 16 \<Longrightarrow> shard_ok wy (n + j) (sharded_ttl m) j' (shards m ! j')"
    using r by (auto simp: sharded_ready_def)
  have "shard_ok wy n (sharded_ttl m) i s"
    using ok [OF i] s d K by (auto simp: shard_ok_def same_config_def)
  moreover have "shard_ok wy n (sharded_ttl m) j' (shards m ! j')" if "j' < 16" for j'
    using ok [OF that] by (auto simp: shard_ok_def conc_ready_def)
  ultimately have all: "shard_ok wy n (sharded_ttl m) j' ((shards m)[i := s] ! j')" if "j' < 16" for j'
    using that i len by (auto simp: nth_list_update)
  then show ttl: "sharded_ttl (m\<lparr>shards := (shards m)[i := s]\<rparr>) = sharded_ttl m"
    using all [of 0] by (simp add: shard_ok_def)
  show "sharded_ready wy n (m\<lparr>shards := (shards m)[i := s]\<rparr>)"
    using all len ttl unfolding sharded_ready_def by simp
qed

lemma lookup_upd:
  assumes "length (shards m) = 16"
  shows "sharded_lookup wy (m\<lparr>shards := (shards m)[i := s]\<rparr>) =
     (\<lambda>key. if shard_for wy key = i then conc_lookup wy s key else sharded_lookup wy m key)"
  using assms by (auto simp: sharded_lookup_def nth_list_update fun_eq_iff)

lemma shard_of:
  assumes "sharded_ready wy n m"
  shows "length (shards m) = 16" and "conc_ready wy n (shards m ! shard_for wy key)"
    and "c_default_ttl (shards m ! shard_for wy key) = sharded_ttl m"
    and "conc_lookup wy (shards m ! shard_for wy key) x \<noteq> None \<Longrightarrow> shard_for wy x = shard_for wy key"
    and "index (shards m) (shard_for wy key) = Inr (shards m ! shard_for wy key)"
proof -
  show len: "length (shards m) = 16" using assms by (simp add: sharded_ready_def)
  have ok: "shard_ok wy n (sharded_ttl m) (shard_for wy key) (shards m ! shard_for wy key)"
    using assms by (simp add: sharded_ready_def)
  then show "conc_ready wy n (shards m ! shard_for wy key)"
    and "c_default_ttl (shards m ! shard_for wy key) = sharded_ttl m"
    and "conc_lookup wy (shards m ! shard_for wy key) x \<noteq> None \<Longrightarrow> shard_for wy x = shard_for wy key"
    unfolding shard_ok_def by blast+
  show "index (shards m) (shard_for wy key) = Inr (shards m ! shard_for wy key)" using len by (simp add: index_ok)
qed

lemma sharded_insert_law:
  assumes ready: "sharded_ready wy (Suc n) m" and sz: "small_pair key val"
  shows "\<exists>m' victim. sharded_insert_ttl key_Vec val_Vec wy m key val ttl = Inr m' \<and> sharded_ready wy n m'
     \<and> shard_epoch wy m' key = shard_epoch wy m key + 1 \<and> sharded_ttl m' = sharded_ttl m
     \<and> sharded_lookup wy m' =
         stored_after (sharded_lookup wy m) victim key (val, \<lparr>st_epoch = shard_epoch wy m key + 1, st_ttl = ttl\<rparr>)
     \<and> (case victim of
          None \<Rightarrow> sharded_eviction_count m' = sharded_eviction_count m
        | Some x \<Rightarrow> x \<noteq> key \<and> sharded_lookup wy m key = None \<and> sharded_lookup wy m x \<noteq> None
            \<and> sharded_eviction_count m' = sharded_eviction_count m + 1)
     \<and> (\<forall>j. j \<noteq> shard_for wy key \<longrightarrow> shards m' ! j = shards m ! j)"
proof -
  let ?i = "shard_for wy key" let ?s = "shards m ! ?i"
  note sh = shard_of [OF ready]
  have r: "conc_ready wy (Suc n) ?s" by (rule sh(2))
  obtain s victim where i: "conc_insert_internal wy ?s key val ttl = Inr s" "conc_ready wy n s" "c_epoch s = c_epoch ?s + 1"
    "conc_lookup wy s = stored_after (conc_lookup wy ?s) victim key (val, \<lparr>st_epoch = c_epoch ?s + 1, st_ttl = ttl\<rparr>)"
    "case victim of
          None \<Rightarrow> c_eviction_count s = c_eviction_count ?s
        | Some x \<Rightarrow> x \<noteq> key \<and> conc_lookup wy ?s key = None \<and> conc_lookup wy ?s x \<noteq> None
                    \<and> c_eviction_count s = c_eviction_count ?s + 1" "same_config ?s s"
    using conc_insert_law [OF r sz, of ttl] by blast
  let ?m = "m\<lparr>shards := (shards m)[?i := s]\<rparr>"
  have "dom (conc_lookup wy s) \<subseteq> dom (conc_lookup wy ?s) \<union> {key}"
    unfolding i(4) by (auto simp: stored_after_def split: option.splits if_splits)
  from shard_step [OF _ shard_for_less i(2,6) this, of 1]
  have m': "sharded_ready wy n ?m" "sharded_ttl ?m = sharded_ttl m" using ready by simp_all
  have vic: "shard_for wy x = ?i" if "victim = Some x" for x
  proof -
    have "conc_lookup wy ?s x \<noteq> None" using i(5) unfolding that by simp
    then show ?thesis by (rule sh(4))
  qed
  have "sharded_insert_ttl key_Vec val_Vec wy m key val ttl = Inr ?m"
    using i(1) sh(5) by (simp add: sharded_insert_ttl_def on_shard_def conc_insert_ttl_def key_defs val_defs Let_def)
  moreover have "sharded_lookup wy ?m = stored_after (sharded_lookup wy m) victim key
      (val, \<lparr>st_epoch = shard_epoch wy m key + 1, st_ttl = ttl\<rparr>)"
  proof (cases victim)
    case None
    then show ?thesis unfolding lookup_upd [OF sh(1)] i(4)
      by (auto simp: stored_after_def sharded_lookup_def fun_eq_iff)
  next
    case (Some x)
    then show ?thesis unfolding lookup_upd [OF sh(1)] i(4) using vic [OF Some]
      by (auto simp: stored_after_def sharded_lookup_def fun_eq_iff)
  qed
  moreover have "case victim of
          None \<Rightarrow> sharded_eviction_count ?m = sharded_eviction_count m
        | Some x \<Rightarrow> x \<noteq> key \<and> sharded_lookup wy m key = None \<and> sharded_lookup wy m x \<noteq> None
            \<and> sharded_eviction_count ?m = sharded_eviction_count m + 1"
  proof (cases victim)
    case None
    then show ?thesis using i(5) sh(1) by (simp add: evictions_upd)
  next
    case (Some x)
    then show ?thesis using i(5) sh(1) vic [OF Some] by (simp add: evictions_upd sharded_lookup_def)
  qed
  ultimately show ?thesis using m' i(3) sh(1) by (intro exI [of _ ?m] exI [of _ victim]) simp
qed

lemma sharded_get_law:
  assumes ready: "sharded_ready wy n m"
  shows "\<exists>m'. sharded_get key_Vec val_Vec wy m key =
       Inr (live_value (shard_epoch wy m key) (sharded_ttl m) (sharded_lookup wy m key), m')
     \<and> sharded_ready wy n m' \<and> sharded_lookup wy m' = sharded_lookup wy m
     \<and> (\<forall>j. shard_epoch wy m' j = shard_epoch wy m j) \<and> sharded_ttl m' = sharded_ttl m
     \<and> sharded_eviction_count m' = sharded_eviction_count m"
proof -
  let ?i = "shard_for wy key" let ?s = "shards m ! ?i"
  note sh = shard_of [OF ready]
  have inv: "conc_inv wy ?s" using sh(2) by (simp add: conc_ready_def)
  obtain s where g: "conc_get_bytes wy ?s key = Inr (live_value (c_epoch ?s) (c_default_ttl ?s) (conc_lookup wy ?s key), s)"
    "conc_inv wy s" "conc_lookup wy s = conc_lookup wy ?s" "c_epoch s = c_epoch ?s"
    "c_eviction_count s = c_eviction_count ?s" "same_config ?s s" "conc_num_buckets s = conc_num_buckets ?s"
    using conc_get_law [OF inv, of key] by blast
  have "conc_ready wy n s" by (rule conc_ready_keep [OF sh(2) g(2,6,7)]) (simp add: g(3))
  then have m': "sharded_ready wy n (m\<lparr>shards := (shards m)[?i := s]\<rparr>)" "sharded_ttl (m\<lparr>shards := (shards m)[?i := s]\<rparr>) = sharded_ttl m"
    using shard_step [OF _ shard_for_less _ g(6), of wy n 0 "{}"] ready g(3) by simp_all
  have "sharded_get key_Vec val_Vec wy m key =
      Inr (live_value (c_epoch ?s) (c_default_ttl ?s) (conc_lookup wy ?s key), m\<lparr>shards := (shards m)[?i := s]\<rparr>)"
    using g(1) sh(5) by (simp add: sharded_get_def on_shard_def conc_get_def key_defs val_defs Let_def)
  moreover have "sharded_lookup wy (m\<lparr>shards := (shards m)[?i := s]\<rparr>) = sharded_lookup wy m"
    unfolding lookup_upd [OF sh(1)] by (auto simp: g(3) sharded_lookup_def)
  ultimately show ?thesis using m' g(4,5) sh(1,3)
    by (auto simp: evictions_upd sharded_lookup_def nth_list_update)
qed

lemma sharded_remove_law:
  assumes ready: "sharded_ready wy n m"
  shows "\<exists>m'. sharded_remove key_Vec wy m key = Inr (sharded_lookup wy m key \<noteq> None, m')
     \<and> sharded_ready wy n m' \<and> sharded_lookup wy m' = (sharded_lookup wy m)(key := None)
     \<and> (\<forall>j. shard_epoch wy m' j = shard_epoch wy m j) \<and> sharded_ttl m' = sharded_ttl m
     \<and> sharded_eviction_count m' = sharded_eviction_count m"
proof -
  let ?i = "shard_for wy key" let ?s = "shards m ! ?i"
  note sh = shard_of [OF ready]
  have inv: "conc_inv wy ?s" using sh(2) by (simp add: conc_ready_def)
  obtain s where g: "conc_remove_bytes wy ?s key = Inr (conc_lookup wy ?s key \<noteq> None, s)"
    "conc_inv wy s" "conc_lookup wy s = (conc_lookup wy ?s)(key := None)" "c_epoch s = c_epoch ?s"
    "c_eviction_count s = c_eviction_count ?s" "same_config ?s s" "conc_num_buckets s = conc_num_buckets ?s"
    using conc_remove_law [OF inv, of key] by blast
  have "conc_ready wy n s" by (rule conc_ready_keep [OF sh(2) g(2,6,7)]) (auto simp: g(3))
  then have m': "sharded_ready wy n (m\<lparr>shards := (shards m)[?i := s]\<rparr>)" "sharded_ttl (m\<lparr>shards := (shards m)[?i := s]\<rparr>) = sharded_ttl m"
    using shard_step [OF _ shard_for_less _ g(6), of wy n 0 "{}"] ready g(3) by auto
  have "sharded_remove key_Vec wy m key =
      Inr (conc_lookup wy ?s key \<noteq> None, m\<lparr>shards := (shards m)[?i := s]\<rparr>)"
    using g(1) sh(5) by (simp add: sharded_remove_def on_shard_def conc_remove_def key_defs Let_def)
  moreover have "sharded_lookup wy (m\<lparr>shards := (shards m)[?i := s]\<rparr>) = (sharded_lookup wy m)(key := None)"
    unfolding lookup_upd [OF sh(1)] by (auto simp: g(3) sharded_lookup_def fun_eq_iff)
  ultimately show ?thesis using m' g(4,5) sh(1)
    by (auto simp: evictions_upd sharded_lookup_def nth_list_update)
qed

interpretation sharded: byte_cache "sharded_ready wy" "sharded_lookup wy" "shard_epoch wy" sharded_ttl
  sharded_eviction_count "sharded_insert_ttl key_Vec val_Vec wy" "sharded_get key_Vec val_Vec wy"
  "sharded_remove key_Vec wy" for wy
proof unfold_locales
  fix n :: nat and m :: sharded_map and k v :: bytes and ttl :: u64
  assume "sharded_ready wy (Suc n) m" "small_pair k v"
  from sharded_insert_law [OF this, of ttl]
  show "\<exists>s' victim. sharded_insert_ttl key_Vec val_Vec wy m k v ttl = Inr s' \<and> sharded_ready wy n s'
        \<and> shard_epoch wy s' k = shard_epoch wy m k + 1 \<and> sharded_ttl s' = sharded_ttl m
        \<and> sharded_lookup wy s' = stored_after (sharded_lookup wy m) victim k (v, \<lparr>st_epoch = shard_epoch wy m k + 1, st_ttl = ttl\<rparr>)
        \<and> (case victim of
             None \<Rightarrow> sharded_eviction_count s' = sharded_eviction_count m
           | Some x \<Rightarrow> x \<noteq> k \<and> sharded_lookup wy m k = None \<and> sharded_lookup wy m x \<noteq> None
                       \<and> sharded_eviction_count s' = sharded_eviction_count m + 1)"
    by blast
qed (rule sharded_get_law sharded_remove_law, assumption)+

section \<open>Construction, resizing, statistics\<close>

lemma shards_from_eq: "new_shard n auto = Inr c \<Longrightarrow> shards_from k n auto = Inr (replicate k c)"
  by (induction k) auto

lemma sharded_start:
  assumes "n \<le> 2 ^ 53" and "j \<le> 2 ^ 54"
  obtains m where "bindR (shards_from NUM_SHARDS n auto) (\<lambda>ss. Inr \<lparr>shards = ss\<rparr>) = Inr m"
    and "sharded_ready wy j m" and "sharded_lookup wy m = Map.empty" and "sharded_ttl m = 0"
    and "\<forall>k. shard_epoch wy m k = 0"
proof -
  obtain c where c: "with_config n auto True = Inr c" "conc_ready wy j c" "conc_lookup wy c = Map.empty"
    "c_epoch c = 0" "c_default_ttl c = 0" "c_eviction_count c = 0" "auto_resize c = auto" "sharded_index c = True"
    by (rule conc_ready_start [OF assms])
  let ?m = "\<lparr>shards = replicate 16 c\<rparr>"
  have at: "replicate 16 c ! i = c" if "i < 16" for i using that by simp
  have z: "replicate 16 c ! 0 = c" by (rule at) simp
  have "bindR (shards_from NUM_SHARDS n auto) (\<lambda>ss. Inr \<lparr>shards = ss\<rparr>) = Inr ?m"
    using shards_from_eq [of n auto c NUM_SHARDS] c(1) by (simp add: new_shard_def NUM_SHARDS_def)
  moreover have "sharded_ready wy j ?m"
    using c unfolding sharded_ready_def shard_ok_def by (simp add: at z)
  moreover have "sharded_lookup wy ?m = Map.empty"
    using c(3) by (simp add: sharded_lookup_def fun_eq_iff at)
  ultimately show thesis using that [of ?m] c(4,5) by (simp add: at z)
qed

lemma resize_each_ok:
  assumes "\<forall>s\<in>set ss. conc_inv wy s" and "n \<le> 2 ^ 55"
  shows "\<exists>ss'. resize_each wy n ss = Inr ss' \<and> list_all2 (\<lambda>s s'. conc_inv wy s' \<and> conc_lookup wy s' = conc_lookup wy s
     \<and> conc_num_buckets s' = max (conc_num_buckets s) (next_power_of_two (max n 1))
     \<and> c_epoch s' = c_epoch s \<and> c_eviction_count s' = c_eviction_count s \<and> same_config s s') ss ss'"
  using assms(1)
proof (induction ss)
  case (Cons s ss)
  obtain s' where "conc_resize wy s n = Inr s'" "conc_inv wy s' \<and> conc_lookup wy s' = conc_lookup wy s
     \<and> conc_num_buckets s' = max (conc_num_buckets s) (next_power_of_two (max n 1))
     \<and> c_epoch s' = c_epoch s \<and> c_eviction_count s' = c_eviction_count s \<and> same_config s s'"
    using conc_resize_law [of wy s n] Cons.prems assms(2) by auto
  with Cons show ?case by auto
qed simp

lemma resize_all_law:
  assumes ready: "sharded_ready wy j m" and n: "n \<le> 2 ^ 54"
  shows "\<exists>m'. resize_all wy m n = Inr m' \<and> sharded_ready wy j m' \<and> sharded_lookup wy m' = sharded_lookup wy m
     \<and> (\<forall>i<16. conc_num_buckets (shards m' ! i) = max (conc_num_buckets (shards m ! i)) (next_power_of_two (max n 1))
          \<and> c_epoch (shards m' ! i) = c_epoch (shards m ! i)
          \<and> c_eviction_count (shards m' ! i) = c_eviction_count (shards m ! i))"
proof -
  have len: "length (shards m) = 16" and ok: "\<And>i. i < 16 \<Longrightarrow> shard_ok wy j (sharded_ttl m) i (shards m ! i)"
    using ready by (auto simp: sharded_ready_def)
  have "\<forall>s\<in>set (shards m). conc_inv wy s" using ok len by (auto simp: in_set_conv_nth shard_ok_def conc_ready_def)
  moreover have "n \<le> 2 ^ 55" using n by simp
  ultimately obtain ss where ss: "resize_each wy n (shards m) = Inr ss" "list_all2 (\<lambda>s s'. conc_inv wy s' \<and> conc_lookup wy s' = conc_lookup wy s
     \<and> conc_num_buckets s' = max (conc_num_buckets s) (next_power_of_two (max n 1))
     \<and> c_epoch s' = c_epoch s \<and> c_eviction_count s' = c_eviction_count s \<and> same_config s s') (shards m) ss"
    using resize_each_ok by blast
  note r = list_all2_nthD [OF ss(2)] have len': "length ss = 16" using list_all2_lengthD [OF ss(2)] len by simp
  have "max n 1 \<le> 2 ^ 54" using n by simp
  then obtain e where "next_power_of_two (max n 1) = 2 ^ e" "e \<le> 54" using next_power_of_two_le [of "max n 1" 54] by auto
  then have np: "next_power_of_two (max n 1) \<le> 2 ^ 54" using power_increasing [of e 54 "2::nat"] by simp
  let ?m = "m\<lparr>shards := ss\<rparr>"
  have ok': "shard_ok wy j (sharded_ttl m) i (ss ! i)" if i: "i < 16" for i
  proof -
    have inv: "conc_inv wy (shards m ! i)" using ok [OF i] by (simp add: shard_ok_def conc_ready_def)
    note ri = r [of i] have "i < length (shards m)" using i len by simp
    note ri = ri [OF this]
    have "conc_len (ss ! i) = conc_len (shards m ! i)"
      using conc_len_lookup [OF inv] conc_len_lookup [of wy "ss ! i"] ri by simp
    then show ?thesis using ri ok [OF i] np by (auto simp: shard_ok_def conc_ready_def same_config_def)
  qed
  have "sharded_ttl ?m = sharded_ttl m" using ok' [of 0] by (simp add: shard_ok_def)
  then have "sharded_ready wy j ?m" using ok' len' by (simp add: sharded_ready_def)
  moreover have "sharded_lookup wy ?m = sharded_lookup wy m" using r len by (simp add: sharded_lookup_def fun_eq_iff)
  moreover have "resize_all wy m n = Inr ?m" using ss(1) by (simp add: resize_all_def)
  ultimately show ?thesis using r len by (intro exI [of _ ?m]) simp
qed

lemma unat_sum_list:
  "sum_list xs < 2 ^ 64 \<Longrightarrow> unat (sum_list (map word_of_nat xs) :: u64) = sum_list xs"
proof (induction xs)
  case (Cons x xs)
  then have "unat (sum_list (map word_of_nat xs) :: u64) = sum_list xs" and x: "x + sum_list xs < 2 ^ 64" by simp_all
  moreover have "unat (word_of_nat x :: u64) = x"
    using x by (simp add: unsigned_of_nat take_bit_nat_eq_self)
  ultimately show ?case using unat_word_ariths(1) [of "word_of_nat x :: u64" "sum_list (map word_of_nat xs)"] by simp
qed simp

lemma shard_sum: "length (shards m) = 16 \<Longrightarrow> sum_list (map f (shards m)) = (\<Sum>i<16. f (shards m ! i))" for f :: "concurrent_map \<Rightarrow> nat"
  by (simp add: sum_list_sum_nth atLeast0LessThan)

lemma sharded_sizes:
  assumes ready: "sharded_ready wy n m"
  shows "unat (sharded_len m) = card (dom (sharded_lookup wy m))" and "finite (dom (sharded_lookup wy m))"
    and "unat (sharded_capacity m) = (\<Sum>i<16. 4 * conc_num_buckets (shards m ! i))"
    and "unat (sharded_len m) \<le> unat (sharded_capacity m)" and "0 < unat (sharded_capacity m)"
    and "sharded_is_empty m \<longleftrightarrow> sharded_lookup wy m = Map.empty"
proof -
  have len: "length (shards m) = 16" and ok: "\<And>i. i < 16 \<Longrightarrow> shard_ok wy n (sharded_ttl m) i (shards m ! i)"
    using ready by (auto simp: sharded_ready_def)
  let ?D = "\<lambda>i. dom (conc_lookup wy (shards m ! i))"
  have inv: "conc_inv wy (shards m ! i)" if "i < 16" for i using ok [OF that] by (simp add: shard_ok_def conc_ready_def)
  have own: "shard_for wy k = i" if "i < 16" "k \<in> ?D i" for i k using ok [OF that(1)] that(2) unfolding shard_ok_def by blast
  have dom: "dom (sharded_lookup wy m) = (\<Union>i<16. ?D i)"
  proof (intro equalityI subsetI)
    fix k assume "k \<in> dom (sharded_lookup wy m)"
    then show "k \<in> (\<Union>i<16. ?D i)" by (intro UN_I [of "shard_for wy k"]) (auto simp: sharded_lookup_def)
  next
    fix k assume "k \<in> (\<Union>i<16. ?D i)"
    then obtain i where i: "i < 16" "k \<in> ?D i" by auto
    from own [OF this] show "k \<in> dom (sharded_lookup wy m)" using i(2) unfolding domIff sharded_lookup_def by simp
  qed
  have fin: "finite (?D i)" if "i < 16" for i by (rule conc_dom_finite [OF inv [OF that]])
  show "finite (dom (sharded_lookup wy m))" unfolding dom using fin by auto
  have lens: "sum_list (map conc_len (shards m)) = card (dom (sharded_lookup wy m))"
  proof -
    have "?D i \<inter> ?D j = {}" if "i < 16" "j < 16" "i \<noteq> j" for i j
      using own [OF that(1)] own [OF that(2)] that(3) by blast
    then have "card (\<Union>i<16. ?D i) = (\<Sum>i<16. card (?D i))"
      using fin by (intro card_UN_disjoint) auto
    also have "\<dots> = (\<Sum>i<16. conc_len (shards m ! i))" by (rule sum.cong) (auto simp: conc_len_lookup [OF inv])
    finally show ?thesis unfolding dom shard_sum [OF len] by simp
  qed
  have nb: "conc_len (shards m ! i) \<le> 4 * conc_num_buckets (shards m ! i) \<and> 0 < conc_num_buckets (shards m ! i)
      \<and> conc_num_buckets (shards m ! i) \<le> 2 ^ 56" if i: "i < 16" for i
  proof -
    obtain k C where c: "conc_tab wy (shards m ! i) k C" using inv [OF i] by (auto elim: conc_invE)
    have "(2::nat) ^ k \<le> 2 ^ 56" using conc_tabD(1) [OF c] by (intro power_increasing) (auto simp: inner_shape_def)
    then show ?thesis using card_cells_le [OF conc_tabD(6) [OF c]] conc_tabD(1,3,7) [OF c]
      by (simp add: conc_len_def conc_num_buckets_def inner_shape_def)
  qed
  have cap: "sum_list (map conc_capacity (shards m)) = (\<Sum>i<16. 4 * conc_num_buckets (shards m ! i))"
    unfolding shard_sum [OF len] by (simp add: conc_capacity_def conc_num_buckets_def mult.commute)
  have "(\<Sum>i<16. 4 * conc_num_buckets (shards m ! i)) \<le> (\<Sum>i<(16::nat). 4 * 2 ^ 56)"
    by (rule sum_mono) (use nb in auto)
  then have lt: "sum_list (map conc_capacity (shards m)) < 2 ^ 64" unfolding cap by simp
  have le: "sum_list (map conc_len (shards m)) \<le> sum_list (map conc_capacity (shards m))"
    unfolding shard_sum [OF len] by (rule sum_mono) (use nb in \<open>auto simp: conc_capacity_def conc_num_buckets_def mult.commute\<close>)
  show l: "unat (sharded_len m) = card (dom (sharded_lookup wy m))"
    using unat_sum_list [of "map conc_len (shards m)"] le lt lens by (simp add: sharded_len_def comp_def)
  show c: "unat (sharded_capacity m) = (\<Sum>i<16. 4 * conc_num_buckets (shards m ! i))"
    using unat_sum_list [of "map conc_capacity (shards m)"] lt cap by (simp add: sharded_capacity_def comp_def)
  show "unat (sharded_len m) \<le> unat (sharded_capacity m)" unfolding l c using le lens cap by simp
  have "4 * conc_num_buckets (shards m ! 0) \<le> (\<Sum>i<16. 4 * conc_num_buckets (shards m ! i))"
    by (rule member_le_sum) auto
  then show "0 < unat (sharded_capacity m)" unfolding c using nb [of 0] by simp
  have "sharded_is_empty m \<longleftrightarrow> sum_list (map conc_len (shards m)) = 0"
    by (auto simp: sharded_is_empty_def conc_is_empty_def list_all_iff)
  then show "sharded_is_empty m \<longleftrightarrow> sharded_lookup wy m = Map.empty"
    unfolding lens using \<open>finite (dom (sharded_lookup wy m))\<close> by (simp add: dom_eq_empty_conv)
qed

lemma sharded_set_ttl_ready: "sharded_ready wy n m \<Longrightarrow> sharded_ready wy n (sharded_set_ttl m ttl)"
  and sharded_set_ttl_lookup: "sharded_ready wy n m \<Longrightarrow> sharded_lookup wy (sharded_set_ttl m ttl) = sharded_lookup wy m"
  and sharded_set_ttl_ttl: "sharded_ready wy n m \<Longrightarrow> sharded_get_ttl (sharded_set_ttl m ttl) = Inr ttl"
proof -
  assume r: "sharded_ready wy n m"
  then have len: "length (shards m) = 16" by (simp add: sharded_ready_def)
  have t: "conc_tab wy (conc_set_ttl s ttl) k C = conc_tab wy s k C" for s k C
    by (simp add: conc_set_ttl_def conc_tab_def)
  have l: "conc_lookup wy (conc_set_ttl s ttl) = conc_lookup wy s" for s by (simp add: conc_set_ttl_def conc_lookup_def)
  have c: "conc_ready wy n (conc_set_ttl s ttl) = conc_ready wy n s" for s
    unfolding conc_ready_def conc_inv_def t by (simp add: conc_set_ttl_def conc_num_buckets_def conc_len_def)
  show "sharded_ready wy n (sharded_set_ttl m ttl)"
    using r by (simp add: sharded_ready_def shard_ok_def sharded_set_ttl_def c l) (simp add: conc_set_ttl_def)
  show "sharded_lookup wy (sharded_set_ttl m ttl) = sharded_lookup wy m"
    using len by (simp add: sharded_lookup_def sharded_set_ttl_def l fun_eq_iff)
  show "sharded_get_ttl (sharded_set_ttl m ttl) = Inr ttl"
    using len by (simp add: sharded_get_ttl_def sharded_set_ttl_def index_ok conc_set_ttl_def conc_get_ttl_def)
qed

lemma via_bytes:
  assumes "typed_codec K key_ok V val_ok"
  shows "sharded_insert_ttl K V wy m k v ttl =
      sharded_insert_ttl key_Vec val_Vec wy m (key_to_bytes K k) (val_to_bytes V v) ttl"
    and "sharded_get K V wy m k = bindR (sharded_get key_Vec val_Vec wy m (key_to_bytes K k))
           (\<lambda>(r, m). Inr (Option.bind r (val_from_bytes V), m))"
    and "sharded_remove K wy m k = sharded_remove key_Vec wy m (key_to_bytes K k)"
    and "sharded_insert K V wy m k v = sharded_insert_ttl K V wy m k v 0"
proof -
  have v: "with_key_bytes K x = key_to_bytes K x" for x
    by (rule key_codec.key_view [OF typed_codec.axioms(1) [OF assms]])
  show "sharded_insert_ttl K V wy m k v ttl =
      sharded_insert_ttl key_Vec val_Vec wy m (key_to_bytes K k) (val_to_bytes V v) ttl"
    by (simp add: sharded_insert_ttl_def conc_insert_ttl_def v key_defs val_defs)
  show "sharded_remove K wy m k = sharded_remove key_Vec wy m (key_to_bytes K k)"
    by (simp add: sharded_remove_def conc_remove_def v key_defs)
  show "sharded_insert K V wy m k v = sharded_insert_ttl K V wy m k v 0"
    by (simp add: sharded_insert_def sharded_insert_ttl_def conc_insert_def conc_insert_ttl_def)
  show "sharded_get K V wy m k = bindR (sharded_get key_Vec val_Vec wy m (key_to_bytes K k))
           (\<lambda>(r, m). Inr (Option.bind r (val_from_bytes V), m))"
  proof (cases "index (shards m) (shard_for wy (key_to_bytes K k))")
    case (Inr s)
    show ?thesis
      by (cases "conc_get_bytes wy s (key_to_bytes K k)")
        (simp_all add: Inr sharded_get_def on_shard_def conc_get_def v key_defs val_defs Let_def split: prod.split)
  qed (simp add: sharded_get_def on_shard_def v key_defs Let_def)
qed

section \<open>Properties\<close>

text \<open>
  Sharding and bucketing use disjoint parts of the hash. Bit \<open>n\<close> of the bucket hash is bit
  \<open>n\<close> of the hash below 14 and bit \<open>n + 4\<close> above, the shard number is the number in bits 14..17,
  and together they determine the hash: no hash bit is lost and none is used twice.
\<close>

theorem shard_hash_split:
  "bit (bucket_hash h) n = bit h (if n < 14 then n else 4 + n)
   \<and> shard_for wy key = unat (wy key) div 2 ^ 14 mod 16
   \<and> (wy key = wy key' \<longleftrightarrow>
        bucket_hash (wy key) = bucket_hash (wy key') \<and> shard_for wy key = shard_for wy key')"
proof -
  have "wy key = wy key'" if eq: "bucket_hash (wy key) = bucket_hash (wy key')" "shard_for wy key = shard_for wy key'"
  proof (rule bit_word_eqI)
    fix n :: nat
    assume "n < LENGTH(64)"
    have b: "bit (wy key) (if i < 14 then i else 4 + i) = bit (wy key') (if i < 14 then i else 4 + i)" for i
      using eq(1) by (simp only: bit_bucket_hash [symmetric])
    have s: "bit (wy key) (14 + j) = bit (wy key') (14 + j)" if "j < 4" for j
      using eq(2) bit_shard [of "wy key" j] bit_shard [of "wy key'" j] that unfolding shard_for_eq by simp
    show "bit (wy key) n = bit (wy key') n"
    proof (cases "n < 14")
      case True
      then show ?thesis using b [of n] by simp
    next
      case False
      show ?thesis
      proof (cases "n < 18")
        case True
        then show ?thesis using s [of "n - 14"] False by simp
      next
        case False
        then have "\<not> n - 4 < 14" and "4 + (n - 4) = n" by linarith+
        then show ?thesis using b [of "n - 4"] by (simp only: if_False)
      qed
    qed
  qed
  moreover have "wy key = wy key' \<Longrightarrow> shard_for wy key = shard_for wy key'" by (simp add: shard_for_eq)
  ultimately have "wy key = wy key' \<longleftrightarrow>
      bucket_hash (wy key) = bucket_hash (wy key') \<and> shard_for wy key = shard_for wy key'" by auto
  then show ?thesis using bit_bucket_hash [of h n] shard_for_eq [of wy key] by simp
qed

text \<open>
  C15: insertion into a sharded map. It never panics, stores its pair in the shard of the key,
  stamped with that shard's epoch, leaves all other shards exactly as they were, evicts at most one
  entry (of the same shard, and only for a new key), and is read back by the next lookup.
\<close>

theorem sharded_insert_refines:
  assumes "typed_codec K key_ok V val_ok" and "sharded_ready wy (Suc n) m" and "val_ok v"
    and "small_pair (key_to_bytes K k) (val_to_bytes V v)"
  shows "\<exists>m' m'' victim. sharded_insert_ttl K V wy m k v ttl = Inr m' \<and> sharded_ready wy n m'
     \<and> sharded_get K V wy m' k = Inr (Some v, m'')
     \<and> sharded_lookup wy m' = stored_after (sharded_lookup wy m) victim (key_to_bytes K k)
         (val_to_bytes V v, \<lparr>st_epoch = shard_epoch wy m (key_to_bytes K k) + 1, st_ttl = ttl\<rparr>)
     \<and> (case victim of
          None \<Rightarrow> sharded_eviction_count m' = sharded_eviction_count m
        | Some x \<Rightarrow> x \<noteq> key_to_bytes K k \<and> sharded_lookup wy m (key_to_bytes K k) = None
            \<and> sharded_lookup wy m x \<noteq> None \<and> sharded_eviction_count m' = sharded_eviction_count m + 1)
     \<and> (\<forall>j. j \<noteq> shard_for wy (key_to_bytes K k) \<longrightarrow> shards m' ! j = shards m ! j)"
proof -
  let ?k = "key_to_bytes K k" and ?v = "val_to_bytes V v"
  note i = sharded_insert_law [OF assms(2,4), of ttl]
  obtain m1 m2 where g: "sharded_insert_ttl key_Vec val_Vec wy m ?k ?v ttl = Inr m1" "sharded_get key_Vec val_Vec wy m1 ?k = Inr (Some ?v, m2)"
    using sharded.read_your_write [OF assms(2,4), of ttl] by blast
  have "sharded_get K V wy m1 k = Inr (Some v, m2)"
    using g(2) value_codec.val_roundtrip [OF typed_codec.axioms(2) [OF assms(1)] assms(3)]
    by (simp add: via_bytes(2) [OF assms(1)])
  then show ?thesis using i g(1) unfolding via_bytes(1) [OF assms(1)] by fastforce
qed

theorem sharded_insert_refines_witness:
  "\<exists>m m' m''. sharded_new 64 = Inr m \<and> sharded_insert_ttl key_u32 val_u64 demo_hash m 42 100 0 = Inr m'
     \<and> sharded_get key_u32 val_u64 demo_hash m' 42 = Inr (Some 100, m'')"
proof -
  have "(64::nat) \<le> 2 ^ 53" "(1::nat) \<le> 2 ^ 54" by simp_all
  then obtain m where m: "bindR (shards_from NUM_SHARDS 64 False) (\<lambda>ss. Inr \<lparr>shards = ss\<rparr>) = Inr m" "sharded_ready demo_hash 1 m"
    by (rule sharded_start)
  have "small_pair (key_to_bytes key_u32 42) (val_to_bytes val_u64 100)" by (simp add: small_pair_def key_defs val_defs)
  from sharded_insert_refines [OF u32u64.typed_codec_axioms m(2) [unfolded One_nat_def] TrueI this, of 0] m(1)
  show ?thesis by (auto simp: sharded_new_def)
qed

text \<open>
  Maintenance of a sharded map. \<^verbatim>\<open>resize_all\<close> keeps every entry and stamp and grows every
  shard to the requested size; \<^verbatim>\<open>set_ttl\<close> reaches every shard, so that \<^verbatim>\<open>get_ttl\<close>, which asks
  the first one, is right for all; a removal drops exactly its key.
\<close>

theorem sharded_maintenance:
  assumes "sharded_ready wy j m" and "n \<le> 2 ^ 54"
  shows "(\<exists>m'. resize_all wy m n = Inr m' \<and> sharded_ready wy j m' \<and> sharded_lookup wy m' = sharded_lookup wy m
       \<and> (\<forall>i<16. conc_num_buckets (shards m' ! i) =
            max (conc_num_buckets (shards m ! i)) (next_power_of_two (max n 1))))
   \<and> sharded_ready wy j (sharded_set_ttl m ttl) \<and> sharded_get_ttl (sharded_set_ttl m ttl) = Inr ttl
   \<and> sharded_lookup wy (sharded_set_ttl m ttl) = sharded_lookup wy m
   \<and> (\<exists>m'. sharded_remove key_Vec wy m key = Inr (sharded_lookup wy m key \<noteq> None, m')
       \<and> sharded_ready wy j m' \<and> sharded_lookup wy m' = (sharded_lookup wy m)(key := None))"
  using resize_all_law [OF assms] sharded_set_ttl_ready [OF assms(1)] sharded_set_ttl_ttl [OF assms(1)]
    sharded_set_ttl_lookup [OF assms(1)] sharded_remove_law [OF assms(1), of key]
  by blast

theorem sharded_maintenance_witness:
  "\<exists>m m'. sharded_new 4 = Inr m \<and> resize_all demo_hash m 64 = Inr m' \<and> sharded_lookup demo_hash m' = Map.empty"
proof -
  have "(4::nat) \<le> 2 ^ 53" "(1::nat) \<le> 2 ^ 54" "(64::nat) \<le> 2 ^ 54" by simp_all
  then obtain m where m: "sharded_new 4 = Inr m" "sharded_ready demo_hash 1 m" "sharded_lookup demo_hash m = Map.empty"
    using sharded_start [of 4 1 False demo_hash] unfolding sharded_new_def by metis
  from sharded_maintenance [OF m(2) \<open>(64::nat) \<le> 2 ^ 54\<close>, of 0 "[]"] m(1,3) show ?thesis by metis
qed

text \<open>
  Statistics of a sharded map. The sums over the shards do not overflow: \<^verbatim>\<open>len\<close> is the number
  of stored keys, \<^verbatim>\<open>capacity\<close> four times the number of buckets, the load factor lies between 0
  and 1, and \<^verbatim>\<open>is_empty\<close> holds exactly for the empty map.
\<close>

theorem sharded_statistics:
  assumes "sharded_ready wy n m"
  shows "unat (sharded_len m) = card (dom (sharded_lookup wy m))
     \<and> unat (sharded_capacity m) = (\<Sum>i<16. 4 * conc_num_buckets (shards m ! i))
     \<and> 0 \<le> sharded_load_factor m \<and> sharded_load_factor m \<le> 1
     \<and> (sharded_is_empty m \<longleftrightarrow> sharded_lookup wy m = Map.empty)"
proof -
  note z = sharded_sizes [OF assms]
  have "real (unat (sharded_len m)) \<le> real (unat (sharded_capacity m))" "0 < real (unat (sharded_capacity m))"
    using z(4,5) by (simp_all only: of_nat_le_iff of_nat_0_less_iff)
  then have "sharded_load_factor m \<le> 1" unfolding sharded_load_factor_def Let_def
    by (simp only: divide_le_eq_1 split: if_split) simp
  moreover have "0 \<le> sharded_load_factor m" unfolding sharded_load_factor_def Let_def
    by (simp only: divide_nonneg_nonneg of_nat_0_le_iff order_refl if_cancel split: if_split) simp
  ultimately show ?thesis using z by blast
qed

theorem sharded_statistics_witness:
  "\<exists>m. sharded_new 4 = Inr m \<and> unat (sharded_len m) = 0 \<and> sharded_is_empty m"
proof -
  have "(4::nat) \<le> 2 ^ 53" "(1::nat) \<le> 2 ^ 54" by simp_all
  then obtain m where m: "sharded_new 4 = Inr m" "sharded_ready demo_hash 1 m" "sharded_lookup demo_hash m = Map.empty"
    using sharded_start [of 4 1 False demo_hash] unfolding sharded_new_def by metis
  from sharded_statistics [OF m(2)] m show ?thesis by auto
qed

end
