(* ===== verification/Sharded_Threads.thy ===== *)
theory Sharded_Threads
  imports Linearizable Sharded
begin

text \<open>
  Whole operations of \<^verbatim>\<open>ShardedPulseMap\<close> (\<^verbatim>\<open>src/src/sharded.rs\<close>) under any interleaving of any number of
  threads. An operation on a key is one call on the shard of the key, \<^verbatim>\<open>resize_all\<close> and \<^verbatim>\<open>set_ttl\<close> are one
  call per shard in order; within a call a thread takes the steps of the concurrent map, so threads in
  different shards never wait for each other. Each shard keeps the invariant of the concurrent map for the
  threads that are inside it, and because a shard holds only its own keys the sixteen histories merge
  into one sequential history of the whole map.
\<close>

section \<open>Threads\<close>

datatype sharded_task = ShardOp command | ShardPeek bytes | ResizeAll nat | SetTtl u64

datatype shard_call = Do nat task | StoreTtl nat u64

fun calls_of :: "(bytes \<Rightarrow> u64) \<Rightarrow> sharded_task \<Rightarrow> shard_call list" where
  "calls_of wy (ShardOp cmd) = [Do (shard_for wy (key_of (Call cmd))) (Call cmd)]"
| "calls_of wy (ShardPeek k) = [Do (shard_for wy k) (Peek k)]"
| "calls_of wy (ResizeAll n) = map (\<lambda>i. Do i (ResizeTo n)) [0..<NUM_SHARDS]"
| "calls_of wy (SetTtl ttl) = map (\<lambda>i. StoreTtl i ttl) [0..<NUM_SHARDS]"

text \<open>A thread is between two calls, or inside a call on a shard; the list is the rest of its program.\<close>

datatype sharded_pc = Between "shard_call list" | Inside nat thread_pc "shard_call list"

record sharded_threads =
  smap :: sharded_map
  spcs :: "sharded_pc list"
  shistory :: "(nat \<times> command \<times> outcome) list"

text \<open>How a thread looks from shard \<open>i\<close>: one that is elsewhere is idle.\<close>

fun at_shard :: "nat \<Rightarrow> sharded_pc \<Rightarrow> thread_pc" where
  "at_shard i (Between cs) = Ready []"
| "at_shard i (Inside j pc cs) = (if i = j then pc else Ready [])"

abbreviation in_shard :: "nat \<Rightarrow> sharded_pc list \<Rightarrow> thread_pc list" where
  "in_shard i ps \<equiv> map (at_shard i) ps"

abbreviation with_shard :: "sharded_map \<Rightarrow> nat \<Rightarrow> concurrent_map \<Rightarrow> sharded_map" where
  "with_shard m i c \<equiv> m\<lparr>shards := (shards m)[i := c]\<rparr>"

inductive sharded_step :: "(bytes \<Rightarrow> u64) \<Rightarrow> sharded_threads \<Rightarrow> sharded_threads \<Rightarrow> bool" for wy where
  call: "t < length (spcs s) \<Longrightarrow> spcs s ! t = Between (Do i tk # cs) \<Longrightarrow>
    sharded_step wy s (s\<lparr>spcs := (spcs s)[t := Inside i (Ready [tk]) cs]\<rparr>)"
| ttl: "t < length (spcs s) \<Longrightarrow> spcs s ! t = Between (StoreTtl i v # cs) \<Longrightarrow> index (shards (smap s)) i = Inr c \<Longrightarrow>
    sharded_step wy s (s\<lparr>smap := with_shard (smap s) i (conc_set_ttl c v), spcs := (spcs s)[t := Between cs]\<rparr>)"
| inside: "t < length (spcs s) \<Longrightarrow> spcs s ! t = Inside i pc cs \<Longrightarrow> index (shards (smap s)) i = Inr c \<Longrightarrow>
    thread_step wy (no_readers (in_shard i (spcs s))) c pc c' pc' ev \<Longrightarrow>
    sharded_step wy s (s\<lparr>smap := with_shard (smap s) i c', spcs := (spcs s)[t := Inside i pc' cs],
                         shistory := shistory s @ map (Pair t) ev\<rparr>)"
| return: "t < length (spcs s) \<Longrightarrow> spcs s ! t = Inside i (Ready []) cs \<Longrightarrow>
    sharded_step wy s (s\<lparr>spcs := (spcs s)[t := Between cs]\<rparr>)"

definition sharded_init :: "(bytes \<Rightarrow> u64) \<Rightarrow> sharded_map \<Rightarrow> sharded_task list list \<Rightarrow> sharded_threads" where
  "sharded_init wy m programs =
     \<lparr>smap = m, spcs = map (\<lambda>p. Between (concat (map (calls_of wy) p))) programs, shistory = []\<rparr>"

inductive sharded_reachable :: "(bytes \<Rightarrow> u64) \<Rightarrow> sharded_map \<Rightarrow> sharded_task list list \<Rightarrow> sharded_threads \<Rightarrow> bool"
  for wy m programs where
  start: "sharded_reachable wy m programs (sharded_init wy m programs)"
| step: "sharded_reachable wy m programs s \<Longrightarrow> sharded_step wy s s' \<Longrightarrow> sharded_reachable wy m programs s'"

section \<open>Invariant\<close>

text \<open>A call is routed: its key belongs to its shard.\<close>

fun call_ok :: "(bytes \<Rightarrow> u64) \<Rightarrow> shard_call \<Rightarrow> bool" where
  "call_ok wy (Do i tk) \<longleftrightarrow> i < 16 \<and> task_ok tk \<and> (op_of tk \<noteq> None \<longrightarrow> shard_for wy (key_of tk) = i)"
| "call_ok wy (StoreTtl i v) \<longleftrightarrow> i < 16"

fun spc_ok :: "(bytes \<Rightarrow> u64) \<Rightarrow> sharded_pc \<Rightarrow> bool" where
  "spc_ok wy (Between cs) \<longleftrightarrow> list_all (call_ok wy) cs"
| "spc_ok wy (Inside i pc cs) \<longleftrightarrow> i < 16 \<and> (\<forall>tk\<in>set (todo pc). call_ok wy (Do i tk)) \<and> list_all (call_ok wy) cs"

definition shard_sys :: "(bytes \<Rightarrow> u64) \<Rightarrow> sharded_threads \<Rightarrow> nat \<Rightarrow> bool" where
  "shard_sys wy s i \<longleftrightarrow> (\<exists>k. sys_ok wy (shards (smap s) ! i) k (in_shard i (spcs s)))
     \<and> recorded_in (conc_lookup wy (shards (smap s) ! i)) (foldl shadow_step Map.empty (commands (shistory s)))
     \<and> (\<forall>key\<in>dom (conc_lookup wy (shards (smap s) ! i)). shard_for wy key = i)"

definition sharded_inv :: "(bytes \<Rightarrow> u64) \<Rightarrow> sharded_threads \<Rightarrow> bool" where
  "sharded_inv wy s \<longleftrightarrow> length (shards (smap s)) = 16 \<and> (\<forall>i<16. shard_sys wy s i)
     \<and> trace_ok Map.empty (commands (shistory s)) (outcomes (shistory s)) \<and> list_all (spc_ok wy) (spcs s)"

lemma sharded_invD:
  assumes "sharded_inv wy s"
  shows "length (shards (smap s)) = 16" and "i < 16 \<Longrightarrow> shard_sys wy s i"
    and "trace_ok Map.empty (commands (shistory s)) (outcomes (shistory s))" and "t < length (spcs s) \<Longrightarrow> spc_ok wy (spcs s ! t)"
  using assms by (auto simp: sharded_inv_def list_all_length)

section \<open>Steps keep the invariant\<close>

lemma todo_subset: "thread_step wy nr c pc c' pc' ev \<Longrightarrow> set (todo pc') \<subseteq> set (todo pc)"
proof (induction rule: thread_step.induct)
  case (first tk ts)
  then show ?case by (cases tk rule: is_insert.cases) auto
next
  case (grow n c' tk ts)
  then show ?case by (cases tk) auto
qed (auto simp: enter_task_def Let_def)

lemma op_key: "op_of tk = Some cmd \<Longrightarrow> key_of (Call cmd) = key_of tk"
  by (cases tk rule: key_of.cases) auto

lemma event_keys:
  assumes "thread_step wy nr c pc c' pc' ev" and "\<forall>tk\<in>set (todo pc). call_ok wy (Do i tk)" and "cmd \<in> set (map fst ev)"
  shows "shard_for wy (key_of (Call cmd)) = i"
proof -
  have "cmd \<in> set (ops (todo pc))" using thread_step_todo [OF assms(1)] assms(3) by simp
  then obtain tk where "tk \<in> set (todo pc)" "op_of tk = Some cmd" by (auto simp: List.map_filter_def)
  then show ?thesis using assms(2) op_key by force
qed

lemma shadow_other: "\<forall>cmd\<in>set cs. key_of (Call cmd) \<noteq> x \<Longrightarrow> foldl shadow_step M cs x = M x"
proof (induction cs arbitrary: M)
  case (Cons cmd cs)
  then show ?case by (cases cmd) auto
qed simp

text \<open>Operations on another shard do not disturb what is recorded of this one.\<close>

lemma recorded_other:
  assumes "recorded_in L M" and "\<forall>key\<in>dom L. shard_for wy key = i" and "\<forall>cmd\<in>set cs. shard_for wy (key_of (Call cmd)) \<noteq> i"
  shows "recorded_in L (foldl shadow_step M cs)"
  unfolding recorded_in_def
proof (intro allI impI)
  fix k v t assume k: "L k = Some (v, t)"
  then have "\<forall>cmd\<in>set cs. key_of (Call cmd) \<noteq> k" using assms(2,3) by blast
  then show "foldl shadow_step M cs k = Some v" using assms(1) k by (simp add: shadow_other recorded_in_def)
qed

text \<open>A step stores only keys of its own events.\<close>

lemma effect_dom: "effect wy c c' ev \<Longrightarrow> dom (conc_lookup wy c') \<subseteq> dom (conc_lookup wy c) \<union> (key_of \<circ> Call) ` set (map fst ev)"
proof (induction wy c c' ev rule: effect.induct)
  case (2 wy c c' cmd r)
  then show ?case
    by (cases "(wy, c, c', cmd, r)" rule: section_effect.cases) (auto simp: stored_after_def split: option.splits if_splits)
qed auto

lemma in_shard_upd: "t < length ps \<Longrightarrow> in_shard i (ps[t := p]) = (in_shard i ps)[t := at_shard i p]"
  by (simp add: map_update)

lemma unmoved: "t < length ps \<Longrightarrow> at_shard i p = at_shard i (ps ! t) \<Longrightarrow> in_shard i (ps[t := p]) = in_shard i ps"
  by (simp add: map_update list_update_same_conv)

lemma shard_sys_len:
  assumes "shard_sys wy s i" and "length (shistory s) \<le> 2 ^ 54"
  shows "conc_len (shards (smap s) ! i) \<le> 2 ^ 54"
proof -
  from assms(1) obtain k where "sys_ok wy (shards (smap s) ! i) k (in_shard i (spcs s))"
    "recorded_in (conc_lookup wy (shards (smap s) ! i)) (foldl shadow_step Map.empty (commands (shistory s)))"
    unfolding shard_sys_def by blast
  from recorded_len [OF sys_okD(1) [OF this(1)] this(2)] show ?thesis using assms(2) by (simp add: commands_def)
qed

lemma map_ok_ttl: "map_ok wy (conc_set_ttl c v) k = map_ok wy c k"
  by (simp add: map_ok_def conc_set_ttl_def conc_tab_def conc_ix_def [abs_def])

lemma sharded_step_inv:
  assumes "sharded_step wy s s'" and inv: "sharded_inv wy s" and len: "length (shistory s) \<le> 2 ^ 54"
  shows "sharded_inv wy s'"
  using assms(1)
proof cases
  case (call t i tk cs)
  have p: "call_ok wy (Do i tk)" "list_all (call_ok wy) cs" using sharded_invD(4) [OF inv call(2)] call(3) by auto
  have "shard_sys wy s' j" if j: "j < 16" for j
  proof -
    obtain k where k: "sys_ok wy (shards (smap s) ! j) k (in_shard j (spcs s))"
      using sharded_invD(2) [OF inv j] unfolding shard_sys_def by blast
    have "sys_ok wy (shards (smap s) ! j) k ((in_shard j (spcs s))[t := at_shard j (Inside i (Ready [tk]) cs)])"
      by (rule sys_ok_move [OF k _ sys_okD(1) [OF k] refl refl]) (use call(2,3) p(1) in auto)
    then show ?thesis using sharded_invD(2) [OF inv j] call(1,2) unfolding shard_sys_def by (auto simp: in_shard_upd)
  qed
  then show ?thesis using inv p call(1) by (auto simp: sharded_inv_def intro: pcs_upd)
next
  case (ttl t i v cs c)
  have p: "i < 16" "list_all (call_ok wy) cs" using sharded_invD(4) [OF inv ttl(2)] ttl(3) by auto
  have c: "c = shards (smap s) ! i" using ttl(4) by (auto simp: index_def split: if_splits)
  have "shard_sys wy s' j" if j: "j < 16" for j
  proof -
    obtain k where k: "sys_ok wy (shards (smap s) ! j) k (in_shard j (spcs s))"
      using sharded_invD(2) [OF inv j] unfolding shard_sys_def by blast
    have same: "in_shard j (spcs s') = in_shard j (spcs s)" using ttl(1-3) unmoved [OF ttl(2)] by simp
    have "sys_ok wy (conc_set_ttl c v) k (in_shard j (spcs s))" if "i = j"
      using k that unfolding c by (simp add: sys_ok_def map_ok_ttl) (simp add: conc_set_ttl_def conc_ix_def)
    moreover have "conc_lookup wy (conc_set_ttl c v) = conc_lookup wy c"
      by (simp add: conc_lookup_def conc_set_ttl_def conc_ix_def)
    ultimately show ?thesis using sharded_invD(2) [OF inv j] sharded_invD(1) [OF inv] k c j
      unfolding shard_sys_def same by (cases "i = j") (auto simp: ttl(1))
  qed
  then show ?thesis using inv p ttl(1) by (auto simp: sharded_inv_def intro: pcs_upd)
next
  case (inside t i pc cs c c' pc' ev)
  have p: "i < 16" "\<forall>tk\<in>set (todo pc). call_ok wy (Do i tk)" "list_all (call_ok wy) cs"
    using sharded_invD(4) [OF inv inside(2)] inside(3) by auto
  have c: "c = shards (smap s) ! i" using inside(4) by (auto simp: index_def split: if_splits)
  let ?M = "foldl shadow_step Map.empty (commands (shistory s))" and ?ev = "map (Pair t) ev"
  obtain k where k: "sys_ok wy c k (in_shard i (spcs s))" and rec: "recorded_in (conc_lookup wy c) ?M"
    and own: "\<forall>key\<in>dom (conc_lookup wy c). shard_for wy key = i"
    using sharded_invD(2) [OF inv p(1)] unfolding shard_sys_def c by blast
  have t: "t < length (in_shard i (spcs s))" and at: "in_shard i (spcs s) ! t = pc" using inside(2,3) by simp_all
  have cl: "conc_len c \<le> 2 ^ 54" unfolding c by (rule shard_sys_len [OF sharded_invD(2) [OF inv p(1)] len])
  note step = thread_step_ok [OF inside(5) [folded at] k t cl]
  have h: "commands (shistory s @ ?ev) = commands (shistory s) @ map fst ev"
    "outcomes (shistory s @ ?ev) = outcomes (shistory s) @ map snd ev" by (auto simp: commands_def outcomes_def)
  have ans: "trace_ok ?M (map fst ev) (map snd ev)" "recorded_in (conc_lookup wy c') (foldl shadow_step ?M (map fst ev))"
    using effect_answers [of wy c c' ev] step rec unfolding answers_def by blast+
  note keys = event_keys [OF inside(5) p(2)]
  have own': "\<forall>key\<in>dom (conc_lookup wy c'). shard_for wy key = i"
  proof
    fix key assume "key \<in> dom (conc_lookup wy c')"
    then have "key \<in> dom (conc_lookup wy c) \<union> (key_of \<circ> Call) ` set (map fst ev)" using effect_dom [of wy c c' ev] step by blast
    then show "shard_for wy key = i"
    proof
      assume "key \<in> (key_of \<circ> Call) ` set (map fst ev)"
      then obtain cmd where "cmd \<in> set (map fst ev)" "key = key_of (Call cmd)" by (metis comp_apply imageE)
      then show ?thesis using keys by blast
    qed (use own in blast)
  qed
  have "shard_sys wy s' j" if j: "j < 16" for j
  proof (cases "j = i")
    case True
    then show ?thesis using step ans(2) own' sharded_invD(1) [OF inv] p(1) inside(2)
      unfolding shard_sys_def inside(1) by (auto simp: h in_shard_upd)
  next
    case False
    have same: "in_shard j (spcs s') = in_shard j (spcs s)" using inside(1-3) unmoved [OF inside(2)] False by simp
    from sharded_invD(2) [OF inv j] have r: "recorded_in (conc_lookup wy (shards (smap s) ! j)) ?M"
      "\<forall>key\<in>dom (conc_lookup wy (shards (smap s) ! j)). shard_for wy key = j" unfolding shard_sys_def by blast+
    have "recorded_in (conc_lookup wy (shards (smap s) ! j)) (foldl shadow_step ?M (map fst ev))"
      by (rule recorded_other [OF r]) (use keys False in blast)
    then show ?thesis using sharded_invD(2) [OF inv j] False unfolding shard_sys_def same by (simp add: inside(1) h)
  qed
  moreover have "spc_ok wy (Inside i pc' cs)" using p todo_subset [OF inside(5)] by auto
  moreover have "trace_ok Map.empty (commands (shistory s')) (outcomes (shistory s'))"
    using sharded_invD(3) [OF inv] ans(1) by (simp add: inside(1) h trace_ok_append trace_ok_length)
  ultimately show ?thesis using inv by (auto simp: sharded_inv_def inside(1) intro: pcs_upd)
next
  case (return t i cs)
  have p: "list_all (call_ok wy) cs" using sharded_invD(4) [OF inv return(2)] return(3) by auto
  have same: "in_shard j (spcs s') = in_shard j (spcs s)" for j using return(1-3) unmoved [OF return(2)] by simp
  have "shard_sys wy s' j" if j: "j < 16" for j
    using sharded_invD(2) [OF inv j] unfolding shard_sys_def same by (simp add: return(1))
  then show ?thesis using inv p return(1) by (auto simp: sharded_inv_def intro: pcs_upd)
qed

section \<open>Program order and the work left\<close>

fun sharded_op :: "sharded_task \<Rightarrow> command option" where
  "sharded_op (ShardOp cmd) = Some cmd"
| "sharded_op (ShardPeek k) = Some (Get k)"
| "sharded_op _ = None"

fun call_op :: "shard_call \<Rightarrow> command option" where
  "call_op (Do i tk) = op_of tk"
| "call_op (StoreTtl i v) = None"

fun unanswered :: "sharded_pc \<Rightarrow> command list" where
  "unanswered (Between cs) = List.map_filter call_op cs"
| "unanswered (Inside i pc cs) = ops (todo pc) @ List.map_filter call_op cs"

fun calls_left :: "sharded_pc \<Rightarrow> nat" where
  "calls_left (Between cs) = length cs"
| "calls_left (Inside i pc cs) = length (todo pc) + length cs"

fun steps_left :: "sharded_pc \<Rightarrow> nat" where
  "steps_left (Between cs) = (task_steps + 2) * length cs"
| "steps_left (Inside i pc cs) = work_left pc + 1 + (task_steps + 2) * length cs"

definition sharded_work :: "sharded_threads \<Rightarrow> nat" where
  "sharded_work s = sum_list (map steps_left (spcs s))"

text \<open>Every step moves one thread, which answers the events of the step and comes closer to its end.\<close>

lemma sharded_step_moves:
  assumes "sharded_step wy s s'"
  obtains t p ev where "t < length (spcs s)" and "spcs s' = (spcs s)[t := p]" and "shistory s' = shistory s @ map (Pair t) ev"
    and "steps_left p < steps_left (spcs s ! t)" and "calls_left p + length ev \<le> calls_left (spcs s ! t)"
    and "unanswered (spcs s ! t) = map fst ev @ unanswered p"
  using assms
proof cases
  case (call t i tk cs)
  show thesis by (rule that [of t "Inside i (Ready [tk]) cs" "[]"]) (use call in \<open>auto simp: task_steps_def map_filter_simps split: option.split\<close>)
next
  case (ttl t i v cs c)
  show thesis by (rule that [of t "Between cs" "[]"]) (use ttl in \<open>auto simp: task_steps_def map_filter_simps\<close>)
next
  case (inside t i pc cs c c' pc' ev)
  show thesis by (rule that [of t "Inside i pc' cs" ev])
    (use inside thread_step_todo [OF inside(5)] thread_step_work [OF inside(5)] in auto)
next
  case (return t i cs)
  show thesis by (rule that [of t "Between cs" "[]"]) (use return in \<open>auto simp: map_filter_simps\<close>)
qed

lemma answered_append: "answered u (h @ map (Pair t) ev) = answered u h @ (if u = t then map fst ev else [])"
  by (auto simp: answered_def commands_def filter_map comp_def case_prod_beta)

lemma sharded_step_progress:
  assumes "sharded_step wy s s'"
  shows "sharded_work s' < sharded_work s" and "length (spcs s') = length (spcs s)"
    and "sum_list (map calls_left (spcs s')) + length (shistory s') \<le> sum_list (map calls_left (spcs s)) + length (shistory s)"
    and "u < length (spcs s) \<Longrightarrow>
      answered u (shistory s') @ unanswered (spcs s' ! u) = answered u (shistory s) @ unanswered (spcs s ! u)"
proof -
  obtain t p ev where m: "t < length (spcs s)" "spcs s' = (spcs s)[t := p]" "shistory s' = shistory s @ map (Pair t) ev"
    "steps_left p < steps_left (spcs s ! t)" "calls_left p + length ev \<le> calls_left (spcs s ! t)"
    "unanswered (spcs s ! t) = map fst ev @ unanswered p"
    by (rule sharded_step_moves [OF assms])
  show "sharded_work s' < sharded_work s"
    using sum_list_update_nat [OF m(1), of steps_left p] m(2,4) by (simp add: sharded_work_def)
  show "length (spcs s') = length (spcs s)" using m(2) by simp
  show "sum_list (map calls_left (spcs s')) + length (shistory s') \<le> sum_list (map calls_left (spcs s)) + length (shistory s)"
    using sum_list_update_nat [OF m(1), of calls_left p] m(2,3,5) by simp
  show "answered u (shistory s') @ unanswered (spcs s' ! u) = answered u (shistory s) @ unanswered (spcs s ! u)"
    if "u < length (spcs s)" using that m(1,2,3,6) by (auto simp: answered_append nth_list_update)
qed

section \<open>Reachable states\<close>

fun sharded_task_ok :: "sharded_task \<Rightarrow> bool" where
  "sharded_task_ok (ShardOp cmd) = small_command cmd"
| "sharded_task_ok (ResizeAll n) = (n \<le> 2 ^ 54)"
| "sharded_task_ok _ = True"

lemma calls_ok: "sharded_task_ok tk \<Longrightarrow> list_all (call_ok wy) (calls_of wy tk)"
  by (cases tk) (auto simp: task_ok_def list_all_iff NUM_SHARDS_def)

lemma calls_of_length: "length (calls_of wy tk) \<le> 16"
  by (cases tk) (simp_all add: NUM_SHARDS_def)

lemma calls_of_ops: "List.map_filter call_op (calls_of wy tk) = (case sharded_op tk of None \<Rightarrow> [] | Some cmd \<Rightarrow> [cmd])"
  by (cases tk) (simp_all add: List.map_filter_def comp_def)

lemma program_ops: "List.map_filter call_op (concat (map (calls_of wy) p)) = List.map_filter sharded_op p"
proof (induction p)
  case (Cons tk p)
  have app: "List.map_filter f (xs @ ys) = List.map_filter f xs @ List.map_filter f ys" for f :: "'a \<Rightarrow> 'b option" and xs ys
    by (simp add: List.map_filter_def)
  show ?case using Cons by (auto simp: app calls_of_ops map_filter_simps split: option.split)
qed (simp add: map_filter_simps)

lemma shard_ops: "List.map_filter sharded_op (map ShardOp cs) = cs"
  by (induction cs) (simp_all add: map_filter_simps)

definition all_calls :: "(bytes \<Rightarrow> u64) \<Rightarrow> sharded_task list list \<Rightarrow> nat" where
  "all_calls wy programs = sum_list (map (\<lambda>p. length (concat (map (calls_of wy) p))) programs)"

lemma all_calls_le: "all_calls wy programs \<le> 16 * sum_list (map length programs)"
proof -
  have "length (concat (map (calls_of wy) p)) \<le> 16 * length p" for p
    using calls_of_length [of wy] by (induction p) (auto intro: add_mono)
  then show ?thesis unfolding all_calls_def by (induction programs) (auto simp: add_mono distrib_left)
qed

text \<open>A new sharded map: sixteen new shards.\<close>

lemma sharded_new_shards:
  assumes "sharded_new n = Inr m \<or> sharded_with_auto_resize n = Inr m"
  obtains auto c where "with_config n auto True = Inr c" and "shards m = replicate 16 c"
proof -
  from assms obtain auto ss where ss: "shards_from NUM_SHARDS n auto = Inr ss" "m = \<lparr>shards = ss\<rparr>"
    unfolding sharded_new_def sharded_with_auto_resize_def bindR_eq_Inr by auto
  then obtain c where c: "with_config n auto True = Inr c" by (auto simp: NUM_SHARDS_def numeral_eq_Suc new_shard_def)
  then show thesis using that [of auto c] ss shards_from_eq [of n auto c NUM_SHARDS] by (simp add: new_shard_def NUM_SHARDS_def)
qed

lemma sharded_new_ex: "n \<le> 2 ^ 53 \<Longrightarrow> \<exists>m. sharded_new n = Inr m"
  using sharded_start [of n 0 False] unfolding sharded_new_def by (metis zero_le)

lemma sharded_init_inv:
  assumes "sharded_new n = Inr m \<or> sharded_with_auto_resize n = Inr m" and "n \<le> 2 ^ 53"
    and tasks: "\<forall>p\<in>set programs. list_all sharded_task_ok p"
  shows "sharded_inv wy (sharded_init wy m programs)"
proof -
  obtain auto c where c: "with_config n auto True = Inr c" "shards m = replicate 16 c"
    by (rule sharded_new_shards [OF assms(1)])
  note ready = new_map_ready [OF c(1) assms(2)]
  let ?ps = "replicate (length programs) ([] :: task list)"
  have "threads_inv wy \<lparr>shared = c, pcs = map Ready ?ps, history = []\<rparr>"
    using threads_reachable_inv [OF threads_reachable.start ready, of ?ps] by (simp add: list_all_iff sum_list_replicate)
  then obtain k where k: "sys_ok wy c k (map Ready ?ps)" unfolding threads_inv_iff by auto
  have idle: "map (at_shard i \<circ> (\<lambda>p. Between (concat (map (calls_of wy) p)))) programs = replicate (length programs) (Ready [])" for i
    by (simp add: comp_def map_replicate_const)
  have "list_all (call_ok wy) (concat (map (calls_of wy) p))" if "p \<in> set programs" for p
    using tasks that calls_ok by (fastforce simp: list_all_iff)
  then show ?thesis using k ready(2) unfolding sharded_inv_def shard_sys_def
    by (auto simp: sharded_init_def c(2) idle commands_def outcomes_def recorded_in_def list_all_iff)
qed

lemma sharded_reachable_inv:
  assumes "sharded_reachable wy m programs s" and m: "sharded_new n = Inr m \<or> sharded_with_auto_resize n = Inr m" "n \<le> 2 ^ 53"
    and tasks: "\<forall>p\<in>set programs. list_all sharded_task_ok p" and len: "all_calls wy programs \<le> 2 ^ 54"
  shows "sharded_inv wy s \<and> length (spcs s) = length programs
     \<and> sum_list (map calls_left (spcs s)) + length (shistory s) \<le> all_calls wy programs
     \<and> (\<forall>t<length programs. answered t (shistory s) @ unanswered (spcs s ! t) = List.map_filter sharded_op (programs ! t))"
  using assms(1)
proof (induction rule: sharded_reachable.induct)
  case start
  show ?case using sharded_init_inv [OF m tasks]
    by (simp add: sharded_init_def all_calls_def comp_def answered_def commands_def program_ops)
next
  case (step s s')
  have "length (shistory s) \<le> 2 ^ 54" using step.IH len by linarith
  then have "sharded_inv wy s'" using sharded_step_inv [OF step(2)] step.IH by blast
  then show ?case using step.IH sharded_step_progress(2-4) [OF step(2)] by fastforce
qed

section \<open>No thread is stuck\<close>

lemma finished_stays: "\<not> thread_step wy nr c (Ready []) c' pc' ev"
  by (auto elim: thread_stepE)

text \<open>Threads in a shard wait only for threads in the same shard.\<close>

lemma shard_steps:
  assumes inv: "sharded_inv wy s" and t: "t < length (spcs s)" "spcs s ! t = Inside i pc cs" "pc \<noteq> Ready []"
  obtains u q ds c' q' ev where "u < length (spcs s)" and "spcs s ! u = Inside i q ds"
    and "thread_step wy (no_readers (in_shard i (spcs s))) (shards (smap s) ! i) q c' q' ev"
proof -
  have i: "i < 16" using sharded_invD(4) [OF inv t(1)] t(2) by simp
  from sharded_invD(2) [OF inv i] obtain k where k: "sys_ok wy (shards (smap s) ! i) k (in_shard i (spcs s))"
    unfolding shard_sys_def by blast
  obtain u c' q' ev where u: "u < length (spcs s)"
    "thread_step wy (no_readers (in_shard i (spcs s))) (shards (smap s) ! i) (in_shard i (spcs s) ! u) c' q' ev"
    using some_thread_steps [OF k, of t] t by auto
  then have "at_shard i (spcs s ! u) \<noteq> Ready []" using finished_stays by auto
  then obtain q ds where "spcs s ! u = Inside i q ds" by (cases "spcs s ! u") (auto split: if_splits)
  then show thesis using that [of u q ds] u by simp
qed

lemma some_sharded_step:
  assumes inv: "sharded_inv wy s" and t: "t < length (spcs s)" "spcs s ! t \<noteq> Between []"
  shows "\<exists>s'. sharded_step wy s s'"
proof (cases "spcs s ! t")
  case (Between cs)
  then obtain x ds where x: "cs = x # ds" using t(2) by (cases cs) auto
  show ?thesis
  proof (cases x)
    case (Do i tk)
    then show ?thesis using sharded_step.call [OF t(1)] Between x by blast
  next
    case (StoreTtl i v)
    then have "i < length (shards (smap s))" using sharded_invD(1,4) [OF inv] t(1) Between x by fastforce
    then show ?thesis using sharded_step.ttl [OF t(1)] Between x StoreTtl index_ok by blast
  qed
next
  case (Inside i pc cs)
  show ?thesis
  proof (cases "pc = Ready []")
    case True
    then show ?thesis using sharded_step.return [OF t(1)] Inside by blast
  next
    case False
    have "i < length (shards (smap s))" using sharded_invD(1,4) [OF inv] t(1) Inside by fastforce
    then show ?thesis using shard_steps [OF inv t(1) Inside False] sharded_step.inside index_ok by metis
  qed
qed

lemma sharded_runs_reachable:
  "(sharded_step wy ^^ j) (sharded_init wy m programs) s \<Longrightarrow> sharded_reachable wy m programs s"
proof (induction j arbitrary: s)
  case 0
  then show ?case by (auto intro: sharded_reachable.start)
next
  case (Suc j)
  then show ?case by (auto intro: sharded_reachable.step)
qed

lemma sharded_runs_bounded: "(sharded_step wy ^^ j) s s' \<Longrightarrow> j + sharded_work s' \<le> sharded_work s"
proof (induction j arbitrary: s')
  case (Suc j)
  then obtain s1 where "(sharded_step wy ^^ j) s s1" "sharded_step wy s1 s'" by auto
  then show ?case using Suc.IH [of s1] sharded_step_progress(1) [of wy s1 s'] by simp
qed simp

lemma sharded_runs_to_end: "\<exists>j s'. (sharded_step wy ^^ j) s s' \<and> (\<nexists>s''. sharded_step wy s' s'')"
proof (induction "sharded_work s" arbitrary: s rule: less_induct)
  case less
  show ?case
  proof (cases "\<exists>s1. sharded_step wy s s1")
    case True
    then obtain s1 where s1: "sharded_step wy s s1" by blast
    from less [OF sharded_step_progress(1) [OF s1]] obtain j s' where
      "(sharded_step wy ^^ j) s1 s'" "\<nexists>s''. sharded_step wy s' s''" by blast
    then show ?thesis using relpowp_Suc_I2 [of "sharded_step wy" s s1 j s', OF s1] by blast
  next
    case False
    then show ?thesis by (intro exI [of _ 0] exI [of _ s]) simp
  qed
qed

end
