(* ===== verification/Sharded_Live.thy ===== *)
theory Sharded_Live
  imports Sharded_Threads
begin

text \<open>
  What threads on a sharded map (\<^verbatim>\<open>src/src/sharded.rs\<close>) can rely on in every interleaving: one
  sequential history of the whole map, shards that do not wait for each other, and statistics that are
  sound although they are read shard by shard.
\<close>

section \<open>Statistics read shard by shard\<close>

text \<open>
  \<^verbatim>\<open>len\<close>, \<^verbatim>\<open>capacity\<close> and \<^verbatim>\<open>eviction_count\<close> visit the shards one after the other while other threads go on:
  what they add up is the map with shard \<open>i\<close> as it was in the \<open>i\<close>-th of a sequence of states.
\<close>

definition snapshot :: "sharded_threads list \<Rightarrow> sharded_map" where
  "snapshot ss = \<lparr>shards = map (\<lambda>i. shards (smap (ss ! i)) ! i) [0..<NUM_SHARDS]\<rparr>"

fun successive :: "(bytes \<Rightarrow> u64) \<Rightarrow> sharded_threads list \<Rightarrow> bool" where
  "successive wy (s # s' # ss) \<longleftrightarrow> (\<exists>j. (sharded_step wy ^^ j) s s') \<and> successive wy (s' # ss)"
| "successive wy _ \<longleftrightarrow> True"

text \<open>Tables only grow, and evictions are counted once per insertion.\<close>

definition grown :: "sharded_threads \<Rightarrow> sharded_threads \<Rightarrow> bool" where
  "grown s s' \<longleftrightarrow> (\<forall>i<16. conc_num_buckets (shards (smap s) ! i) \<le> conc_num_buckets (shards (smap s') ! i)
     \<and> c_eviction_count (shards (smap s) ! i) \<le> c_eviction_count (shards (smap s') ! i))"

definition evictions_counted :: "sharded_threads \<Rightarrow> bool" where
  "evictions_counted s \<longleftrightarrow> (\<forall>i<16. unat (c_eviction_count (shards (smap s) ! i)) \<le> length (shistory s))"

lemma grown_trans: "grown s s' \<Longrightarrow> grown s' s'' \<Longrightarrow> grown s s''"
  unfolding grown_def by (meson order_trans)

lemma effect_stats:
  assumes "effect wy c c' ev"
  shows "conc_num_buckets c \<le> conc_num_buckets c'"
    and "c_eviction_count c' = c_eviction_count c \<or> c_eviction_count c' = c_eviction_count c + 1 \<and> ev \<noteq> []"
proof -
  show "conc_num_buckets c \<le> conc_num_buckets c'" using assms by (cases "(wy, c, c', ev)" rule: effect.cases) auto
  show "c_eviction_count c' = c_eviction_count c \<or> c_eviction_count c' = c_eviction_count c + 1 \<and> ev \<noteq> []"
    using assms
  proof (cases "(wy, c, c', ev)" rule: effect.cases)
    case (2 wy c c' cmd r)
    then show ?thesis using assms
      by (cases "(wy, c, c', cmd, r)" rule: section_effect.cases) (auto split: option.splits)
  qed auto
qed

lemma count_up:
  fixes a :: u64
  assumes "b = a \<or> b = a + 1 \<and> ev \<noteq> []" and "unat a \<le> n" and "n \<le> 2 ^ 54"
  shows "a \<le> b \<and> unat b \<le> n + length ev"
proof (cases "b = a")
  case False
  have "unat (a + 1) = unat a + 1" by (rule unat_add_lem [THEN iffD1, THEN trans]) (use assms in simp_all)
  then show ?thesis using assms False by (cases ev) (auto simp: word_le_nat_alt)
qed (use assms in simp)

lemma sharded_step_grown:
  assumes st: "sharded_step wy s s'" and inv: "sharded_inv wy s" "evictions_counted s" and len: "length (shistory s) \<le> 2 ^ 54"
  shows "grown s s'" and "evictions_counted s'"
proof -
  have "conc_num_buckets (shards (smap s) ! i) \<le> conc_num_buckets (shards (smap s') ! i)
     \<and> c_eviction_count (shards (smap s) ! i) \<le> c_eviction_count (shards (smap s') ! i)
     \<and> unat (c_eviction_count (shards (smap s') ! i)) \<le> length (shistory s')" if i: "i < 16" for i
    using st
  proof cases
    case (ttl t j v cs c)
    then show ?thesis using inv(2) i sharded_invD(1) [OF inv(1)]
      by (auto simp: evictions_counted_def nth_list_update index_def conc_set_ttl_def conc_num_buckets_def split: if_splits)
  next
    case (inside t j pc cs c c' pc' ev)
    have j: "j < 16" and c: "c = shards (smap s) ! j"
      using sharded_invD(1,4) [OF inv(1)] inside(2-4) by (fastforce simp: index_def split: if_splits)+
    from sharded_invD(2) [OF inv(1) j] obtain k where k: "sys_ok wy c k (in_shard j (spcs s))" unfolding shard_sys_def c by blast
    have "effect wy c c' ev"
      using thread_step_ok [OF _ k, of t c' pc' ev] inside(2,3,5) shard_sys_len [OF sharded_invD(2) [OF inv(1) j] len] by (simp add: c)
    note e = effect_stats [OF this]
    have "c_eviction_count c \<le> c_eviction_count c' \<and> unat (c_eviction_count c') \<le> length (shistory s) + length ev"
      by (rule count_up [OF e(2)]) (use inv(2) j c len in \<open>auto simp: evictions_counted_def\<close>)
    then show ?thesis using inv(2) i j c e(1) sharded_invD(1) [OF inv(1)]
      by (cases "i = j") (auto simp: inside(1) evictions_counted_def intro: trans_le_add1)
  qed (use inv(2) i in \<open>auto simp: evictions_counted_def\<close>)
  then show "grown s s'" "evictions_counted s'" unfolding grown_def evictions_counted_def by blast+
qed

lemma reachable_counted:
  assumes "sharded_reachable wy m programs s" and m: "sharded_new n = Inr m \<or> sharded_with_auto_resize n = Inr m" "n \<le> 2 ^ 53"
    and tasks: "\<forall>p\<in>set programs. list_all sharded_task_ok p" and len: "all_calls wy programs \<le> 2 ^ 54"
  shows "evictions_counted s"
  using assms(1)
proof (induction rule: sharded_reachable.induct)
  case start
  obtain auto c where c: "with_config n auto True = Inr c" "shards m = replicate 16 c" by (rule sharded_new_shards [OF m(1)])
  then show ?case by (auto simp: evictions_counted_def sharded_init_def with_config_def)
next
  case (step s s')
  have "sharded_inv wy s" "length (shistory s) \<le> 2 ^ 54" using sharded_reachable_inv [OF step(1) m tasks len] len by auto
  then show ?case using sharded_step_grown(2) [OF step(2) _ step.IH] by blast
qed

lemma runs_grown:
  assumes "(sharded_step wy ^^ j) s s'" and m: "sharded_new n = Inr m \<or> sharded_with_auto_resize n = Inr m" "n \<le> 2 ^ 53"
    and tasks: "\<forall>p\<in>set programs. list_all sharded_task_ok p" and len: "all_calls wy programs \<le> 2 ^ 54"
    and r: "sharded_reachable wy m programs s"
  shows "sharded_reachable wy m programs s' \<and> grown s s'"
  using assms(1)
proof (induction j arbitrary: s')
  case 0
  then show ?case using r by (simp add: grown_def)
next
  case (Suc j)
  then obtain s1 where s1: "(sharded_step wy ^^ j) s s1" "sharded_step wy s1 s'" by auto
  note IH = Suc.IH [OF s1(1)]
  then have "sharded_inv wy s1" "length (shistory s1) \<le> 2 ^ 54" using sharded_reachable_inv [OF _ m tasks len, of s1] len by auto
  moreover have "evictions_counted s1" using reachable_counted [OF _ m tasks len] IH by blast
  ultimately have "grown s1 s'" using sharded_step_grown(1) [OF s1(2)] by blast
  then show ?case using IH s1(2) sharded_reachable.step grown_trans by blast
qed

lemma successive_grown:
  assumes "successive wy (s # ss)" and m: "sharded_new n = Inr m \<or> sharded_with_auto_resize n = Inr m" "n \<le> 2 ^ 53"
    and tasks: "\<forall>p\<in>set programs. list_all sharded_task_ok p" and len: "all_calls wy programs \<le> 2 ^ 54"
    and r: "sharded_reachable wy m programs s" and "s' \<in> set (s # ss)"
  shows "sharded_reachable wy m programs s' \<and> grown s s'"
  using assms(1,6,7)
proof (induction ss arbitrary: s)
  case Nil
  then show ?case by (simp add: grown_def)
next
  case (Cons s1 ss)
  then obtain j where "(sharded_step wy ^^ j) s s1" by auto
  note g = runs_grown [OF this m tasks len Cons.prems(2)]
  show ?case
  proof (cases "s' = s")
    case False
    then have "sharded_reachable wy m programs s' \<and> grown s1 s'" using Cons.IH [of s1] g Cons.prems(1,3) by auto
    then show ?thesis using g grown_trans by blast
  qed (use Cons.prems(2) in \<open>simp add: grown_def\<close>)
qed

text \<open>In a sequence of states, what is read later has grown.\<close>

lemma successive_nth:
  assumes "successive wy ss" and m: "sharded_new n = Inr m \<or> sharded_with_auto_resize n = Inr m" "n \<le> 2 ^ 53"
    and tasks: "\<forall>p\<in>set programs. list_all sharded_task_ok p" and len: "all_calls wy programs \<le> 2 ^ 54"
    and r: "sharded_reachable wy m programs (hd ss)" and "i \<le> j" and "j < length ss"
  shows "sharded_reachable wy m programs (ss ! i) \<and> grown (ss ! i) (ss ! j)"
  using assms(1,6-8)
proof (induction ss arbitrary: i j)
  case (Cons s ss)
  note reach = successive_grown [OF Cons.prems(1) m tasks len]
  show ?case
  proof (cases i)
    case 0
    then show ?thesis using reach [of "(s # ss) ! j"] Cons.prems nth_mem [OF Cons.prems(4)] by auto
  next
    case (Suc i')
    then obtain j' where j: "j = Suc j'" "i' \<le> j'" using Cons.prems(3) by (cases j) auto
    have "ss \<noteq> []" using j Cons.prems(4) by auto
    then have "successive wy ss" "hd ss \<in> set (s # ss)" using Cons.prems(1) by (cases ss; auto)+
    moreover have "sharded_reachable wy m programs (hd ss)" using reach [of "hd ss"] Cons.prems(2) calculation(2) by simp
    ultimately show ?thesis using Cons.IH [of i' j'] j Suc Cons.prems(4) by simp
  qed
qed simp

text \<open>Some of the states of a sequence are a sequence again.\<close>

lemma successive_sorted: "successive wy ss \<longleftrightarrow> sorted_wrt (\<lambda>s s'. \<exists>j. (sharded_step wy ^^ j) s s') ss"
proof -
  have t: "transp (\<lambda>s s'. \<exists>j. (sharded_step wy ^^ j) s s')" for wy by (intro transpI) (metis relcomppI relpowp_add)
  show ?thesis by (induction wy ss rule: successive.induct) (use t in \<open>simp_all only: sorted_wrt2 successive.simps sorted_wrt1 sorted_wrt.simps(1)\<close>)
qed

lemma successive_replicate: "successive wy (replicate k s)"
  unfolding successive_sorted by (induction k) (auto intro: exI [of _ 0])

lemma shard_bounds:
  assumes "sharded_inv wy s" and "i < 16"
  shows "conc_len (shards (smap s) ! i) \<le> conc_capacity (shards (smap s) ! i)" and "conc_num_buckets (shards (smap s) ! i) \<le> 2 ^ 54"
proof -
  from sharded_invD(2) [OF assms] obtain k where "map_ok wy (shards (smap s) ! i) k"
    unfolding shard_sys_def using sys_okD(1) by blast
  then obtain C where C: "conc_tab wy (shards (smap s) ! i) k C" "k \<le> 54" by (rule map_okE)
  have "(2::nat) ^ k \<le> 2 ^ 54" using C(2) by (rule power_increasing) simp
  then show "conc_num_buckets (shards (smap s) ! i) \<le> 2 ^ 54" using conc_tab_buckets [OF C(1)] by simp
  show "conc_len (shards (smap s) ! i) \<le> conc_capacity (shards (smap s) ! i)"
    using card_cells_le [OF conc_tabD(6) [OF C(1)]] conc_tabD(1,3,7) [OF C(1)]
    by (simp add: conc_len_def conc_capacity_def inner_shape_def)
qed

text \<open>Sums over the sixteen shards, without overflow.\<close>

lemma snapshot_sum:
  assumes "\<And>i. i < 16 \<Longrightarrow> f (shards (smap (ss ! i)) ! i) \<le> 2 ^ 56"
  shows "unat (sum_list (map (\<lambda>c. word_of_nat (f c)) (shards (snapshot ss))) :: u64) = (\<Sum>i<16. f (shards (smap (ss ! i)) ! i))"
proof -
  let ?xs = "map f (shards (snapshot ss))"
  have s: "sum_list ?xs = (\<Sum>i<16. f (shards (smap (ss ! i)) ! i))"
    by (simp add: snapshot_def NUM_SHARDS_def comp_def interv_sum_list_conv_sum_set_nat atLeast0LessThan)
  also have "\<dots> \<le> (\<Sum>i<(16::nat). 2 ^ 56)" by (rule sum_mono) (use assms in auto)
  finally have "unat (sum_list (map word_of_nat ?xs) :: u64) = sum_list ?xs" by (intro unat_sum_list) simp
  then show ?thesis using s by (simp add: comp_def)
qed

section \<open>Properties\<close>



lemma sharded_finish:
  assumes "sharded_new n = Inr m \<or> sharded_with_auto_resize n = Inr m" and "n \<le> 2 ^ 53"
    and "\<forall>p\<in>set programs. list_all sharded_task_ok p" and "sum_list (map length programs) \<le> 2 ^ 50"
    and "(sharded_step wy ^^ j) (sharded_init wy m programs) s"
  shows "j \<le> 214 * all_calls wy programs
     \<and> (\<forall>t<length (spcs s). \<forall>i pc cs. spcs s ! t = Inside i pc cs \<and> pc \<noteq> Ready [] \<longrightarrow>
          (\<exists>u q ds c' q' ev. u < length (spcs s) \<and> spcs s ! u = Inside i q ds
             \<and> thread_step wy (no_readers (in_shard i (spcs s))) (shards (smap s) ! i) q c' q' ev))
     \<and> ((\<exists>s'. sharded_step wy s s') \<or> list_all (\<lambda>p. p = Between []) (spcs s))
     \<and> (list_all (\<lambda>p. p = Between []) (spcs s) \<longrightarrow> list_all (conc_inv wy) (shards (smap s))
          \<and> (\<forall>t<length programs. answered t (shistory s) = List.map_filter sharded_op (programs ! t)))"
proof (intro conjI impI)
  have len: "all_calls wy programs \<le> 2 ^ 54" using all_calls_le [of wy programs] assms(4) by simp
  have r: "sharded_reachable wy m programs s" by (rule sharded_runs_reachable [OF assms(5)])
  note all = sharded_reachable_inv [OF r assms(1-3) len]
  then have inv: "sharded_inv wy s" by blast
  have "sharded_work (sharded_init wy m programs) = 214 * all_calls wy programs"
    by (simp add: sharded_work_def sharded_init_def all_calls_def task_steps_def DRAIN_BATCH_def comp_def sum_list_const_mult)
  then show "j \<le> 214 * all_calls wy programs" using sharded_runs_bounded [OF assms(5)] by simp
  show "\<forall>t<length (spcs s). \<forall>i pc cs. spcs s ! t = Inside i pc cs \<and> pc \<noteq> Ready [] \<longrightarrow>
          (\<exists>u q ds c' q' ev. u < length (spcs s) \<and> spcs s ! u = Inside i q ds
             \<and> thread_step wy (no_readers (in_shard i (spcs s))) (shards (smap s) ! i) q c' q' ev)"
    using shard_steps [OF inv] by metis
  show "(\<exists>s'. sharded_step wy s s') \<or> list_all (\<lambda>p. p = Between []) (spcs s)"
    using some_sharded_step [OF inv] unfolding list_all_length by blast
  assume fin: "list_all (\<lambda>p. p = Between []) (spcs s)"
  show "\<forall>t<length programs. answered t (shistory s) = List.map_filter sharded_op (programs ! t)"
    using all fin by (fastforce simp: list_all_length map_filter_simps)
  have "conc_inv wy (shards (smap s) ! i)" if i: "i < 16" for i
  proof -
    obtain k where k: "sys_ok wy (shards (smap s) ! i) k (in_shard i (spcs s))"
      using sharded_invD(2) [OF inv i] unfolding shard_sys_def by blast
    from sys_okD(1) [OF k] obtain C where C: "conc_tab wy (shards (smap s) ! i) k C" "buffer_inv (c_buffer (shards (smap s) ! i))"
      "\<forall>(b, x)\<in>set (pending (c_buffer (shards (smap s) ! i))). b < 2 ^ k \<and> x < 4" by (rule map_okE)
    have "list_all (\<lambda>pc. held pc = None) (in_shard i (spcs s))" using fin by (auto simp: list_all_iff)
    from conc_invI [OF C(1) locks_ok_idle [OF sys_okD(2) [OF k] this] C(2,3)] show ?thesis .
  qed
  then show "list_all (conc_inv wy) (shards (smap s))" using sharded_invD(1) [OF inv] by (simp add: list_all_length)
qed



lemma live_statistics:
  assumes "sharded_new n = Inr m \<or> sharded_with_auto_resize n = Inr m" and "n \<le> 2 ^ 53"
    and "\<forall>p\<in>set programs. list_all sharded_task_ok p" and "sum_list (map length programs) \<le> 2 ^ 50"
    and "sharded_reachable wy m programs (hd us)" and "successive wy (us @ vs)" and "length us = 16" and "length vs = 16"
  shows "sharded_len (snapshot us) \<le> sharded_capacity (snapshot vs)
     \<and> sharded_eviction_count (snapshot us) \<le> sharded_eviction_count (snapshot vs)"
proof -
  have len: "all_calls wy programs \<le> 2 ^ 54" using all_calls_le [of wy programs] assms(4) by simp
  have "hd (us @ vs) = hd us" using assms(7) by (cases us) auto
  then have r: "sharded_reachable wy m programs (hd (us @ vs))" using assms(5) by simp
  note nth = successive_nth [OF assms(6,1-3) len r]
  have g: "sharded_inv wy (us ! i)" "sharded_inv wy (vs ! i)" "grown (us ! i) (vs ! i)" "evictions_counted (us ! i)" "evictions_counted (vs ! i)"
    "length (shistory (us ! i)) \<le> 2 ^ 54" "length (shistory (vs ! i)) \<le> 2 ^ 54" if "i < 16" for i
  proof -
    have "sharded_reachable wy m programs (us ! i)" "grown (us ! i) (vs ! i)" "sharded_reachable wy m programs (vs ! i)"
      using nth [of i "16 + i"] nth [of "16 + i" "16 + i"] that assms(7,8) by (auto simp: nth_append)
    then show "sharded_inv wy (us ! i)" "sharded_inv wy (vs ! i)" "grown (us ! i) (vs ! i)" "evictions_counted (us ! i)" "evictions_counted (vs ! i)"
      "length (shistory (us ! i)) \<le> 2 ^ 54" "length (shistory (vs ! i)) \<le> 2 ^ 54"
      using sharded_reachable_inv [OF _ assms(1-3) len] reachable_counted [OF _ assms(1-3) len] len by fastforce+
  qed
  have caps: "conc_capacity (shards (smap (us ! i)) ! i) \<le> conc_capacity (shards (smap (vs ! i)) ! i)"
    "conc_capacity (shards (smap (vs ! i)) ! i) \<le> 2 ^ 56" if "i < 16" for i
    using g(3) [OF that] shard_bounds(2) [OF g(2)] that by (auto simp: grown_def conc_capacity_def conc_num_buckets_def)
  have le: "conc_len (shards (smap (us ! i)) ! i) \<le> conc_capacity (shards (smap (vs ! i)) ! i)" if "i < 16" for i
    using shard_bounds(1) [OF g(1)] caps(1) that order_trans by blast
  have evs: "conc_eviction_count (shards (smap (us ! i)) ! i) \<le> conc_eviction_count (shards (smap (vs ! i)) ! i)"
    "conc_eviction_count (shards (smap (us ! i)) ! i) \<le> 2 ^ 54" "conc_eviction_count (shards (smap (vs ! i)) ! i) \<le> 2 ^ 54" if "i < 16" for i
    using g(3-7) [OF that] that
    by (fastforce simp: grown_def evictions_counted_def conc_eviction_count_def word_le_nat_alt)+
  have "unat (sharded_len (snapshot us)) \<le> unat (sharded_capacity (snapshot vs))"
    unfolding sharded_len_def sharded_capacity_def
  proof (subst (1 2) snapshot_sum)
    show "(\<Sum>i<16. conc_len (shards (smap (us ! i)) ! i)) \<le> (\<Sum>i<16. conc_capacity (shards (smap (vs ! i)) ! i))"
      by (rule sum_mono) (use le in auto)
  qed (use le caps(2) order_trans in blast)+
  moreover have "unat (sharded_eviction_count (snapshot us)) \<le> unat (sharded_eviction_count (snapshot vs))"
    unfolding sharded_eviction_count_def
  proof (subst (1 2) snapshot_sum)
    show "(\<Sum>i<16. conc_eviction_count (shards (smap (us ! i)) ! i)) \<le> (\<Sum>i<16. conc_eviction_count (shards (smap (vs ! i)) ! i))"
      by (rule sum_mono) (use evs(1) in auto)
  qed (use evs(2,3) in \<open>fastforce intro: order_trans\<close>)+
  ultimately show ?thesis unfolding word_le_nat_alt by blast
qed



end
