(* ===== verification/Demo.thy ===== *)
theory Demo
  imports Raw
begin

text \<open>
  The model evaluated: a one-bucket \<^verbatim>\<open>PulseMapRaw\<close> under a constant hash, filled one key at a
  time until the fifth insertion evicts. The evaluated states serve as witnesses of the properties
  that need a full bucket.
\<close>

definition demo_map :: "u8 list \<Rightarrow> pulse_map_raw" where
  "demo_map ks = foldl (\<lambda>m k. projr (raw_insert_ttl (\<lambda>_. 0) m [k] [k] 0)) (projr (raw_new 1)) ks"

abbreviation one_bucket ::
  "u64 \<Rightarrow> slot list \<Rightarrow> usize \<Rightarrow> usize \<Rightarrow> slot_ttl list \<Rightarrow> u64 \<Rightarrow> pulse_map_raw" where
  "one_bucket v ss c ev T e \<equiv>
     \<lparr>buckets = [\<lparr>meta = v, slots = ss\<rparr>], pool = slab_new, num_buckets = 1, bucket_mask = 0,
      count = c, eviction_count = ev, slots_ttl = T, current_epoch = e, default_ttl = 0\<rparr>"

abbreviation stamped :: "u64 \<Rightarrow> slot_ttl" where
  "stamped e \<equiv> \<lparr>st_epoch = e, st_ttl = 0\<rparr>"

abbreviation inline1 :: "u8 \<Rightarrow> slot" where
  "inline1 k \<equiv> [18, k, 0, 0, 0, 0, 0, k, 0, 0, 0, 0, 0, 0]"

section \<open>Evaluation rules\<close>

lemma match_loop_0: "match_loop test 0 = Inr None"
  by (simp add: match_loop.simps)

lemma match_loop_nonzero:
  "m \<noteq> 0 \<Longrightarrow> match_loop test m =
     (let i = trailing_zeros m
      in bindR (test i) (\<lambda>hit. if hit then Inr (Some i) else match_loop test (m AND (m - 1))))"
  by (simp add: match_loop.simps [of test m])

lemma expanded_lists:
  "replicate 14 (0 :: u8) = [0, 0, 0, 0, 0, 0, 0, 0, 0, 0, 0, 0, 0, 0]" "replicate 4 x = [x, x, x, x]"
  "[0..<4] = [0, 1, 2, 3]" "[0..<8] = [0, 1, 2, 3, 4, 5, 6, 7]"
  by (simp_all add: numeral_nat upt_rec)

lemmas insert_eval =
  insert_internal_def raw_insert_ttl_def Let_def compute_hash_def bucket_ix_def index_def
  find_in_bucket_def match_mask_def match_mask_branchless_raw_def shr64_def shl64_def
  choose_target_def find_free_or_expired_def insert_fill_def insert_update_def store_entry_def
  set_inline_def copy_into_def get_state_def set_state_def set_h2_def from_bits_def
  stamp_slot_ttl_def on_insert_def set_priority_def is_expired_def evict_slot_def free_slot_def
  get_mode_def find_evict_target_def evict_step_def match_loop_0 match_loop_nonzero
  trailing_zeros_def matches_key_def inline_key_def inline_key_len_def slice_def ttl_expired_def
  expanded_lists

lemma demo_snoc: "demo_map (ks @ [k]) = projr (raw_insert_ttl (\<lambda>_. 0) (demo_map ks) [k] [k] 0)"
  by (simp add: demo_map_def)

lemma demo_inv: "raw_inv (\<lambda>_. 0) (demo_map ks)"
proof (induction ks rule: rev_induct)
  case Nil
  then show ?case using raw_new_start(1) [of 1] by (simp add: demo_map_def)
next
  case (snoc k ks)
  show ?case
    using raw.insert_law [OF snoc, of "[k]" "[k]" 0]
    by (auto simp: demo_snoc raw_insert_ttl_def small_pair_def)
qed

section \<open>A run\<close>

lemma demo_0: "demo_map [] = one_bucket 0 (replicate 4 slot_empty) 0 0 (replicate 4 (stamped 0)) 0"
  by (simp add: demo_map_def raw_new_def next_power_of_two_def isize_max_def bucket_empty_def
      meta_empty_def slot_ttl_default_def)

lemma demo_1:
  "demo_map [1] = one_bucket 0x0100000000000001
     [inline1 1, slot_empty, slot_empty, slot_empty] 1 0 [stamped 1, stamped 0, stamped 0, stamped 0] 1"
  using demo_snoc [of "[]" 1] by (simp add: demo_0 insert_eval slot_empty_def)

lemma demo_2:
  "demo_map [1, 2] = one_bucket 0x0500000000000081
     [inline1 1, inline1 2, slot_empty, slot_empty] 2 0 [stamped 1, stamped 2, stamped 0, stamped 0] 2"
  using demo_snoc [of "[1]" 2] by (simp add: demo_1 insert_eval)

lemma demo_3:
  "demo_map [1, 2, 3] = one_bucket 0x1500000000004081
     [inline1 1, inline1 2, inline1 3, slot_empty] 3 0 [stamped 1, stamped 2, stamped 3, stamped 0] 3"
  using demo_snoc [of "[1, 2]" 3] by (simp add: demo_2 insert_eval)

lemma demo_4:
  "demo_map [1, 2, 3, 4] = one_bucket 0x5500000000204081
     [inline1 1, inline1 2, inline1 3, inline1 4] 4 0 [stamped 1, stamped 2, stamped 3, stamped 4] 4"
  using demo_snoc [of "[1, 2, 3]" 4] by (simp add: demo_3 insert_eval)

lemma demo_5:
  "raw_insert_ttl (\<lambda>_. 0) (demo_map [1, 2, 3, 4]) [5] [5] 0 = Inr (one_bucket 0x5500000000204081
     [inline1 5, inline1 2, inline1 3, inline1 4] 4 1 [stamped 5, stamped 2, stamped 3, stamped 4] 5)"
  by (simp add: demo_4 insert_eval)

lemmas lookup_eval =
  raw_lookup_def view_def has_key_def contents_def state_at_def slot_at_def get_key_bytes_def
  get_value_def inline_value_def inline_val_len_def get_state_def from_bits_def shr64_def
  bucket_ix_def get_mode_def inline_key_def inline_key_len_def slice_def expanded_lists Let_def

theorem raw_insert_victim_witness:
  "raw_lookup (\<lambda>_. 0) (demo_map [1, 2, 3, 4]) [1] \<noteq> None
   \<and> (\<exists>m'. raw_insert_ttl (\<lambda>_. 0) (demo_map [1, 2, 3, 4]) [5] [5] 0 = Inr m'
        \<and> raw_lookup (\<lambda>_. 0) m' [1] = None
        \<and> raw_lookup (\<lambda>_. 0) (demo_map [1, 2, 3, 4]) [5] = None)"
proof -
  have before: "raw_lookup (\<lambda>_. 0) (demo_map [1, 2, 3, 4]) [1] \<noteq> None"
    by (simp add: demo_4 lookup_eval)
  have after: "raw_lookup (\<lambda>_. 0) (one_bucket 0x5500000000204081
     [inline1 5, inline1 2, inline1 3, inline1 4] 4 1 [stamped 5, stamped 2, stamped 3, stamped 4] 5) [1] = None"
    by (simp add: lookup_eval)
  have "small_pair [5] [5]" by (simp add: small_pair_def)
  from raw_insert_victim [OF demo_inv this demo_5 before after] before after demo_5
  show ?thesis by blast
qed

end
