(* ===== verification/Iter.thy ===== *)
theory Iter
  imports Demo
begin

text \<open>
  The iterators of \<^verbatim>\<open>src/src/iter.rs\<close>: the cursor of \<^verbatim>\<open>RawIter\<close> walks the buckets and
  their slots, \<^verbatim>\<open>TypedIter\<close> decodes and skips what does not decode. The nested
  \<^verbatim>\<open>while\<close> loops are recursions with a measure; the borrowed map is an argument.
\<close>

record raw_iter =
  bucket_idx :: nat
  slot_idx :: nat

definition raw_iter_new :: raw_iter where
  "raw_iter_new = \<lparr>bucket_idx = 0, slot_idx = 0\<rparr>"

function iter_slots :: "slab_pool \<Rightarrow> bucket \<Rightarrow> nat \<Rightarrow> ((bytes \<times> bytes) option \<times> nat) res" where
  "iter_slots sp b si =
     (if si < 4 then
        let idx = si; si = si + 1 in
        if get_state (meta b) idx = Full then
          bindR (index (slots b) idx) (\<lambda>s.
          bindR (if get_mode s = 0 then Inr (inline_key s) else slab_key s sp) (\<lambda>key.
          bindR (get_value s sp) (\<lambda>val.
          Inr (Some (key, val), si))))
        else iter_slots sp b si
      else Inr (None, si))"
  by pat_completeness auto
termination
  by (relation "measure (\<lambda>(sp, b, i). 4 - i)") auto

declare iter_slots.simps [simp del]

function raw_iter_next :: "pulse_map_raw \<Rightarrow> raw_iter \<Rightarrow> ((bytes \<times> bytes) option \<times> raw_iter) res" where
  "raw_iter_next m it =
     (if bucket_idx it < num_buckets m then
        bindR (index (buckets m) (bucket_idx it)) (\<lambda>b.
        bindR (iter_slots (pool m) b (slot_idx it)) (\<lambda>(r, si).
        case r of
          Some kv \<Rightarrow> Inr (Some kv, it\<lparr>slot_idx := si\<rparr>)
        | None \<Rightarrow> raw_iter_next m (it\<lparr>bucket_idx := bucket_idx it + 1, slot_idx := 0\<rparr>)))
      else Inr (None, it))"
  by pat_completeness auto
termination
  by (relation "measure (\<lambda>(m, it). num_buckets m - bucket_idx it)") auto

declare raw_iter_next.simps [simp del]

text \<open>Consuming a \<^verbatim>\<open>RawIter\<close>: each item moves the cursor forward.\<close>

definition to_visit :: "pulse_map_raw \<Rightarrow> raw_iter \<Rightarrow> nat" where
  "to_visit m it = 5 * num_buckets m - (5 * bucket_idx it + min 4 (slot_idx it))"

lemma iter_slots_forward:
  "iter_slots sp b i = Inr (Some kv, j) \<Longrightarrow> i < j \<and> j \<le> 4"
proof (induction sp b i rule: iter_slots.induct)
  case (1 sp b i)
  show ?case
  proof (cases "i < 4 \<and> get_state (meta b) i \<noteq> Full")
    case True
    then have "iter_slots sp b (i + 1) = Inr (Some kv, j)"
      using "1.prems" by (subst (asm) iter_slots.simps) (simp add: Let_def)
    then show ?thesis using "1.IH" True by fastforce
  next
    case False
    then show ?thesis
      using "1.prems" by (subst (asm) iter_slots.simps) (auto simp: Let_def split: if_splits)
  qed
qed

lemma raw_iter_next_forward:
  "raw_iter_next m it = Inr (Some kv, it') \<Longrightarrow> to_visit m it' < to_visit m it"
proof (induction m it rule: raw_iter_next.induct)
  case (1 m it)
  from "1.prems" have b: "bucket_idx it < num_buckets m"
    by (subst (asm) raw_iter_next.simps) (simp split: if_splits)
  from "1.prems" b obtain bk r si where bk: "index (buckets m) (bucket_idx it) = Inr bk"
    and s: "iter_slots (pool m) bk (slot_idx it) = Inr (r, si)"
    and r: "(case r of Some kv \<Rightarrow> Inr (Some kv, it\<lparr>slot_idx := si\<rparr>)
        | None \<Rightarrow> raw_iter_next m (it\<lparr>bucket_idx := bucket_idx it + 1, slot_idx := 0\<rparr>)) = Inr (Some kv, it')"
    by (subst (asm) raw_iter_next.simps) (auto split: prod.splits)
  show ?case
  proof (cases r)
    case None
    then have "to_visit m it' < to_visit m (it\<lparr>bucket_idx := bucket_idx it + 1, slot_idx := 0\<rparr>)"
      using "1.IH" [OF b] r s bk by (simp add: index_def split: if_splits)
    then show ?thesis using b by (simp add: to_visit_def)
  next
    case (Some kv')
    then show ?thesis using r s iter_slots_forward [of "pool m" bk "slot_idx it" kv' si] b
      by (auto simp: to_visit_def)
  qed
qed

function raw_collect :: "pulse_map_raw \<Rightarrow> raw_iter \<Rightarrow> (bytes \<times> bytes) list res" where
  "raw_collect m it =
     (case raw_iter_next m it of
        Inl e \<Rightarrow> Inl e
      | Inr (None, it') \<Rightarrow> Inr []
      | Inr (Some kv, it') \<Rightarrow> bindR (raw_collect m it') (\<lambda>kvs. Inr (kv # kvs)))"
  by pat_completeness auto
termination
  by (relation "measure (\<lambda>(m, it). to_visit m it)") (auto intro: raw_iter_next_forward)

declare raw_collect.simps [simp del]

text \<open>\<^verbatim>\<open>TypedIter::next\<close>: skip the pairs that fail to decode.\<close>

function typed_iter_next ::
  "(bytes \<Rightarrow> 'k option) \<Rightarrow> (bytes \<Rightarrow> 'v option) \<Rightarrow> pulse_map_raw \<Rightarrow> raw_iter \<Rightarrow>
     (('k \<times> 'v) option \<times> raw_iter) res" where
  "typed_iter_next dk dv m it =
     (case raw_iter_next m it of
        Inl e \<Rightarrow> Inl e
      | Inr (None, it') \<Rightarrow> Inr (None, it')
      | Inr (Some (kb, vb), it') \<Rightarrow>
          (case (dk kb, dv vb) of
             (Some k, Some v) \<Rightarrow> Inr (Some (k, v), it')
           | _ \<Rightarrow> typed_iter_next dk dv m it'))"
  by pat_completeness auto
termination
  by (relation "measure (\<lambda>(dk, dv, m, it). to_visit m it)") (auto intro: raw_iter_next_forward)

declare typed_iter_next.simps [simp del]

lemma typed_iter_next_forward:
  "typed_iter_next dk dv m it = Inr (Some kv, it') \<Longrightarrow> to_visit m it' < to_visit m it"
proof (induction n \<equiv> "to_visit m it" arbitrary: it rule: less_induct)
  case less
  obtain kb vb it1 where n: "raw_iter_next m it = Inr (Some (kb, vb), it1)"
    using less.prems by (subst (asm) typed_iter_next.simps) (auto split: sum.splits option.splits prod.splits)
  note f = raw_iter_next_forward [OF n]
  have "typed_iter_next dk dv m it1 = Inr (Some kv, it') \<or> it' = it1"
    using less.prems n by (subst (asm) typed_iter_next.simps) (auto split: option.splits)
  then show ?case using less.hyps [OF f] f by auto
qed

function typed_collect ::
  "(bytes \<Rightarrow> 'k option) \<Rightarrow> (bytes \<Rightarrow> 'v option) \<Rightarrow> pulse_map_raw \<Rightarrow> raw_iter \<Rightarrow> ('k \<times> 'v) list res" where
  "typed_collect dk dv m it =
     (case typed_iter_next dk dv m it of
        Inl e \<Rightarrow> Inl e
      | Inr (None, it') \<Rightarrow> Inr []
      | Inr (Some kv, it') \<Rightarrow> bindR (typed_collect dk dv m it') (\<lambda>kvs. Inr (kv # kvs)))"
  by pat_completeness auto
termination
  by (relation "measure (\<lambda>(dk, dv, m, it). to_visit m it)") (auto intro: typed_iter_next_forward)

declare typed_collect.simps [simp del]

section \<open>What the cursor visits\<close>

definition cell_of :: "nat \<Rightarrow> position" where
  "cell_of p = (p div 4, p mod 4)"

definition cursor :: "raw_iter \<Rightarrow> nat" where
  "cursor it = 4 * bucket_idx it + slot_idx it"

definition ahead :: "nat \<Rightarrow> raw_iter \<Rightarrow> position list" where
  "ahead n it = map cell_of [cursor it..<4 * n]"

lemma cell_of_inj: "cell_of p = cell_of q \<Longrightarrow> p = q"
  unfolding cell_of_def by (metis Pair_inject div_mult_mod_eq)

lemma set_cells: "set (map cell_of [0..<4 * n]) = {..<n} \<times> {..<4}"
proof (intro equalityI subsetI)
  fix pos assume "pos \<in> {..<n} \<times> {..<4 :: nat}"
  then have "pos = cell_of (4 * fst pos + snd pos)" "4 * fst pos + snd pos < 4 * n"
    by (auto simp: cell_of_def prod_eq_iff)
  then show "pos \<in> set (map cell_of [0..<4 * n])" by fastforce
qed (auto simp: cell_of_def)

lemma find_upt_first:
  "find P [i..<n] = Some j \<Longrightarrow> i \<le> j \<and> j < n \<and> P j \<and> (\<forall>k. i \<le> k \<longrightarrow> k < j \<longrightarrow> \<not> P k)"
proof -
  assume f: "find P [i..<n] = Some j"
  then obtain p where p: "p < length [i..<n]" "P ([i..<n] ! p)" "j = [i..<n] ! p" "\<forall>q<p. \<not> P ([i..<n] ! q)"
    by (auto simp: find_Some_iff)
  have "\<not> P k" if "i \<le> k" "k < j" for k
    using p(4) [rule_format, of "k - i"] p(1,3) that by simp
  with p show ?thesis by simp
qed

lemma iter_slots_ok:
  assumes inv: "table_inv wy ix bs sp C" and b: "b < length bs" and "i \<le> 4"
  shows "iter_slots sp (bs ! b) i =
     Inr (case find (\<lambda>j. C (b, j) \<noteq> None) [i..<4] of None \<Rightarrow> (None, 4) | Some j \<Rightarrow> (C (b, j), j + 1))"
  using \<open>i \<le> 4\<close>
proof (induction "4 - i" arbitrary: i)
  case 0
  then show ?case by (simp add: iter_slots.simps)
next
  case (Suc n)
  then have i: "i < 4" by simp
  note full = bucket_full_iff [OF inv b i]
  have upt: "[i..<4] = i # [Suc i..<4]" using i by (simp add: upt_conv_Cons)
  show ?case
  proof (cases "C (b, i)")
    case None
    then show ?thesis using Suc full i upt by (simp add: iter_slots.simps [of sp "bs ! b" i] Let_def)
  next
    case (Some kv)
    obtain k v where kv: "kv = (k, v)" by fastforce
    have "length (slots (bs ! b)) = 4"
      using reprD(2) [OF inv_repr [OF inv]] b by (simp add: bucket_shape_def)
    moreover note holds_reads [OF reprD(4) [OF inv_repr [OF inv] Some [unfolded kv]]]
    ultimately show ?thesis using Some kv full i upt
      by (simp add: iter_slots.simps [of sp "bs ! b" i] Let_def index_ok slot_at_def get_key_bytes_def
          slab_key_def split: if_splits)
  qed
qed

lemma ahead_skip:
  fixes it :: raw_iter
  defines "b \<equiv> bucket_idx it" and "i \<equiv> slot_idx it"
  assumes "b < n" and "i \<le> j" and "j < 4"
    and "\<And>k. i \<le> k \<Longrightarrow> k < j \<Longrightarrow> D (b, k) = None"
  shows "\<exists>pre. ahead n it = pre @ (b, j) # ahead n (it\<lparr>slot_idx := j + 1\<rparr>) \<and> (\<forall>q\<in>set pre. D q = None)"
proof -
  have "[4 * b + i..<4 * n] = [4 * b + i..<4 * b + j] @ (4 * b + j) # [4 * b + j + 1..<4 * n]"
    using assms(3-5) upt_add_eq_append [of "4 * b + i" "4 * b + j" "4 * n - (4 * b + j)"]
    by (simp add: upt_conv_Cons)
  moreover have "D (cell_of p) = None" if "p \<in> set [4 * b + i..<4 * b + j]" for p
  proof -
    define k where "k = p - 4 * b"
    have k: "p = 4 * b + k" "i \<le> k" "k < j" using that by (auto simp: k_def)
    then have "cell_of p = (b, k)" using assms(5) by (simp add: cell_of_def)
    then show ?thesis using assms(6) k by simp
  qed
  moreover have "cell_of (4 * b + j) = (b, j)" using assms(5) by (simp add: cell_of_def)
  ultimately show ?thesis
    by (intro exI [of _ "map cell_of [4 * b + i..<4 * b + j]"]) (simp add: ahead_def cursor_def b_def i_def)
qed

text \<open>Leaving a bucket whose remaining slots are empty.\<close>

lemma ahead_next_bucket:
  assumes "bucket_idx it < n" and "slot_idx it \<le> 4" and none: "\<And>j. slot_idx it \<le> j \<Longrightarrow> j < 4 \<Longrightarrow> C (bucket_idx it, j) = None"
  obtains skipped where "ahead n it = skipped @ ahead n (it\<lparr>bucket_idx := bucket_idx it + 1, slot_idx := 0\<rparr>)"
    and "\<forall>q\<in>set skipped. C q = None"
proof -
  let ?b = "bucket_idx it" and ?i = "slot_idx it"
  have "[4 * ?b + ?i..<4 * n] = [4 * ?b + ?i..<4 * (?b + 1)] @ [4 * (?b + 1)..<4 * n]"
    using assms(1,2) upt_add_eq_append [of "4 * ?b + ?i" "4 * (?b + 1)" "4 * n - 4 * (?b + 1)"] by simp
  then have "ahead n it = map cell_of [4 * ?b + ?i..<4 * (?b + 1)] @ ahead n (it\<lparr>bucket_idx := ?b + 1, slot_idx := 0\<rparr>)"
    by (simp add: ahead_def cursor_def)
  moreover have "C q = None" if "q \<in> set (map cell_of [4 * ?b + ?i..<4 * (?b + 1)])" for q
  proof -
    from that obtain p where "q = cell_of p" "4 * ?b + ?i \<le> p" "p < 4 * ?b + 4" by auto
    moreover from this have "p div 4 = ?b" by (intro div_nat_eqI) auto
    moreover from this have "p mod 4 = p - 4 * ?b" by (simp add: modulo_nat_def mult.commute)
    ultimately show "C q = None" using none [of "p - 4 * ?b"] by (auto simp: cell_of_def)
  qed
  ultimately show thesis using that by blast
qed

lemma raw_iter_next_ok:
  assumes inv: "table_inv wy ix (buckets m) (pool m) C" and n: "num_buckets m = length (buckets m)"
    and "slot_idx it \<le> 4"
  shows "\<exists>r it'. raw_iter_next m it = Inr (r, it') \<and> slot_idx it' \<le> 4
     \<and> (case r of
          None \<Rightarrow> \<forall>q\<in>set (ahead (num_buckets m) it). C q = None
        | Some kv \<Rightarrow> \<exists>pre p. ahead (num_buckets m) it = pre @ p # ahead (num_buckets m) it'
            \<and> (\<forall>q\<in>set pre. C q = None) \<and> C p = Some kv)"
  using \<open>slot_idx it \<le> 4\<close>
proof (induction "num_buckets m - bucket_idx it" arbitrary: it)
  case 0
  then show ?case by (simp add: raw_iter_next.simps ahead_def cursor_def)
next
  case (Suc d)
  let ?b = "bucket_idx it" and ?i = "slot_idx it" and ?n = "num_buckets m"
  have b: "?b < ?n" "?b < length (buckets m)" using Suc.hyps(2) n by simp_all
  note slots = iter_slots_ok [OF inv b(2) Suc.prems]
  show ?case
  proof (cases "find (\<lambda>j. C (?b, j) \<noteq> None) [?i..<4]")
    case None
    let ?it = "it\<lparr>bucket_idx := ?b + 1, slot_idx := 0\<rparr>"
    have "C (?b, j) = None" if "?i \<le> j" "j < 4" for j
      using None that by (cases "C (?b, j)") (auto simp: find_None_iff)
    then obtain skipped where ah: "ahead ?n it = skipped @ ahead ?n ?it" "\<forall>q\<in>set skipped. C q = None"
      by (rule ahead_next_bucket [OF b(1) Suc.prems])
    have step: "raw_iter_next m it = raw_iter_next m ?it"
      using b slots None by (simp add: raw_iter_next.simps [of m it] index_ok)
    have "d = ?n - bucket_idx ?it" using Suc.hyps(2) by simp
    from Suc.hyps(1) [OF this] obtain r it' where r: "raw_iter_next m ?it = Inr (r, it')" "slot_idx it' \<le> 4"
      "case r of
          None \<Rightarrow> \<forall>q\<in>set (ahead ?n ?it). C q = None
        | Some kv \<Rightarrow> \<exists>pre p. ahead ?n ?it = pre @ p # ahead ?n it'
            \<and> (\<forall>q\<in>set pre. C q = None) \<and> C p = Some kv" by auto
    have "case r of
          None \<Rightarrow> \<forall>q\<in>set (ahead ?n it). C q = None
        | Some kv \<Rightarrow> \<exists>pre p. ahead ?n it = pre @ p # ahead ?n it' \<and> (\<forall>q\<in>set pre. C q = None) \<and> C p = Some kv"
    proof (cases r)
      case None
      then show ?thesis using r(3) ah by auto
    next
      case (Some kv)
      with r(3) obtain pre p where "ahead ?n ?it = pre @ p # ahead ?n it'" "\<forall>q\<in>set pre. C q = None" "C p = Some kv"
        by auto
      then have "ahead ?n it = (skipped @ pre) @ p # ahead ?n it'" "\<forall>q\<in>set (skipped @ pre). C q = None" "C p = Some kv"
        using ah by auto
      then show ?thesis unfolding Some option.case by blast
    qed
    then show ?thesis using r(1,2) step by auto
  next
    case (Some j)
    then have j: "?i \<le> j" "j < 4" "C (?b, j) \<noteq> None" "\<And>k. ?i \<le> k \<Longrightarrow> k < j \<Longrightarrow> C (?b, k) = None"
      using find_upt_first [OF Some] by blast+
    have "raw_iter_next m it = Inr (C (?b, j), it\<lparr>slot_idx := j + 1\<rparr>)"
      using b slots Some j(3) by (auto simp: raw_iter_next.simps [of m it] index_ok)
    moreover obtain pre where "ahead ?n it = pre @ (?b, j) # ahead ?n (it\<lparr>slot_idx := j + 1\<rparr>)"
      "\<forall>q\<in>set pre. C q = None"
      using ahead_skip [of it ?n j C] b(1) j by blast
    ultimately show ?thesis using j(2,3) by auto
  qed
qed

lemma map_filter_skip: "\<forall>q\<in>set pre. C q = None \<Longrightarrow> List.map_filter C (pre @ xs) = List.map_filter C xs"
  by (induction pre) (auto simp: List.map_filter_def)

lemma raw_collect_ok:
  assumes inv: "table_inv wy ix (buckets m) (pool m) C" and n: "num_buckets m = length (buckets m)"
    and "slot_idx it \<le> 4"
  shows "raw_collect m it = Inr (List.map_filter C (ahead (num_buckets m) it))"
  using \<open>slot_idx it \<le> 4\<close>
proof (induction v \<equiv> "to_visit m it" arbitrary: it rule: less_induct)
  case less
  obtain r it' where r: "raw_iter_next m it = Inr (r, it')" "slot_idx it' \<le> 4"
    "case r of
          None \<Rightarrow> \<forall>q\<in>set (ahead (num_buckets m) it). C q = None
        | Some kv \<Rightarrow> \<exists>pre p. ahead (num_buckets m) it = pre @ p # ahead (num_buckets m) it'
            \<and> (\<forall>q\<in>set pre. C q = None) \<and> C p = Some kv"
    using raw_iter_next_ok [OF inv n less.prems] by blast
  show ?case
  proof (cases r)
    case None
    then show ?thesis using r map_filter_skip [of "ahead (num_buckets m) it" C "[]"]
      by (simp add: raw_collect.simps [of m it] List.map_filter_def)
  next
    case (Some kv)
    with r(3) obtain pre p where "ahead (num_buckets m) it = pre @ p # ahead (num_buckets m) it'"
      "\<forall>q\<in>set pre. C q = None" "C p = Some kv" by auto
    then have "List.map_filter C (ahead (num_buckets m) it) = kv # List.map_filter C (ahead (num_buckets m) it')"
      using map_filter_skip [of pre C] by (simp add: List.map_filter_def)
    moreover have "raw_collect m it' = Inr (List.map_filter C (ahead (num_buckets m) it'))"
      using less.hyps raw_iter_next_forward r(1,2) Some by blast
    ultimately show ?thesis using r(1) Some by (simp add: raw_collect.simps [of m it])
  qed
qed

lemma set_map_filter: "set (List.map_filter C xs) = {y. \<exists>x\<in>set xs. C x = Some y}"
  by (force simp: List.map_filter_def)

lemma map_filter_distinct:
  assumes ky: "keyed bx bs C" and "distinct ps"
  shows "distinct (map fst (List.map_filter C ps))"
  using assms(2)
proof (induction ps)
  case Nil
  show ?case by (simp add: List.map_filter_def)
next
  case (Cons p ps)
  show ?case
  proof (cases "C p")
    case None
    then show ?thesis using Cons by (simp add: List.map_filter_def)
  next
    case (Some kv)
    have "fst kv \<notin> set (map fst (List.map_filter C ps))"
    proof
      assume "fst kv \<in> set (map fst (List.map_filter C ps))"
      then obtain q v where "q \<in> set ps" "C q = Some (fst kv, v)" by (force simp: set_map_filter)
      moreover have "C p = Some (fst kv, snd kv)" using Some by simp
      ultimately show False using keyedD(3) [OF ky, of p "fst kv" "snd kv" q v] Cons.prems by auto
    qed
    then show ?thesis using Cons Some by (simp add: List.map_filter_def)
  qed
qed

lemma raw_collect_start:
  assumes "raw_inv wy m"
  obtains kvs where "raw_collect m raw_iter_new = Inr kvs" and "distinct (map fst kvs)"
    and "\<And>k v. (k, v) \<in> set kvs \<longleftrightarrow> (\<exists>t. raw_lookup wy m k = Some (v, t))"
    and "length kvs = raw_len m"
proof -
  from assms obtain k C where g: "geometry m k"
    and inv: "table_inv wy (bucket_ix m) (buckets m) (pool m) C"
    and cnt: "unat (count m) = card (dom C)"
    and l: "raw_lookup wy m = view (\<lambda>k. bucket_ix m (wy k)) C (slots_ttl m)"
    and ky: "keyed (\<lambda>k. bucket_ix m (wy k)) (buckets m) C" by (rule raw_invE)
  have n: "num_buckets m = length (buckets m)" using g by (simp add: geometry_def)
  let ?ps = "map cell_of [0..<4 * num_buckets m]" and ?kvs = "List.map_filter C (map cell_of [0..<4 * num_buckets m])"
  have coll: "raw_collect m raw_iter_new = Inr ?kvs"
    using raw_collect_ok [OF inv n, of raw_iter_new] by (simp add: raw_iter_new_def ahead_def cursor_def)
  have dps: "distinct ?ps" by (auto simp: distinct_map inj_on_def dest: cell_of_inj)
  have dom: "dom C \<subseteq> set ?ps" using ky unfolding keyed_def set_cells cells_def n by simp
  have mem: "(key, v) \<in> set ?kvs \<longleftrightarrow> (\<exists>t. raw_lookup wy m key = Some (v, t))" for key v
    unfolding set_map_filter l view_Some [OF ky] using dom by (auto simp del: set_map)
  have "set (map fst ?kvs) = dom (raw_lookup wy m)"
    unfolding set_map image_def dom_def using mem by (auto, (metis fst_conv)+)
  then have "length ?kvs = card (dom (raw_lookup wy m))"
    using distinct_card [OF map_filter_distinct [OF ky dps]] by simp
  then have "length ?kvs = raw_len m" using raw_bounds(1) [OF assms] by simp
  with that coll map_filter_distinct [OF ky dps] mem show thesis by blast
qed

text \<open>
  Iteration. \<^verbatim>\<open>RawIter\<close> never panics, ends, and yields every stored pair exactly once,
  expired entries included: no key twice, as many items as \<^verbatim>\<open>len()\<close> reports.
\<close>

theorem raw_iter_complete:
  assumes "raw_inv wy m"
  shows "\<exists>kvs. raw_collect m raw_iter_new = Inr kvs \<and> distinct (map fst kvs)
     \<and> (\<forall>k v. (k, v) \<in> set kvs \<longleftrightarrow> (\<exists>t. raw_lookup wy m k = Some (v, t)))
     \<and> length kvs = raw_len m"
  using raw_collect_start [OF assms] by metis

theorem raw_iter_complete_witness:
  "\<exists>kvs. raw_collect (demo_map [1, 2, 3, 4]) raw_iter_new = Inr kvs \<and> length kvs = 4
     \<and> distinct (map fst kvs)"
proof -
  have "raw_len (demo_map [1, 2, 3, 4]) = 4" by (simp add: raw_len_def demo_4)
  then show ?thesis using raw_iter_complete [OF demo_inv, of "[1, 2, 3, 4]"] by auto
qed

lemma typed_collect_ok:
  "raw_collect m it = Inr kvs \<Longrightarrow>
   typed_collect dk dv m it =
     Inr (List.map_filter (\<lambda>(kb, vb). case (dk kb, dv vb) of (Some k, Some v) \<Rightarrow> Some (k, v) | _ \<Rightarrow> None) kvs)"
proof (induction v \<equiv> "to_visit m it" arbitrary: it kvs rule: less_induct)
  case less
  show ?case
  proof (cases "\<exists>kb vb it'. raw_iter_next m it = Inr (Some (kb, vb), it')")
    case True
    then obtain kb vb it' where n: "raw_iter_next m it = Inr (Some (kb, vb), it')" by blast
    then obtain kvs' where c: "raw_collect m it' = Inr kvs'" "kvs = (kb, vb) # kvs'"
      using less.prems by (subst (asm) raw_collect.simps) auto
    note ih = less.hyps [OF raw_iter_next_forward [OF n] c(1)]
    show ?thesis
    proof (cases "dk kb \<noteq> None \<and> dv vb \<noteq> None")
      case True
      then have "typed_iter_next dk dv m it = Inr (Some (the (dk kb), the (dv vb)), it')"
        using n by (auto simp: typed_iter_next.simps [of dk dv m it])
      then show ?thesis using True ih c(2)
        by (auto simp: typed_collect.simps [of dk dv m it] List.map_filter_def)
    next
      case False
      then have "typed_iter_next dk dv m it = typed_iter_next dk dv m it'"
        using n by (auto simp: typed_iter_next.simps [of dk dv m it] split: option.splits)
      then have "typed_collect dk dv m it = typed_collect dk dv m it'"
        by (simp add: typed_collect.simps [of dk dv m it] typed_collect.simps [of dk dv m it'])
      then show ?thesis using False ih c(2) by (auto simp: List.map_filter_def split: option.splits)
    qed
  next
    case False
    then obtain it' where "raw_iter_next m it = Inr (None, it')" "kvs = []"
      using less.prems by (subst (asm) raw_collect.simps) (auto split: sum.splits prod.splits option.splits)
    then show ?thesis
      by (simp add: typed_collect.simps [of dk dv m it] typed_iter_next.simps [of dk dv m it] List.map_filter_def)
  qed
qed

end
