(* ===== verification/Typed.thy ===== *)
theory Typed
  imports Codec Iter
begin

text \<open>
  \<^verbatim>\<open>TypedPulseMap<K, V>\<close> and its entry API (\<^verbatim>\<open>src/src/lib.rs\<close>) and the trait
  implementations \<^verbatim>\<open>Extend\<close> and \<^verbatim>\<open>From<HashMap>\<close> (\<^verbatim>\<open>src/src/traits.rs\<close>).
  The trait bounds are the codec records, passed as arguments; the mutable borrow inside an entry
  is the map it carries and returns. A \<^verbatim>\<open>HashMap\<close> that is consumed is the list of its pairs
  in iteration order.
\<close>

record typed_pulse_map =
  raw :: pulse_map_raw

definition typed_new :: "nat \<Rightarrow> typed_pulse_map res" where
  "typed_new n = bindR (raw_new n) (\<lambda>m. Inr \<lparr>raw = m\<rparr>)"

definition typed_insert ::
  "'k pulse_key \<Rightarrow> 'v pulse_value \<Rightarrow> (bytes \<Rightarrow> u64) \<Rightarrow> typed_pulse_map \<Rightarrow> 'k \<Rightarrow> 'v \<Rightarrow> typed_pulse_map res" where
  "typed_insert K V wy m key val =
     (let kb = key_to_bytes K key; vb = val_to_bytes V val in
      bindR (raw_insert wy (raw m) kb vb) (\<lambda>r. Inr (m\<lparr>raw := r\<rparr>)))"

definition typed_insert_ttl ::
  "'k pulse_key \<Rightarrow> 'v pulse_value \<Rightarrow> (bytes \<Rightarrow> u64) \<Rightarrow> typed_pulse_map \<Rightarrow> 'k \<Rightarrow> 'v \<Rightarrow> u64 \<Rightarrow> typed_pulse_map res" where
  "typed_insert_ttl K V wy m key val ttl =
     (let kb = key_to_bytes K key; vb = val_to_bytes V val in
      bindR (raw_insert_ttl wy (raw m) kb vb ttl) (\<lambda>r. Inr (m\<lparr>raw := r\<rparr>)))"

definition typed_get ::
  "'k pulse_key \<Rightarrow> 'v pulse_value \<Rightarrow> (bytes \<Rightarrow> u64) \<Rightarrow> typed_pulse_map \<Rightarrow> 'k \<Rightarrow> ('v option \<times> typed_pulse_map) res" where
  "typed_get K V wy m key =
     bindR (raw_get wy (raw m) (with_key_bytes K key)) (\<lambda>(r, rm).
     Inr (Option.bind r (val_from_bytes V), m\<lparr>raw := rm\<rparr>))"

definition typed_peek ::
  "'k pulse_key \<Rightarrow> 'v pulse_value \<Rightarrow> (bytes \<Rightarrow> u64) \<Rightarrow> typed_pulse_map \<Rightarrow> 'k \<Rightarrow> 'v option res" where
  "typed_peek K V wy m key =
     bindR (raw_peek wy (raw m) (with_key_bytes K key)) (\<lambda>r. Inr (Option.bind r (val_from_bytes V)))"

definition typed_remove ::
  "'k pulse_key \<Rightarrow> (bytes \<Rightarrow> u64) \<Rightarrow> typed_pulse_map \<Rightarrow> 'k \<Rightarrow> (bool \<times> typed_pulse_map) res" where
  "typed_remove K wy m key =
     bindR (raw_remove wy (raw m) (with_key_bytes K key)) (\<lambda>(r, rm). Inr (r, m\<lparr>raw := rm\<rparr>))"

definition typed_contains_key ::
  "'k pulse_key \<Rightarrow> (bytes \<Rightarrow> u64) \<Rightarrow> typed_pulse_map \<Rightarrow> 'k \<Rightarrow> bool res" where
  "typed_contains_key K wy m key =
     bindR (raw_peek wy (raw m) (with_key_bytes K key)) (\<lambda>r. Inr (r \<noteq> None))"

definition typed_iter ::
  "'k pulse_key \<Rightarrow> 'v pulse_value \<Rightarrow> typed_pulse_map \<Rightarrow> ('k \<times> 'v) list res" where
  "typed_iter K V m = typed_collect (key_from_bytes K) (val_from_bytes V) (raw m) raw_iter_new"

definition typed_len :: "typed_pulse_map \<Rightarrow> nat" where
  "typed_len m = raw_len (raw m)"

definition typed_is_empty :: "typed_pulse_map \<Rightarrow> bool" where
  "typed_is_empty m = raw_is_empty (raw m)"

definition typed_capacity :: "typed_pulse_map \<Rightarrow> nat" where
  "typed_capacity m = raw_capacity (raw m)"

definition typed_load_factor :: "typed_pulse_map \<Rightarrow> real" where
  "typed_load_factor m = raw_load_factor (raw m)"

definition typed_eviction_count :: "typed_pulse_map \<Rightarrow> nat" where
  "typed_eviction_count m = raw_eviction_count (raw m)"

definition typed_set_ttl :: "typed_pulse_map \<Rightarrow> u64 \<Rightarrow> typed_pulse_map" where
  "typed_set_ttl m ttl_epochs = m\<lparr>raw := raw_set_ttl (raw m) ttl_epochs\<rparr>"

definition typed_get_ttl :: "typed_pulse_map \<Rightarrow> u64" where
  "typed_get_ttl m = raw_get_ttl (raw m)"

definition typed_current_epoch :: "typed_pulse_map \<Rightarrow> u64" where
  "typed_current_epoch m = raw_current_epoch (raw m)"

section \<open>The entry API\<close>

record ('k, 'v) occupied_entry =
  oe_map :: typed_pulse_map
  oe_key :: 'k
  oe_value :: 'v

record 'k vacant_entry =
  ve_map :: typed_pulse_map
  ve_key :: 'k

datatype ('k, 'v) entry = Occupied "('k, 'v) occupied_entry" | Vacant "'k vacant_entry"

definition typed_entry ::
  "'k pulse_key \<Rightarrow> 'v pulse_value \<Rightarrow> (bytes \<Rightarrow> u64) \<Rightarrow> typed_pulse_map \<Rightarrow> 'k \<Rightarrow> ('k, 'v) entry res" where
  "typed_entry K V wy m key =
     (let kb = key_to_bytes K key in
      bindR (raw_peek wy (raw m) kb) (\<lambda>r.
      case Option.bind r (val_from_bytes V) of
        Some val \<Rightarrow> Inr (Occupied \<lparr>oe_map = m, oe_key = key, oe_value = val\<rparr>)
      | None \<Rightarrow> Inr (Vacant \<lparr>ve_map = m, ve_key = key\<rparr>)))"

fun or_insert ::
  "'k pulse_key \<Rightarrow> 'v pulse_value \<Rightarrow> (bytes \<Rightarrow> u64) \<Rightarrow> ('k, 'v) entry \<Rightarrow> 'v \<Rightarrow> typed_pulse_map res" where
  "or_insert K V wy (Vacant e) dflt = typed_insert K V wy (ve_map e) (ve_key e) dflt"
| "or_insert K V wy (Occupied e) dflt = Inr (oe_map e)"

fun or_insert_with ::
  "'k pulse_key \<Rightarrow> 'v pulse_value \<Rightarrow> (bytes \<Rightarrow> u64) \<Rightarrow> ('k, 'v) entry \<Rightarrow> (unit \<Rightarrow> 'v) \<Rightarrow> typed_pulse_map res" where
  "or_insert_with K V wy (Vacant e) f = typed_insert K V wy (ve_map e) (ve_key e) (f ())"
| "or_insert_with K V wy (Occupied e) f = Inr (oe_map e)"

text \<open>The closure \<^verbatim>\<open>FnOnce(&mut V)\<close> is a function from the old to the new value.\<close>

fun and_modify ::
  "'k pulse_key \<Rightarrow> 'v pulse_value \<Rightarrow> (bytes \<Rightarrow> u64) \<Rightarrow> ('k, 'v) entry \<Rightarrow> ('v \<Rightarrow> 'v) \<Rightarrow> ('k, 'v) entry res" where
  "and_modify K V wy (Occupied e) f =
     (let e = e\<lparr>oe_value := f (oe_value e)\<rparr>;
          kb = key_to_bytes K (oe_key e);
          vb = val_to_bytes V (oe_value e)
      in bindR (raw_insert wy (raw (oe_map e)) kb vb) (\<lambda>r.
         Inr (Occupied (e\<lparr>oe_map := (oe_map e)\<lparr>raw := r\<rparr>\<rparr>))))"
| "and_modify K V wy (Vacant e) f = Inr (Vacant e)"

definition occupied_get :: "('k, 'v) occupied_entry \<Rightarrow> 'v" where
  "occupied_get e = oe_value e"

definition occupied_key :: "('k, 'v) occupied_entry \<Rightarrow> 'k" where
  "occupied_key e = oe_key e"

definition occupied_insert ::
  "'k pulse_key \<Rightarrow> 'v pulse_value \<Rightarrow> (bytes \<Rightarrow> u64) \<Rightarrow> ('k, 'v) occupied_entry \<Rightarrow> 'v \<Rightarrow> ('v \<times> typed_pulse_map) res" where
  "occupied_insert K V wy e val =
     bindR (typed_insert K V wy (oe_map e) (oe_key e) val) (\<lambda>m. Inr (oe_value e, m))"

definition occupied_remove ::
  "'k pulse_key \<Rightarrow> (bytes \<Rightarrow> u64) \<Rightarrow> ('k, 'v) occupied_entry \<Rightarrow> ('v \<times> typed_pulse_map) res" where
  "occupied_remove K wy e =
     bindR (typed_remove K wy (oe_map e) (oe_key e)) (\<lambda>(_, m). Inr (oe_value e, m))"

definition vacant_key :: "'k vacant_entry \<Rightarrow> 'k" where
  "vacant_key e = ve_key e"

definition vacant_insert ::
  "'k pulse_key \<Rightarrow> 'v pulse_value \<Rightarrow> (bytes \<Rightarrow> u64) \<Rightarrow> 'k vacant_entry \<Rightarrow> 'v \<Rightarrow> typed_pulse_map res" where
  "vacant_insert K V wy e val = typed_insert K V wy (ve_map e) (ve_key e) val"

section \<open>Bulk insertion\<close>

fun typed_extend ::
  "'k pulse_key \<Rightarrow> 'v pulse_value \<Rightarrow> (bytes \<Rightarrow> u64) \<Rightarrow> typed_pulse_map \<Rightarrow> ('k \<times> 'v) list \<Rightarrow> typed_pulse_map res" where
  "typed_extend K V wy m [] = Inr m"
| "typed_extend K V wy m ((k, v) # kvs) =
     bindR (typed_insert K V wy m k v) (\<lambda>m. typed_extend K V wy m kvs)"

definition from_hashmap ::
  "'k pulse_key \<Rightarrow> 'v pulse_value \<Rightarrow> (bytes \<Rightarrow> u64) \<Rightarrow> ('k \<times> 'v) list \<Rightarrow> typed_pulse_map res" where
  "from_hashmap K V wy hm =
     (let n = max (length hm div 3) 16 in
      bindR (typed_new n) (\<lambda>pulse. typed_extend K V wy pulse hm))"

section \<open>Abstract state\<close>

definition typed_inv ::
  "'k pulse_key \<Rightarrow> ('k \<Rightarrow> bool) \<Rightarrow> 'v pulse_value \<Rightarrow> ('v \<Rightarrow> bool) \<Rightarrow> (bytes \<Rightarrow> u64) \<Rightarrow> typed_pulse_map \<Rightarrow> bool" where
  "typed_inv K key_ok V val_ok wy m \<longleftrightarrow>
     raw_inv wy (raw m)
     \<and> (\<forall>kb vb t. raw_lookup wy (raw m) kb = Some (vb, t) \<longrightarrow>
          (\<exists>k v. key_ok k \<and> val_ok v \<and> kb = key_to_bytes K k \<and> vb = val_to_bytes V v))"

definition typed_lookup ::
  "'k pulse_key \<Rightarrow> 'v pulse_value \<Rightarrow> (bytes \<Rightarrow> u64) \<Rightarrow> typed_pulse_map \<Rightarrow> 'k \<rightharpoonup> 'v \<times> slot_ttl" where
  "typed_lookup K V wy m k =
     Option.bind (raw_lookup wy (raw m) (key_to_bytes K k)) (\<lambda>(vb, t).
     map_option (\<lambda>v. (v, t)) (val_from_bytes V vb))"

definition typed_live :: "typed_pulse_map \<Rightarrow> ('v \<times> slot_ttl) option \<Rightarrow> 'v option" where
  "typed_live m r = Option.bind r (\<lambda>(v, t).
     if ttl_expired (current_epoch (raw m)) (default_ttl (raw m)) t then None else Some v)"

abbreviation fits_pair :: "'k pulse_key \<Rightarrow> 'v pulse_value \<Rightarrow> 'k \<Rightarrow> 'v \<Rightarrow> bool" where
  "fits_pair K V k v \<equiv> small_pair (key_to_bytes K k) (val_to_bytes V v)"

lemma typed_live_bytes:
  "Option.bind (live_value (current_epoch (raw m)) (default_ttl (raw m)) (raw_lookup wy (raw m) (key_to_bytes K k)))
     (val_from_bytes V) = typed_live m (typed_lookup K V wy m k)"
  by (auto simp: typed_live_def typed_lookup_def live_value_def split: option.splits bind_split)

section \<open>Typed operations over lawful codecs\<close>

context typed_codec
begin

lemma typed_insert_ok:
  assumes inv: "typed_inv K key_ok V val_ok wy m" and ok: "key_ok k" "val_ok v" "fits_pair K V k v"
  shows "\<exists>m' victim. typed_insert_ttl K V wy m k v ttl = Inr m' \<and> typed_inv K key_ok V val_ok wy m'
     \<and> current_epoch (raw m') = current_epoch (raw m) + 1
     \<and> default_ttl (raw m') = default_ttl (raw m) \<and> num_buckets (raw m') = num_buckets (raw m)
     \<and> (\<forall>k'. key_ok k' \<longrightarrow> typed_lookup K V wy m' k' =
          (if k' = k then Some (v, \<lparr>st_epoch = current_epoch (raw m) + 1, st_ttl = ttl\<rparr>)
           else if victim = Some k' then None else typed_lookup K V wy m k'))
     \<and> (victim \<noteq> None \<longrightarrow> typed_lookup K V wy m k = None)"
proof -
  let ?kb = "key_to_bytes K k" and ?vb = "val_to_bytes V v" and ?L = "raw_lookup wy (raw m)"
  let ?t = "\<lparr>st_epoch = current_epoch (raw m) + 1, st_ttl = ttl\<rparr>"
  have ri: "raw_inv wy (raw m)" and enc: "\<And>kb vb t. ?L kb = Some (vb, t) \<Longrightarrow>
      \<exists>k v. key_ok k \<and> val_ok v \<and> kb = key_to_bytes K k \<and> vb = val_to_bytes V v"
    using inv by (auto simp: typed_inv_def)
  obtain r x where r: "insert_internal wy (raw m) ?kb ?vb ttl = Inr r" "raw_inv wy r"
    "current_epoch r = current_epoch (raw m) + 1" "default_ttl r = default_ttl (raw m)"
    "raw_lookup wy r = stored_after ?L x ?kb (?vb, ?t)"
    "case x of None \<Rightarrow> eviction_count r = eviction_count (raw m)
      | Some z \<Rightarrow> z \<noteq> ?kb \<and> ?L ?kb = None \<and> ?L z \<noteq> None \<and> eviction_count r = eviction_count (raw m) + 1"
    using raw.insert_law [OF ri ok(3), of ttl] by blast
  let ?m = "m\<lparr>raw := r\<rparr>"
  have "raw_lookup wy r kb = Some (vb, t) \<Longrightarrow> (kb = ?kb \<and> vb = ?vb) \<or> ?L kb = Some (vb, t)" for kb vb t
    unfolding r(5) by (auto simp: stored_after_def split: option.splits if_splits)
  then have inv': "typed_inv K key_ok V val_ok wy ?m"
    using r(2) enc ok(1,2) unfolding typed_inv_def by (fastforce simp del: split_paired_All)
  obtain victim where vic: "\<And>k'. key_ok k' \<Longrightarrow> (x = Some (key_to_bytes K k') \<longleftrightarrow> victim = Some k')"
    and vn: "victim \<noteq> None \<Longrightarrow> x \<noteq> None"
  proof (cases x)
    case None
    then show ?thesis using that [of None] by simp
  next
    case (Some z)
    with r(6) have "?L z \<noteq> None" by simp
    then obtain kz where "key_ok kz" "z = key_to_bytes K kz" using enc [of z] by fastforce
    then show ?thesis using that [of "Some kz"] Some key_inj by auto
  qed
  have "typed_lookup K V wy ?m k' = (if k' = k then Some (v, ?t)
      else if victim = Some k' then None else typed_lookup K V wy m k')" if k': "key_ok k'" for k'
    using vic [OF k'] key_inj [OF k' ok(1)] val_roundtrip [OF ok(2)]
    by (auto simp: typed_lookup_def r(5) stored_after_def split: option.splits)
  moreover have "victim \<noteq> None \<longrightarrow> typed_lookup K V wy m k = None"
    using vn r(6) by (auto simp: typed_lookup_def split: option.splits)
  moreover have "num_buckets r = num_buckets (raw m)" by (rule insert_num_buckets [OF ri ok(3) r(1)])
  ultimately show ?thesis using r(1,3,4) inv'
    by (intro exI [of _ ?m] exI [of _ victim]) (simp add: typed_insert_ttl_def raw_insert_ttl_def Let_def)
qed

lemma typed_insert_ttl0: "typed_insert K V wy m k v = typed_insert_ttl K V wy m k v 0"
  by (simp add: typed_insert_def typed_insert_ttl_def raw_insert_def raw_insert_ttl_def)

lemma typed_peek_ok:
  "typed_inv K key_ok V val_ok wy m \<Longrightarrow> typed_peek K V wy m k = Inr (typed_live m (typed_lookup K V wy m k))"
  by (simp add: typed_inv_def typed_peek_def raw_peek_ok key_view typed_live_bytes)

lemma typed_get_ok:
  assumes "typed_inv K key_ok V val_ok wy m"
  shows "\<exists>m'. typed_get K V wy m k = Inr (typed_live m (typed_lookup K V wy m k), m')
     \<and> typed_inv K key_ok V val_ok wy m' \<and> typed_lookup K V wy m' = typed_lookup K V wy m"
proof -
  obtain r where "raw_get wy (raw m) (key_to_bytes K k) =
      Inr (live_value (current_epoch (raw m)) (default_ttl (raw m)) (raw_lookup wy (raw m) (key_to_bytes K k)), r)"
    "raw_inv wy r" "raw_lookup wy r = raw_lookup wy (raw m)"
    using raw.get_law [of wy "raw m" "key_to_bytes K k"] assms by (auto simp: typed_inv_def)
  then show ?thesis using assms
    by (simp add: typed_get_def key_view typed_live_bytes typed_inv_def typed_lookup_def fun_eq_iff)
qed

lemma typed_remove_ok:
  assumes inv: "typed_inv K key_ok V val_ok wy m" and "key_ok k"
  shows "\<exists>m'. typed_remove K wy m k = Inr (typed_lookup K V wy m k \<noteq> None, m')
     \<and> typed_inv K key_ok V val_ok wy m'
     \<and> (\<forall>k'. key_ok k' \<longrightarrow> typed_lookup K V wy m' k' = (if k' = k then None else typed_lookup K V wy m k'))"
proof -
  let ?kb = "key_to_bytes K k"
  obtain r where r: "raw_remove wy (raw m) ?kb = Inr (raw_lookup wy (raw m) ?kb \<noteq> None, r)" "raw_inv wy r"
    "raw_lookup wy r = (raw_lookup wy (raw m))(?kb := None)"
    using raw.remove_law [of wy "raw m" ?kb] inv by (auto simp: typed_inv_def)
  have "typed_inv K key_ok V val_ok wy (m\<lparr>raw := r\<rparr>)"
    using inv r(2,3) by (auto simp: typed_inv_def split: if_splits)
  moreover have "typed_lookup K V wy m k \<noteq> None \<longleftrightarrow> raw_lookup wy (raw m) ?kb \<noteq> None"
  proof (cases "raw_lookup wy (raw m) ?kb")
    case (Some vt)
    then obtain v where "val_ok v" "fst vt = val_to_bytes V v"
      using inv unfolding typed_inv_def by (metis prod.collapse)
    then show ?thesis using Some val_roundtrip by (simp add: typed_lookup_def case_prod_beta)
  qed (simp add: typed_lookup_def)
  moreover have "typed_lookup K V wy (m\<lparr>raw := r\<rparr>) k' = (if k' = k then None else typed_lookup K V wy m k')"
    if "key_ok k'" for k'
    using key_inj [OF that assms(2)] by (simp add: typed_lookup_def r(3))
  ultimately show ?thesis using r(1)
    by (intro exI [of _ "m\<lparr>raw := r\<rparr>"]) (simp add: typed_remove_def key_view)
qed

lemma or_insert_ok:
  assumes inv: "typed_inv K key_ok V val_ok wy m" and ok: "key_ok k" "val_ok v" "fits_pair K V k v"
  shows "\<exists>e m'. typed_entry K V wy m k = Inr e \<and> or_insert K V wy e v = Inr m'
     \<and> typed_inv K key_ok V val_ok wy m'
     \<and> typed_peek K V wy m' k = Inr (Some (case typed_live m (typed_lookup K V wy m k) of None \<Rightarrow> v | Some old \<Rightarrow> old))"
proof (cases "typed_live m (typed_lookup K V wy m k)")
  case None
  obtain m' where m': "typed_insert K V wy m k v = Inr m'" "typed_inv K key_ok V val_ok wy m'"
    "current_epoch (raw m') = current_epoch (raw m) + 1"
    "typed_lookup K V wy m' k = Some (v, \<lparr>st_epoch = current_epoch (raw m) + 1, st_ttl = 0\<rparr>)"
    using typed_insert_ok [OF inv ok, of 0] ok(1) unfolding typed_insert_ttl0 by auto
  have "typed_entry K V wy m k = Inr (Vacant \<lparr>ve_map = m, ve_key = k\<rparr>)"
    using inv None by (simp add: typed_entry_def typed_inv_def raw_peek_ok typed_live_bytes)
  moreover have "typed_peek K V wy m' k = Inr (Some v)"
    using m' by (simp add: typed_peek_ok typed_live_def fresh_not_expired)
  ultimately show ?thesis using None m' by simp
next
  case (Some old)
  have "typed_entry K V wy m k = Inr (Occupied \<lparr>oe_map = m, oe_key = k, oe_value = old\<rparr>)"
    using inv Some by (simp add: typed_entry_def typed_inv_def raw_peek_ok typed_live_bytes)
  then show ?thesis using Some inv typed_peek_ok [OF inv, of k] by simp
qed

lemma and_modify_ok:
  assumes inv: "typed_inv K key_ok V val_ok wy m" and k: "key_ok k"
    and old: "typed_live m (typed_lookup K V wy m k) = Some v" and ok: "val_ok (f v)" "fits_pair K V k (f v)"
  shows "\<exists>e e'. typed_entry K V wy m k = Inr e
     \<and> and_modify K V wy e f = Inr (Occupied e') \<and> occupied_get e' = f v
     \<and> typed_inv K key_ok V val_ok wy (oe_map e')
     \<and> typed_peek K V wy (oe_map e') k = Inr (Some (f v))
     \<and> typed_lookup K V wy (oe_map e') k =
         Some (f v, \<lparr>st_epoch = current_epoch (raw m) + 1, st_ttl = 0\<rparr>)"
proof -
  obtain m' where m': "typed_insert K V wy m k (f v) = Inr m'" "typed_inv K key_ok V val_ok wy m'"
    "current_epoch (raw m') = current_epoch (raw m) + 1"
    "typed_lookup K V wy m' k = Some (f v, \<lparr>st_epoch = current_epoch (raw m) + 1, st_ttl = 0\<rparr>)"
    using typed_insert_ok [OF inv k ok, of 0] k unfolding typed_insert_ttl0 by auto
  have e: "typed_entry K V wy m k = Inr (Occupied \<lparr>oe_map = m, oe_key = k, oe_value = v\<rparr>)"
    using inv old by (simp add: typed_entry_def typed_inv_def raw_peek_ok typed_live_bytes)
  have "and_modify K V wy (Occupied \<lparr>oe_map = m, oe_key = k, oe_value = v\<rparr>) f =
      Inr (Occupied \<lparr>oe_map = m', oe_key = k, oe_value = f v\<rparr>)"
    using m'(1) by (auto simp: typed_insert_def Let_def)
  moreover have "typed_peek K V wy m' k = Inr (Some (f v))"
    using m' by (simp add: typed_peek_ok typed_live_def fresh_not_expired)
  ultimately show ?thesis using e m'(2,4)
    by (intro exI [of _ "Occupied \<lparr>oe_map = m, oe_key = k, oe_value = v\<rparr>"]
        exI [of _ "\<lparr>oe_map = m', oe_key = k, oe_value = f v\<rparr>"]) (simp add: occupied_get_def)
qed

lemma typed_extend_ok:
  assumes "typed_inv K key_ok V val_ok wy m"
    and "\<forall>(k, v)\<in>set kvs. key_ok k \<and> val_ok v \<and> fits_pair K V k v"
    and "\<And>k v t. key_ok k \<Longrightarrow> typed_lookup K V wy m k = Some (v, t) \<Longrightarrow> M k = Some v"
  shows "\<exists>m'. typed_extend K V wy m kvs = Inr m' \<and> typed_inv K key_ok V val_ok wy m'
     \<and> num_buckets (raw m') = num_buckets (raw m)
     \<and> (\<forall>k v t. key_ok k \<longrightarrow> typed_lookup K V wy m' k = Some (v, t) \<longrightarrow> (foldl (\<lambda>M (k, v). M(k \<mapsto> v)) M kvs) k = Some v)"
  using assms
proof (induction kvs arbitrary: m M)
  case Nil
  then show ?case by fastforce
next
  case (Cons kv kvs)
  obtain k v where kv: "kv = (k, v)" by fastforce
  obtain m' victim where m': "typed_insert K V wy m k v = Inr m'" "typed_inv K key_ok V val_ok wy m'"
    "num_buckets (raw m') = num_buckets (raw m)"
    "\<forall>k'. key_ok k' \<longrightarrow> typed_lookup K V wy m' k' =
          (if k' = k then Some (v, \<lparr>st_epoch = current_epoch (raw m) + 1, st_ttl = 0\<rparr>)
           else if victim = Some k' then None else typed_lookup K V wy m k')"
    using typed_insert_ok [OF Cons.prems(1), of k v 0] Cons.prems(2) kv unfolding typed_insert_ttl0 by auto
  have "(M(k \<mapsto> v)) k' = Some v'" if "key_ok k'" "typed_lookup K V wy m' k' = Some (v', t)" for k' v' t
    using that m'(4) Cons.prems(3) by (auto split: if_splits)
  from Cons.IH [OF m'(2) _ this] Cons.prems(2) m'(3)
  show ?case by (simp add: kv m'(1))
qed

end

lemma decode_pairs:
  assumes c: "typed_codec K key_ok V val_ok"
    and enc: "\<forall>(kb, vb)\<in>set kvs. \<exists>k v. key_ok k \<and> val_ok v \<and> kb = key_to_bytes K k \<and> vb = val_to_bytes V v"
    and d: "distinct (map fst kvs)"
  defines "dec \<equiv> \<lambda>(kb, vb). case (key_from_bytes K kb, val_from_bytes V vb) of (Some k, Some v) \<Rightarrow> Some (k, v) | _ \<Rightarrow> None"
  shows "length (List.map_filter dec kvs) = length kvs" and "distinct (map fst (List.map_filter dec kvs))"
    and "key_ok k \<Longrightarrow> (k, v) \<in> set (List.map_filter dec kvs) \<longleftrightarrow>
       (\<exists>vb. (key_to_bytes K k, vb) \<in> set kvs \<and> val_from_bytes V vb = Some v)"
proof -
  have kr: "\<And>x. key_ok x \<Longrightarrow> key_from_bytes K (key_to_bytes K x) = Some x"
    and vr: "\<And>x. val_ok x \<Longrightarrow> val_from_bytes V (val_to_bytes V x) = Some x"
    using c by (auto simp: typed_codec_def key_codec_def value_codec_def)
  have some: "\<exists>k v. dec kv = Some (k, v) \<and> key_to_bytes K k = fst kv \<and> key_ok k" if "kv \<in> set kvs" for kv
    using enc that kr vr by (fastforce simp: dec_def)
  show "length (List.map_filter dec kvs) = length kvs"
    using some by (induction kvs) (fastforce simp: List.map_filter_def)+
  show "(k, v) \<in> set (List.map_filter dec kvs) \<longleftrightarrow>
       (\<exists>vb. (key_to_bytes K k, vb) \<in> set kvs \<and> val_from_bytes V vb = Some v)" if kk: "key_ok k"
  proof
    assume "(k, v) \<in> set (List.map_filter dec kvs)"
    then obtain kv where kv: "kv \<in> set kvs" "dec kv = Some (k, v)" by (auto simp: set_map_filter)
    then have "fst kv = key_to_bytes K k" using some [OF kv(1)] by auto
    moreover have "val_from_bytes V (snd kv) = Some v"
      using kv(2) by (auto simp: dec_def split: prod.splits option.splits)
    ultimately show "\<exists>vb. (key_to_bytes K k, vb) \<in> set kvs \<and> val_from_bytes V vb = Some v"
      using kv(1) by (metis prod.collapse)
  next
    assume "\<exists>vb. (key_to_bytes K k, vb) \<in> set kvs \<and> val_from_bytes V vb = Some v"
    then obtain vb where "(key_to_bytes K k, vb) \<in> set kvs" "dec (key_to_bytes K k, vb) = Some (k, v)"
      using kr [OF kk] by (auto simp: dec_def)
    then show "(k, v) \<in> set (List.map_filter dec kvs)" unfolding set_map_filter by blast
  qed
  show "distinct (map fst (List.map_filter dec kvs))"
    using some d
  proof (induction kvs)
    case Nil
    show ?case by (simp add: List.map_filter_def)
  next
    case (Cons kv kvs)
    obtain k v where kv: "dec kv = Some (k, v)" "key_to_bytes K k = fst kv" using Cons.prems(1) by fastforce
    have "k \<notin> set (map fst (List.map_filter dec kvs))"
    proof
      assume "k \<in> set (map fst (List.map_filter dec kvs))"
      then obtain kv' v' where kv': "kv' \<in> set kvs" "dec kv' = Some (k, v')" by (force simp: set_map_filter)
      then have "fst kv' = key_to_bytes K k" using Cons.prems(1) [of kv'] by auto
      then have "fst kv \<in> fst ` set kvs" using kv'(1) kv(2) by (metis imageI)
      then show False using Cons.prems(2) by simp
    qed
    then show ?case using Cons kv(1) by (simp add: List.map_filter_def)
  qed
qed

lemma foldl_update_list:
  "foldl (\<lambda>M (k, v). M(k \<mapsto> v)) M kvs k = Some v \<Longrightarrow> M k = Some v \<or> (k, v) \<in> set kvs"
  by (induction kvs arbitrary: M) (fastforce split: if_splits)+

lemma typed_new_ok:
  assumes "n \<le> 2 ^ 56"
  obtains m where "typed_new n = Inr m" and "typed_inv K key_ok V val_ok wy m"
    and "typed_lookup K V wy m = Map.empty" and "n \<le> raw_num_buckets (raw m)"
    and "raw_num_buckets (raw m) < 2 * max n 1" and "typed_capacity m = 4 * raw_num_buckets (raw m)"
  by (rule raw_new_ok [OF assms, of wy])
    (auto simp: typed_new_def typed_inv_def typed_lookup_def fun_eq_iff typed_capacity_def raw_capacity_def raw_num_buckets_def)

lemma typed_new_start: "typed_inv K key_ok V val_ok wy \<lparr>raw = projr (raw_new 1)\<rparr>"
  using raw_new_start(1,2) [where n = 1 and wy = wy] by (simp add: typed_inv_def)

lemma typed_iter_ok:
  assumes c: "typed_codec K key_ok V val_ok" and inv: "typed_inv K key_ok V val_ok wy m"
  shows "\<exists>kvs. typed_iter K V m = Inr kvs \<and> length kvs = typed_len m \<and> distinct (map fst kvs)
     \<and> (\<forall>k v. key_ok k \<longrightarrow> ((k, v) \<in> set kvs \<longleftrightarrow> (\<exists>t. typed_lookup K V wy m k = Some (v, t))))"
proof -
  obtain kvs where kvs: "raw_collect (raw m) raw_iter_new = Inr kvs" "distinct (map fst kvs)"
    "\<And>k v. (k, v) \<in> set kvs \<longleftrightarrow> (\<exists>t. raw_lookup wy (raw m) k = Some (v, t))"
    "length kvs = raw_len (raw m)"
    using raw_collect_start [of wy "raw m"] inv by (auto simp: typed_inv_def)
  have enc: "\<forall>(kb, vb)\<in>set kvs. \<exists>k v. key_ok k \<and> val_ok v \<and> kb = key_to_bytes K k \<and> vb = val_to_bytes V v"
    using inv kvs(3) by (fastforce simp: typed_inv_def)
  note d = decode_pairs [OF c enc kvs(2)]
  have "(\<exists>vb. (key_to_bytes K k, vb) \<in> set kvs \<and> val_from_bytes V vb = Some v) \<longleftrightarrow>
      (\<exists>t. typed_lookup K V wy m k = Some (v, t))" for k v
    unfolding kvs(3) typed_lookup_def by (auto simp: bind_eq_Some_conv)
  then show ?thesis
    using typed_collect_ok [OF kvs(1), of "key_from_bytes K" "val_from_bytes V"] d kvs(4)
    by (simp add: typed_iter_def typed_len_def)
qed

section \<open>Properties\<close>

text \<open>
  C21: typed insertion. For every lawful key and value codec, inserting a pair never panics and
  makes the key map to exactly that value with a fresh stamp; any other key keeps its value and
  stamp or, for at most one victim, is lost, which happens only when the key was not stored before.
\<close>

theorem typed_insert_refines:
  assumes "typed_codec K key_ok V val_ok" and "typed_inv K key_ok V val_ok wy m"
    and "key_ok k" and "val_ok v" and "fits_pair K V k v"
  shows "\<exists>m' victim. typed_insert_ttl K V wy m k v ttl = Inr m' \<and> typed_inv K key_ok V val_ok wy m'
     \<and> typed_peek K V wy m' k = Inr (Some v)
     \<and> (\<forall>k'. key_ok k' \<longrightarrow> typed_lookup K V wy m' k' =
          (if k' = k then Some (v, \<lparr>st_epoch = current_epoch (raw m) + 1, st_ttl = ttl\<rparr>)
           else if victim = Some k' then None else typed_lookup K V wy m k'))
     \<and> (victim \<noteq> None \<longrightarrow> typed_lookup K V wy m k = None)"
proof -
  obtain m' victim where m': "typed_insert_ttl K V wy m k v ttl = Inr m'" "typed_inv K key_ok V val_ok wy m'"
    "current_epoch (raw m') = current_epoch (raw m) + 1"
    "\<forall>k'. key_ok k' \<longrightarrow> typed_lookup K V wy m' k' =
          (if k' = k then Some (v, \<lparr>st_epoch = current_epoch (raw m) + 1, st_ttl = ttl\<rparr>)
           else if victim = Some k' then None else typed_lookup K V wy m k')"
    "victim \<noteq> None \<longrightarrow> typed_lookup K V wy m k = None"
    using typed_codec.typed_insert_ok [OF assms, of ttl] by blast
  then have "typed_peek K V wy m' k = Inr (Some v)"
    using typed_codec.typed_peek_ok [OF assms(1) m'(2), of k] assms(3)
    by (simp add: typed_live_def fresh_not_expired)
  with m' show ?thesis by blast
qed

theorem typed_insert_refines_witness:
  "\<exists>m'. typed_insert_ttl key_u32 val_u64 demo_hash \<lparr>raw = projr (raw_new 1)\<rparr> 42 100 0 = Inr m'
     \<and> typed_peek key_u32 val_u64 demo_hash m' 42 = Inr (Some 100)"
  using typed_insert_refines [OF u32u64.typed_codec_axioms typed_new_start, of 42 100 demo_hash 0]
  by (auto simp: small_pair_def key_defs val_defs)

text \<open>
  C22: typed lookup and removal. \<^verbatim>\<open>get\<close> and \<^verbatim>\<open>peek\<close> return the decoded value of an
  unexpired entry; a removal reports whether the key was stored, makes it absent and leaves the
  other keys alone.
\<close>

theorem typed_get_remove_refines:
  assumes "typed_codec K key_ok V val_ok" and "typed_inv K key_ok V val_ok wy m" and "key_ok k"
  shows "typed_peek K V wy m k = Inr (typed_live m (typed_lookup K V wy m k))
     \<and> (\<exists>m'. typed_get K V wy m k = Inr (typed_live m (typed_lookup K V wy m k), m')
          \<and> typed_inv K key_ok V val_ok wy m' \<and> typed_lookup K V wy m' = typed_lookup K V wy m)
     \<and> (\<exists>m'. typed_remove K wy m k = Inr (typed_lookup K V wy m k \<noteq> None, m')
          \<and> typed_inv K key_ok V val_ok wy m'
          \<and> (\<forall>k'. key_ok k' \<longrightarrow> typed_lookup K V wy m' k' = (if k' = k then None else typed_lookup K V wy m k')))"
  using typed_codec.typed_peek_ok [OF assms(1,2)] typed_codec.typed_get_ok [OF assms(1,2)]
    typed_codec.typed_remove_ok [OF assms]
  by blast

theorem typed_get_remove_refines_witness:
  "\<exists>m'. typed_remove key_u32 demo_hash \<lparr>raw = projr (raw_new 1)\<rparr> 42 = Inr (False, m')"
  using typed_get_remove_refines [OF u32u64.typed_codec_axioms typed_new_start [where wy = demo_hash], of 42]
    raw_new_start(2) [where n = 1 and wy = demo_hash]
  by (auto simp: typed_lookup_def)

text \<open>
  C23: the entry API. \<^verbatim>\<open>entry(k).or_insert(v)\<close> keeps an unexpired value and otherwise stores
  the default; \<^verbatim>\<open>entry(k).and_modify(f)\<close> on an occupied entry writes \<open>f v\<close> back, in the map
  and in the returned entry. The write-back restarts the entry's age under the map's default TTL,
  so a per-entry TTL does not survive \<^verbatim>\<open>and_modify\<close>.
\<close>

theorem entry_api_correct:
  assumes "typed_codec K key_ok V val_ok" and "typed_inv K key_ok V val_ok wy m" and "key_ok k"
    and "val_ok d" and "fits_pair K V k d"
    and "\<And>v. val_ok (f v) \<and> fits_pair K V k (f v)"
  shows "\<exists>e. typed_entry K V wy m k = Inr e
     \<and> (\<exists>m'. or_insert K V wy e d = Inr m' \<and> typed_inv K key_ok V val_ok wy m'
          \<and> typed_peek K V wy m' k =
              Inr (Some (case typed_live m (typed_lookup K V wy m k) of None \<Rightarrow> d | Some old \<Rightarrow> old)))
     \<and> (case typed_live m (typed_lookup K V wy m k) of
          None \<Rightarrow> and_modify K V wy e f = Inr e
        | Some v \<Rightarrow> \<exists>e'. and_modify K V wy e f = Inr (Occupied e') \<and> occupied_get e' = f v
            \<and> typed_peek K V wy (oe_map e') k = Inr (Some (f v))
            \<and> typed_lookup K V wy (oe_map e') k =
                Some (f v, \<lparr>st_epoch = current_epoch (raw m) + 1, st_ttl = 0\<rparr>))"
proof -
  obtain e m' where e: "typed_entry K V wy m k = Inr e" "or_insert K V wy e d = Inr m'"
    "typed_inv K key_ok V val_ok wy m'"
    "typed_peek K V wy m' k =
       Inr (Some (case typed_live m (typed_lookup K V wy m k) of None \<Rightarrow> d | Some old \<Rightarrow> old))"
    using typed_codec.or_insert_ok [OF assms(1-5)] by blast
  have "and_modify K V wy e f = Inr e" if "typed_live m (typed_lookup K V wy m k) = None"
    using that e(1) assms(2) by (auto simp: typed_entry_def typed_inv_def raw_peek_ok typed_live_bytes)
  moreover have "\<exists>e'. and_modify K V wy e f = Inr (Occupied e') \<and> occupied_get e' = f v
            \<and> typed_peek K V wy (oe_map e') k = Inr (Some (f v))
            \<and> typed_lookup K V wy (oe_map e') k =
                Some (f v, \<lparr>st_epoch = current_epoch (raw m) + 1, st_ttl = 0\<rparr>)"
    if "typed_live m (typed_lookup K V wy m k) = Some v" for v
    using typed_codec.and_modify_ok [OF assms(1-3) that, of f] assms(6) e(1) by fastforce
  ultimately show ?thesis using e by (auto split: option.split)
qed

theorem entry_api_correct_witness:
  "\<exists>e m'. typed_entry key_u32 val_u64 demo_hash \<lparr>raw = projr (raw_new 1)\<rparr> 42 = Inr e
     \<and> or_insert key_u32 val_u64 demo_hash e 100 = Inr m'
     \<and> typed_peek key_u32 val_u64 demo_hash m' 42 = Inr (Some 100)"
proof -
  have "typed_live \<lparr>raw = projr (raw_new 1)\<rparr> (typed_lookup key_u32 val_u64 demo_hash \<lparr>raw = projr (raw_new 1)\<rparr> 42) = None"
    using raw_new_start(2) [where n = 1 and wy = demo_hash] by (simp add: typed_lookup_def typed_live_def)
  then show ?thesis
    using entry_api_correct [OF u32u64.typed_codec_axioms typed_new_start [where wy = demo_hash], of 42 100 "\<lambda>v. v + 1"]
    by (auto simp: small_pair_def key_defs val_defs)
qed

text \<open>
  C35: typed iteration. On a map filled through lawful codecs the typed iterator skips nothing: it
  yields as many pairs as \<^verbatim>\<open>len()\<close> says, no key twice, and exactly the stored pairs, so in particular
  every pair that a \<^verbatim>\<open>peek\<close> still finds.
\<close>

theorem typed_iter_complete:
  assumes "typed_codec K key_ok V val_ok" and "typed_inv K key_ok V val_ok wy m"
  shows "\<exists>kvs. typed_iter K V m = Inr kvs \<and> length kvs = typed_len m \<and> distinct (map fst kvs)
     \<and> (\<forall>k v. key_ok k \<longrightarrow> ((k, v) \<in> set kvs \<longleftrightarrow> (\<exists>t. typed_lookup K V wy m k = Some (v, t))))
     \<and> (\<forall>k v. key_ok k \<longrightarrow> typed_peek K V wy m k = Inr (Some v) \<longrightarrow> (k, v) \<in> set kvs)"
proof -
  obtain kvs where kvs: "typed_iter K V m = Inr kvs" "length kvs = typed_len m" "distinct (map fst kvs)"
    "\<forall>k v. key_ok k \<longrightarrow> ((k, v) \<in> set kvs \<longleftrightarrow> (\<exists>t. typed_lookup K V wy m k = Some (v, t)))"
    using typed_iter_ok [OF assms] by blast
  have "\<exists>t. typed_lookup K V wy m k = Some (v, t)" if "typed_peek K V wy m k = Inr (Some v)" for k v
    using that unfolding typed_codec.typed_peek_ok [OF assms]
    by (cases "typed_lookup K V wy m k") (auto simp: typed_live_def split: if_splits)
  with kvs show ?thesis by blast
qed

theorem typed_iter_complete_witness:
  "\<exists>kvs. typed_iter key_u32 val_u64 \<lparr>raw = projr (raw_new 1)\<rparr> = Inr (kvs :: (u32 \<times> u64) list)
     \<and> length kvs = typed_len \<lparr>raw = projr (raw_new 1)\<rparr>"
  using typed_iter_complete [OF u32u64.typed_codec_axioms typed_new_start [where wy = demo_hash]] by blast

text \<open>
  Conversion from a \<^verbatim>\<open>HashMap\<close>. Up to \<open>2 ^ 56\<close> lawful pairs convert without a panic into
  a map with at least as many slots as the source has pairs; what it stores are pairs of the
  source (a bucket may still overflow and evict).
\<close>

theorem from_hashmap_sound:
  assumes c: "typed_codec K key_ok V val_ok" and n: "length hm \<le> 2 ^ 56"
    and ok: "\<forall>(k, v)\<in>set hm. key_ok k \<and> val_ok v \<and> fits_pair K V k v"
  shows "\<exists>m. from_hashmap K V wy hm = Inr m \<and> typed_inv K key_ok V val_ok wy m
     \<and> (\<forall>k v t. key_ok k \<longrightarrow> typed_lookup K V wy m k = Some (v, t) \<longrightarrow> (k, v) \<in> set hm)
     \<and> length hm \<le> typed_capacity m"
proof -
  have "max (length hm div 3) 16 \<le> 2 ^ 56" using n by simp
  then obtain m where m: "typed_new (max (length hm div 3) 16) = Inr m" "typed_inv K key_ok V val_ok wy m"
    "typed_lookup K V wy m = Map.empty" "max (length hm div 3) 16 \<le> raw_num_buckets (raw m)"
    by (rule typed_new_ok)
  obtain m' where m': "typed_extend K V wy m hm = Inr m'" "typed_inv K key_ok V val_ok wy m'"
    "\<forall>k v t. key_ok k \<longrightarrow> typed_lookup K V wy m' k = Some (v, t) \<longrightarrow>
       foldl (\<lambda>M (k, v). M(k \<mapsto> v)) Map.empty hm k = Some v" "num_buckets (raw m') = num_buckets (raw m)"
    using typed_codec.typed_extend_ok [OF c m(2) ok, of Map.empty] m(3) by auto
  have "length hm \<le> 4 * max (length hm div 3) 16" by linarith
  also have "\<dots> \<le> typed_capacity m'" using m(4) m'(4)
    by (simp add: typed_capacity_def raw_capacity_def raw_num_buckets_def)
  finally show ?thesis using m(1) m' foldl_update_list [of Map.empty hm]
    by (intro exI [of _ m']) (auto simp: from_hashmap_def Let_def)
qed

theorem from_hashmap_sound_witness:
  "\<exists>m. from_hashmap key_u32 val_u64 demo_hash [(1, 10), (2, 20)] = Inr m
     \<and> typed_inv key_u32 (\<lambda>_. True) val_u64 (\<lambda>_. True) demo_hash m"
  using from_hashmap_sound [OF u32u64.typed_codec_axioms, of "[(1, 10), (2, 20)]" demo_hash]
  by (auto simp: small_pair_def key_defs val_defs)

end
