(* ===== verification/Inline.thy ===== *)
theory Inline
  imports Typed
begin

text \<open>
  The heap behaviour of \<^verbatim>\<open>PulseMapRaw\<close> (\<^verbatim>\<open>src/src/raw.rs\<close>, \<^verbatim>\<open>src/src/engine/slot.rs\<close>).
  After construction the slab pool is the only part of a map that allocates. As long as every key has
  at most six bytes and every value at most seven, every slot is inline and the pool stays as
  \<^verbatim>\<open>SlabPool::new\<close> made it; a longer pair always takes a block of the pool.
\<close>

definition inline_only :: "pulse_map_raw \<Rightarrow> bool" where
  "inline_only m \<longleftrightarrow> pool m = slab_new \<and> (\<forall>b\<in>set (buckets m). \<forall>s\<in>set (slots b). get_mode s = 0)"

section \<open>Every operation stays inline\<close>

lemma index_mem: "index xs i = Inr x \<Longrightarrow> x \<in> set xs"
  by (auto simp: index_def split: if_splits)

lemma inline_onlyD: "inline_only m \<Longrightarrow> index (buckets m) j = Inr b \<Longrightarrow> index (slots b) i = Inr s \<Longrightarrow> get_mode s = 0"
  unfolding inline_only_def by (blast dest: index_mem)

lemma free_inline: "get_mode s = 0 \<Longrightarrow> free_slot p s = Inr p"
  by (simp add: free_slot_def)

lemma store_inline: "inline_pair key val \<Longrightarrow> store_entry p key val hr = Inr (s, p') \<Longrightarrow> p' = p \<and> get_mode s = 0"
  using set_inline_ok [of key val] by (auto simp: store_entry_def inline_pair_def)

text \<open>Only the slots and the pool of a state matter; a written bucket takes inline slots only.\<close>

lemma inline_only_fields [simp]:
  "inline_only (m\<lparr>count := c\<rparr>) = inline_only m" "inline_only (m\<lparr>eviction_count := c\<rparr>) = inline_only m"
  "inline_only (m\<lparr>slots_ttl := T\<rparr>) = inline_only m" "inline_only (m\<lparr>current_epoch := e\<rparr>) = inline_only m"
  "inline_only (m\<lparr>default_ttl := e\<rparr>) = inline_only m"
  by (simp_all add: inline_only_def)

lemma inline_only_put:
  assumes "inline_only m" and "index (buckets m) j = Inr b" and "get_mode s = 0"
  shows "inline_only (m\<lparr>buckets := (buckets m)[j := b\<lparr>slots := (slots b)[i := s], meta := v\<rparr>], pool := pool m\<rparr>)"
  using assms index_mem [OF assms(2)] unfolding inline_only_def
  by (fastforce dest!: set_update_subset_insert [THEN subsetD])

lemma inline_only_meta:
  assumes "inline_only m" and "index (buckets m) j = Inr b"
  shows "inline_only (m\<lparr>buckets := (buckets m)[j := b\<lparr>meta := v\<rparr>]\<rparr>)"
  using assms index_mem [OF assms(2)] unfolding inline_only_def
  by (fastforce dest!: set_update_subset_insert [THEN subsetD])

lemma stamp_inline: "stamp_slot_ttl m j i ttl = Inr m' \<Longrightarrow> inline_only m' = inline_only m"
  by (auto simp: stamp_slot_ttl_def)

lemma choose_target_inline:
  assumes "inline_only m" and "choose_target m j = Inr (m', t)"
  shows "inline_only m' \<and> buckets m' = buckets m"
  using assms inline_onlyD [OF assms(1)]
  by (auto simp: choose_target_def evict_slot_def Let_def free_inline inline_only_def split: option.splits if_splits)

lemma insert_inline:
  assumes inl: "inline_only m" and pair: "inline_pair key val" and ins: "insert_internal wy m key val ttl = Inr m'"
  shows "inline_only m'"
proof -
  let ?m = "m\<lparr>current_epoch := current_epoch m + 1\<rparr>"
  let ?j = "bucket_ix ?m (h1 (compute_hash wy key))"
  from inl have i0: "inline_only ?m" by simp
  from ins obtain b found where b: "index (buckets ?m) ?j = Inr b" and
    f: "(case found of Some i \<Rightarrow> insert_update ?m ?j b i key val (compute_hash wy key) ttl
         | None \<Rightarrow> bindR (choose_target ?m ?j) (\<lambda>(m, target).
             case target of
               Some (i, is_eviction) \<Rightarrow> insert_fill m ?j i is_eviction key val (compute_hash wy key) ttl
             | None \<Rightarrow> Inr m)) = Inr m'"
    unfolding insert_internal_def Let_def bindR_eq_Inr by blast
  show ?thesis
  proof (cases found)
    case (Some i)
    with f show ?thesis
      by (auto simp: insert_update_def Let_def free_inline inline_onlyD [OF i0 b] stamp_inline
          inline_only_put [OF i0 b, simplified] dest!: store_inline [OF pair])
  next
    case None
    with f obtain m1 t where t: "choose_target ?m ?j = Inr (m1, t)"
      "(case t of Some (i, e) \<Rightarrow> insert_fill m1 ?j i e key val (compute_hash wy key) ttl | None \<Rightarrow> Inr m1) = Inr m'"
      unfolding None option.case bindR_eq_Inr by force
    from choose_target_inline [OF i0 t(1)] have m1: "inline_only m1" by simp
    show ?thesis
    proof (cases t)
      case (Some ie)
      with t(2) show ?thesis using inline_only_put [OF m1]
        by (auto simp: insert_fill_def Let_def stamp_inline split: prod.splits if_splits dest!: store_inline [OF pair])
    qed (use t(2) m1 in simp)
  qed
qed

lemma get_inline: "inline_only m \<Longrightarrow> raw_get wy m key = Inr (r, m') \<Longrightarrow> inline_only m'"
  using inline_only_meta by (auto simp: raw_get_def Let_def split: option.splits if_splits)

lemma remove_inline:
  assumes "inline_only m" and "raw_remove wy m key = Inr (r, m')"
  shows "inline_only m'"
proof -
  have "get_mode (slot_clear s) = 0" for s by (simp add: slot_empty_def get_mode_def)
  with assms inline_only_put [OF assms(1)] inline_onlyD [OF assms(1)] show ?thesis
    by (auto simp: raw_remove_def Let_def free_inline split: option.splits if_splits)
qed

lemma new_inline: "raw_new n = Inr m \<Longrightarrow> inline_only m"
proof -
  have "get_mode slot_empty = 0" by (simp add: slot_empty_def get_mode_def)
  then show "raw_new n = Inr m \<Longrightarrow> inline_only m"
    by (auto simp: raw_new_def Let_def inline_only_def bucket_empty_def split: if_splits)
qed

section \<open>A longer pair takes a block\<close>

lemma slab_alloc_entries: "slab_alloc p key val = Inr (idx, p') \<Longrightarrow> entries p' \<noteq> []"
  by (auto simp: slab_alloc_def slab_get_def vec_push_def index_def Let_def split: if_splits option.splits)

lemma store_slab: "\<not> inline_pair key val \<Longrightarrow> store_entry p key val hr = Inr (s, p') \<Longrightarrow> entries p' \<noteq> []"
  by (auto simp: store_entry_def inline_pair_def split: if_splits dest: slab_alloc_entries)

lemma choose_target_none:
  assumes "choose_target m j = Inr (m', None)"
  shows "m' = m"
  using assms by (auto simp: choose_target_def Let_def split: option.splits if_splits)

lemma insert_slab:
  assumes inv: "raw_inv wy m" and sz: "small_pair key val" and pair: "\<not> inline_pair key val"
    and ins: "insert_internal wy m key val ttl = Inr m'"
  shows "entries (pool m') \<noteq> []"
proof -
  let ?m = "m\<lparr>current_epoch := current_epoch m + 1\<rparr>" and ?hr = "compute_hash wy key" and ?j = "bucket_ix m (wy key)"
  from ins obtain b found where b: "index (buckets m) ?j = Inr b" "find_in_bucket (pool m) b key ?hr = Inr found" and
    f: "(case found of Some i \<Rightarrow> insert_update ?m ?j b i key val ?hr ttl
         | None \<Rightarrow> bindR (choose_target ?m ?j) (\<lambda>(m, target).
             case target of Some (i, is_eviction) \<Rightarrow> insert_fill m ?j i is_eviction key val ?hr ttl | None \<Rightarrow> Inr m)) = Inr m'"
    by (auto simp: insert_internal_def Let_def)
  show ?thesis
  proof (cases found)
    case (Some i)
    with f show ?thesis
      by (auto simp: insert_update_def stamp_slot_ttl_def Let_def dest: store_slab [OF pair])
  next
    case None
    with f obtain m1 t where t: "choose_target ?m ?j = Inr (m1, t)"
      "(case t of Some (i, e) \<Rightarrow> insert_fill m1 ?j i e key val ?hr ttl | None \<Rightarrow> Inr m1) = Inr m'" by auto
    show ?thesis
    proof (cases t)
      case (Some ie)
      with t(2) show ?thesis
        by (auto simp: insert_fill_def stamp_slot_ttl_def Let_def split: prod.splits if_splits dest: store_slab [OF pair])
    next
      case no_target: None
      then have "m' = ?m" using t choose_target_none by simp
      then have "raw_lookup wy m' = raw_lookup wy m" by (simp add: raw_lookup_def)
      moreover have "raw_lookup wy m' key \<noteq> None"
        using raw.insert_law [OF inv sz, of ttl] ins by (auto simp: stored_after_def)
      moreover have "raw_lookup wy m key = None"
      proof -
        have "raw_remove wy m key = Inr (False, m)" using b None by (simp add: raw_remove_def Let_def index_ok)
        then show ?thesis using raw.remove_law [OF inv, of key] by (cases "raw_lookup wy m key") auto
      qed
      ultimately show ?thesis by simp
    qed
  qed
qed

section \<open>Runs\<close>

fun inline_command :: "command \<Rightarrow> bool" where
  "inline_command (Insert k v ttl) = inline_pair k v"
| "inline_command _ = True"

lemma inline_small: "inline_command cmd \<Longrightarrow> small_command cmd"
  by (cases cmd) (auto simp: inline_pair_def small_pair_def)

lemma run_inline:
  assumes "run (insert_internal wy) (raw_get wy) (raw_remove wy) cs m = Inr (os, m')"
    and "inline_only m" and "list_all inline_command cs"
  shows "inline_only m'"
  using assms
proof (induction cs arbitrary: m os)
  case (Cons cmd cs)
  then show ?case
    by (cases cmd) (auto dest: insert_inline get_inline remove_inline)
qed simp

section \<open>Properties\<close>

text \<open>
  C25: heap use. On a new map, any run of insertions, lookups and removals whose keys have at most six
  and whose values have at most seven bytes ends, without a panic, with the slab pool exactly as it was
  constructed: not a byte is allocated after construction. Once a longer pair is inserted, the pool
  owns a block.
\<close>

theorem inline_never_allocates:
  assumes "n \<le> 2 ^ 56" and "list_all inline_command cs"
    and "small_pair key val" and "6 < length key \<or> 7 < length val"
  shows "\<exists>m os m' m''. raw_new n = Inr m
     \<and> run (raw_insert_ttl wy) (raw_get wy) (raw_remove wy) cs m = Inr (os, m') \<and> pool m' = slab_new
     \<and> raw_insert_ttl wy m' key val ttl = Inr m'' \<and> entries (pool m'') \<noteq> []"
proof -
  obtain m where m: "raw_new n = Inr m" "raw_inv wy m" "raw_lookup wy m = Map.empty"
    by (rule raw_new_ok [OF assms(1)])
  have "list_all small_command cs" using assms(2) by (auto simp: list_all_iff intro: inline_small)
  then obtain os m' where m': "run (insert_internal wy) (raw_get wy) (raw_remove wy) cs m = Inr (os, m')" "raw_inv wy m'"
    using raw.run_sound [OF m(2), of Map.empty cs] m(3) by (auto simp: recorded_in_def)
  have "pool m' = slab_new" using run_inline [OF m'(1) new_inline [OF m(1)] assms(2)] by (simp add: inline_only_def)
  moreover obtain m'' where "insert_internal wy m' key val ttl = Inr m''"
    using raw.insert_law [OF m'(2) assms(3), of ttl] by blast
  moreover have "raw_insert_ttl wy = insert_internal wy" by (intro ext) (simp add: raw_insert_ttl_def)
  ultimately show ?thesis
    using m(1) m'(1) insert_slab [OF m'(2) assms(3)] assms(4) by (force simp: inline_pair_def)
qed

theorem inline_never_allocates_witness:
  "\<exists>m os m' m''. raw_new 2 = Inr m
     \<and> run (raw_insert_ttl demo_hash) (raw_get demo_hash) (raw_remove demo_hash) [Insert [1] [2] 0, Get [1]] m = Inr (os, m')
     \<and> pool m' = slab_new
     \<and> raw_insert_ttl demo_hash m' [1, 2, 3, 4, 5, 6, 7] [] 0 = Inr m'' \<and> entries (pool m'') \<noteq> []"
  using inline_never_allocates [of 2 "[Insert [1] [2] 0, Get [1]]" "[1, 2, 3, 4, 5, 6, 7]" "[]" demo_hash 0]
  by (auto simp: inline_pair_def small_pair_def)

end
