(* ===== verification/Firmware.thy ===== *)
theory Firmware
  imports Inline
begin

text \<open>
  The firmware that tests the crate on an emulated Cortex-M, \<^verbatim>\<open>src/qemu-test/src/\<close>: its bump
  allocator (\<^verbatim>\<open>bump.rs\<close>) with the 32-bit addresses of the target, and the checks of \<^verbatim>\<open>main.rs\<close>
  on the typed map. Semihosting output and the exit of the emulator are left out. What the firmware
  measures with the allocation counter is stated of the map itself: the slab pool is all that
  allocates after construction.
\<close>

section \<open>The bump allocator\<close>

definition HEAP_SIZE :: nat where "HEAP_SIZE = 8 * 1024"

record bump =
  bump_next :: u32
  bump_allocs :: u32

definition bump_start :: bump where
  "bump_start = \<lparr>bump_next = 0, bump_allocs = 0\<rparr>"

text \<open>\<open>base\<close> is the address of the heap array; the null pointer is 0.\<close>

definition bump_alloc :: "u32 \<Rightarrow> bump \<Rightarrow> u32 \<Rightarrow> u32 \<Rightarrow> u32 \<times> bump" where
  "bump_alloc base s sz align =
     (let aligned = (base + bump_next s + align - 1) AND NOT (align - 1);
          fin = aligned + sz
      in if base + word_of_nat HEAP_SIZE < fin then (0, s)
         else (aligned, s\<lparr>bump_next := fin - base, bump_allocs := bump_allocs s + 1\<rparr>))"

definition bump_dealloc :: "bump \<Rightarrow> u32 \<Rightarrow> bump" where
  "bump_dealloc s ptr = s"

definition allocs :: "bump \<Rightarrow> u32" where
  "allocs s = bump_allocs s"

definition bytes_used :: "bump \<Rightarrow> u32" where
  "bytes_used s = bump_next s"

datatype heap_call = Alloc u32 u32 | Dealloc u32

text \<open>A run of the allocator: the blocks handed out, with size and alignment, in order.\<close>

fun bump_run :: "u32 \<Rightarrow> bump \<Rightarrow> heap_call list \<Rightarrow> (u32 \<times> u32 \<times> u32) list \<times> bump" where
  "bump_run base s [] = ([], s)"
| "bump_run base s (Alloc sz align # cs) =
     (let (p, s) = bump_alloc base s sz align; (bs, s) = bump_run base s cs
      in (if p = 0 then bs else (p, sz, align) # bs, s))"
| "bump_run base s (Dealloc p # cs) = bump_run base (bump_dealloc s p) cs"

text \<open>What \<^verbatim>\<open>Layout\<close> guarantees: the size rounded up to the alignment fits \<^verbatim>\<open>isize\<close>.\<close>

fun layout_ok :: "heap_call \<Rightarrow> bool" where
  "layout_ok (Alloc sz align) \<longleftrightarrow> (\<exists>k<31. unat align = 2 ^ k) \<and> 0 < sz \<and> unat sz + unat align \<le> 2 ^ 31"
| "layout_ok (Dealloc p) \<longleftrightarrow> True"

lemma and_not_mask_unat: "unat (x AND NOT (mask k) :: 'a::len word) = unat x div 2 ^ k * 2 ^ k"
proof -
  have "x AND NOT (mask k) = push_bit k (drop_bit k x)"
    by (rule bit_eqI) (auto simp: bit_simps)
  moreover have "unat (push_bit k (drop_bit k x)) = unat x div 2 ^ k * 2 ^ k"
  proof -
    have "unat x div 2 ^ k * 2 ^ k \<le> unat x" by simp
    also have "\<dots> < 2 ^ LENGTH('a)" by (rule unsigned_less)
    finally show ?thesis
      unfolding unsigned_push_bit_eq unsigned_drop_bit_eq
      by (simp only: push_bit_eq_mult drop_bit_eq_div take_bit_nat_eq_self take_bit_nat_eq_self [OF unsigned_less])
  qed
  ultimately show ?thesis by simp
qed

definition bump_ok :: "u32 \<Rightarrow> bump \<Rightarrow> bool" where
  "bump_ok base s \<longleftrightarrow> 0 < base \<and> unat base + HEAP_SIZE \<le> 2 ^ 30 \<and> unat (bump_next s) \<le> HEAP_SIZE
     \<and> unat (bump_allocs s) \<le> unat (bump_next s)"

lemma bump_alloc_cases:
  assumes "bump_ok base s" and "layout_ok (Alloc sz align)"
  shows "(case bump_alloc base s sz align of (p, s') \<Rightarrow> bump_ok base s'
     \<and> (if p = 0 then s' = s \<and> HEAP_SIZE < unat (bump_next s) + unat align + unat sz
        else unat align dvd unat p \<and> unat base + unat (bump_next s) \<le> unat p
           \<and> unat p + unat sz = unat base + unat (bump_next s')
           \<and> unat (bump_allocs s') = unat (bump_allocs s) + 1))"
proof -
  obtain k where k: "k < 31" "unat align = 2 ^ k" using assms(2) by auto
  have al: "align = word_of_nat (2 ^ k)" by (simp flip: k(2))
  have m: "align - 1 = mask k" using k(1) by (simp add: al mask_eq_exp_minus_1)
  let ?x = "unat base + unat (bump_next s) + (2 ^ k - 1)"
  have b: "0 < unat base" "unat base + HEAP_SIZE \<le> 2 ^ 30" "unat (bump_next s) \<le> HEAP_SIZE" "unat (bump_allocs s) \<le> unat (bump_next s)"
    using assms(1) by (auto simp: bump_ok_def word_gt_0 unat_gt_0)
  have szs: "0 < unat sz" "unat sz + 2 ^ k \<le> 2 ^ 31" using assms(2) k by (auto simp: word_gt_0 unat_gt_0)
  have k1: "(1::nat) \<le> 2 ^ k" by simp
  have x: "unat (base + bump_next s + align - 1) = ?x"
  proof -
    have "base + bump_next s + align - 1 = word_of_nat ?x" 
    proof -
      have "(word_of_nat (2 ^ k - 1) :: u32) = align - 1" using k1 unfolding al by (subst of_nat_diff) simp_all
      then have "word_of_nat ?x = base + bump_next s + (align - 1)" by (simp only: of_nat_add of_nat_unat ucast_id)
      then show ?thesis by (simp only: add_diff_eq)
    qed
    moreover have "?x < 2 ^ 32" using b szs k1 by simp
    ultimately show ?thesis by (simp add: unat_of_nat)
  qed
  define p where "p = (base + bump_next s + align - 1) AND NOT (align - 1)"
  have p: "unat p = ?x div 2 ^ k * 2 ^ k" unfolding p_def m and_not_mask_unat x [symmetric] ..
  have lo: "unat base + unat (bump_next s) \<le> unat p" and hi: "unat p \<le> ?x"
  proof -
    have "?x mod 2 ^ k < 2 ^ k" by simp
    moreover have "unat p + ?x mod 2 ^ k = ?x" unfolding p by (rule div_mult_mod_eq)
    ultimately show "unat base + unat (bump_next s) \<le> unat p" "unat p \<le> ?x" by linarith+
  qed
  have fin: "unat (p + sz) = unat p + unat sz" using hi b szs k1 by (simp add: unat_word_ariths)
  have cap: "unat (base + word_of_nat HEAP_SIZE) = unat base + HEAP_SIZE"
    using b by (simp add: unat_word_ariths HEAP_SIZE_def)
  show ?thesis
  proof (cases "unat base + HEAP_SIZE < unat p + unat sz")
    case True
    then have "bump_alloc base s sz align = (0, s)"
      using fin cap by (simp add: bump_alloc_def Let_def p_def [symmetric] word_less_nat_alt)
    then show ?thesis using assms(1) True hi k by simp
  next
    case False
    then have r: "bump_alloc base s sz align = (p, s\<lparr>bump_next := p + sz - base, bump_allocs := bump_allocs s + 1\<rparr>)"
      using fin cap by (simp add: bump_alloc_def Let_def p_def [symmetric] word_less_nat_alt)
    have nx: "unat (p + sz - base) = unat p + unat sz - unat base"
      using lo fin by (simp add: unat_sub word_le_nat_alt)
    have ac: "unat (bump_allocs s + 1) = unat (bump_allocs s) + 1"
      using b by (simp add: unat_word_ariths HEAP_SIZE_def)
    have "p \<noteq> 0" using lo b(1) by auto
    moreover have "2 ^ k dvd unat p" unfolding p by simp
    ultimately show ?thesis using False lo b szs nx ac k assms(1) by (auto simp: r bump_ok_def)
  qed
qed

text \<open>One block ends before the next one starts.\<close>

fun below :: "u32 \<times> u32 \<times> u32 \<Rightarrow> u32 \<times> u32 \<times> u32 \<Rightarrow> bool" where
  "below (p, m, a) (q, n, c) \<longleftrightarrow> unat p + unat m \<le> unat q"

lemma bump_run_ok:
  assumes "bump_ok base s" and "list_all layout_ok cs"
  shows "case bump_run base s cs of (bs, s') \<Rightarrow> bump_ok base s'
     \<and> (\<forall>(p, sz, align)\<in>set bs. unat align dvd unat p \<and> unat base + unat (bump_next s) \<le> unat p
          \<and> unat p + unat sz \<le> unat base + unat (bump_next s'))
     \<and> sorted_wrt below bs
     \<and> unat (allocs s') = unat (allocs s) + length bs \<and> unat (bump_next s) \<le> unat (bump_next s')"
  using assms
proof (induction base s cs rule: bump_run.induct)
  case (2 base s sz align cs)
  obtain p s1 where a: "bump_alloc base s sz align = (p, s1)" by fastforce
  obtain bs s' where r: "bump_run base s1 cs = (bs, s')" by fastforce
  have l: "layout_ok (Alloc sz align)" "list_all layout_ok cs" using "2.prems"(2) by simp_all
  note al = bump_alloc_cases [OF "2.prems"(1) l(1), unfolded a prod.case]
  have "bump_ok base s1" using al by simp
  note ih = "2.IH" [OF a [symmetric] refl this l(2), unfolded r prod.case]
  show ?case
  proof (cases "p = 0")
    case True
    then show ?thesis using al ih a r by simp
  next
    case False
    then show ?thesis using al ih a r by (fastforce simp: allocs_def)
  qed
qed (simp_all add: bump_dealloc_def)

section \<open>The checks of the firmware\<close>

definition check :: "u32 \<Rightarrow> bool \<Rightarrow> u32" where
  "check failed ok = (if \<not> ok then failed + 1 else failed)"

definition BUCKETS :: nat where "BUCKETS = 16"

definition CAPACITY :: nat where "CAPACITY = BUCKETS * 4"

text \<open>\<^verbatim>\<open>for k in ks { map.insert(k, f(k)); }\<close>\<close>

fun insert_loop :: "(bytes \<Rightarrow> u64) \<Rightarrow> (u32 \<Rightarrow> u32) \<Rightarrow> u32 list \<Rightarrow> typed_pulse_map \<Rightarrow> typed_pulse_map res" where
  "insert_loop wy f [] m = Inr m"
| "insert_loop wy f (k # ks) m =
     bindR (typed_insert key_u32 val_u32 wy m k (f k)) (\<lambda>m. insert_loop wy f ks m)"

text \<open>The keys below \<open>CAPACITY * 4\<close> whose peeked value is not the one stored.\<close>

fun wrong_loop :: "(bytes \<Rightarrow> u64) \<Rightarrow> u32 list \<Rightarrow> typed_pulse_map \<Rightarrow> u32 \<Rightarrow> u32 res" where
  "wrong_loop wy [] m wrong = Inr wrong"
| "wrong_loop wy (k # ks) m wrong =
     bindR (typed_peek key_u32 val_u32 wy m k) (\<lambda>r.
     wrong_loop wy ks m (case r of Some v \<Rightarrow> if v \<noteq> k * 10 then wrong + 1 else wrong | None \<Rightarrow> wrong))"

definition u32_range :: "nat \<Rightarrow> nat \<Rightarrow> u32 list" where
  "u32_range lo hi = map word_of_nat [lo..<hi]"

definition map_checks :: "(bytes \<Rightarrow> u64) \<Rightarrow> u32 \<Rightarrow> u32 res" where
  "map_checks wy failed =
     bindR (typed_new BUCKETS) (\<lambda>m.
     let failed = check failed (typed_capacity m = CAPACITY);
         failed = check failed (typed_is_empty m) in
     bindR (typed_insert key_u32 val_u32 wy m 7 700) (\<lambda>m.
     bindR (typed_get key_u32 val_u32 wy m 7) (\<lambda>(r, m).
     let failed = check failed (r = Some 700) in
     bindR (typed_get key_u32 val_u32 wy m 8) (\<lambda>(r, m).
     let failed = check failed (r = None);
         failed = check failed (typed_len m = 1) in
     bindR (insert_loop wy (\<lambda>k. k * 10) (u32_range 0 (CAPACITY * 4)) m) (\<lambda>m.
     bindR (wrong_loop wy (u32_range 0 (CAPACITY * 4)) m 0) (\<lambda>wrong.
     let failed = check failed (wrong = 0);
         failed = check failed (typed_len m \<le> CAPACITY);
         failed = check failed (typed_eviction_count m > 0) in
     Inr failed))))))"

definition ttl_checks :: "(bytes \<Rightarrow> u64) \<Rightarrow> u32 \<Rightarrow> u32 res" where
  "ttl_checks wy failed =
     bindR (typed_new 4) (\<lambda>ttl.
     let ttl = typed_set_ttl ttl 4 in
     bindR (typed_insert key_u32 val_u32 wy ttl 1 11) (\<lambda>ttl.
     bindR (typed_get key_u32 val_u32 wy ttl 1) (\<lambda>(r, ttl).
     let failed = check failed (r = Some 11) in
     bindR (insert_loop wy (\<lambda>k. k) (u32_range 100 106) ttl) (\<lambda>ttl.
     bindR (typed_get key_u32 val_u32 wy ttl 1) (\<lambda>(r, ttl).
     let failed = check failed (r = None) in
     Inr failed)))))"

definition remove_checks :: "(bytes \<Rightarrow> u64) \<Rightarrow> u32 \<Rightarrow> u32 res" where
  "remove_checks wy failed =
     bindR (typed_new 4) (\<lambda>rm.
     bindR (typed_insert key_u32 val_u32 wy rm 3 33) (\<lambda>rm.
     bindR (typed_remove key_u32 wy rm 3) (\<lambda>(r, rm).
     let failed = check failed r in
     bindR (typed_get key_u32 val_u32 wy rm 3) (\<lambda>(r, rm).
     let failed = check failed (r = None) in
     Inr failed))))"

text \<open>The checks up to the allocator part, in the order of \<^verbatim>\<open>main\<close>: the number that failed.\<close>

definition firmware_main :: "(bytes \<Rightarrow> u64) \<Rightarrow> u32 res" where
  "firmware_main wy =
     bindR (map_checks wy 0) (\<lambda>failed. bindR (ttl_checks wy failed) (\<lambda>failed. remove_checks wy failed))"

text \<open>The two maps of the allocator part, after their loops.\<close>

fun churn_loop :: "(bytes \<Rightarrow> u64) \<Rightarrow> u32 list \<Rightarrow> typed_pulse_map \<Rightarrow> typed_pulse_map res" where
  "churn_loop wy [] m = Inr m"
| "churn_loop wy (k # ks) m =
     bindR (typed_insert key_u32 val_u32 wy m k k) (\<lambda>m.
     bindR (typed_get key_u32 val_u32 wy m k) (\<lambda>(_, m).
     bindR (typed_remove key_u32 wy m (k div 2)) (\<lambda>(_, m). churn_loop wy ks m)))"

definition inline_churn :: "(bytes \<Rightarrow> u64) \<Rightarrow> (typed_pulse_map \<times> typed_pulse_map) res" where
  "inline_churn wy =
     bindR (typed_new 8) (\<lambda>m. bindR (churn_loop wy (u32_range 0 256) m) (\<lambda>m'. Inr (m, m')))"

fun slab_loop :: "(bytes \<Rightarrow> u64) \<Rightarrow> u64 list \<Rightarrow> typed_pulse_map \<Rightarrow> typed_pulse_map res" where
  "slab_loop wy [] m = Inr m"
| "slab_loop wy (k # ks) m =
     bindR (typed_insert key_u64 val_u64 wy m k (k * 10)) (\<lambda>m. slab_loop wy ks m)"

definition slab_fill :: "(bytes \<Rightarrow> u64) \<Rightarrow> (typed_pulse_map \<times> typed_pulse_map) res" where
  "slab_fill wy =
     bindR (typed_new 2) (\<lambda>m. bindR (slab_loop wy (map word_of_nat [0..<6]) m) (\<lambda>m'. Inr (m, m')))"

section \<open>The loops\<close>

interpretation u32u32: typed_codec key_u32 "\<lambda>_. True" val_u32 "\<lambda>_. True"
  by unfold_locales

interpretation u64u64: typed_codec key_u64 "\<lambda>_. True" val_u64 "\<lambda>_. True"
  by unfold_locales

lemma fits_numbers [simp]: "fits_pair key_u32 val_u32 k v" "fits_pair key_u64 val_u64 k' v'"
  by (simp_all add: small_pair_def key_defs val_defs)

abbreviation typed_ok :: "(bytes \<Rightarrow> u64) \<Rightarrow> typed_pulse_map \<Rightarrow> bool" where
  "typed_ok \<equiv> typed_inv key_u32 (\<lambda>_. True) val_u32 (\<lambda>_. True)"

abbreviation u32_lookup :: "(bytes \<Rightarrow> u64) \<Rightarrow> typed_pulse_map \<Rightarrow> u32 \<rightharpoonup> u32 \<times> slot_ttl" where
  "u32_lookup \<equiv> typed_lookup key_u32 val_u32"

text \<open>What one insertion does to length and eviction count.\<close>

definition load :: "typed_pulse_map \<Rightarrow> nat" where
  "load m = typed_len m + typed_eviction_count m"

lemma typed_len_bound: "typed_ok wy m \<Longrightarrow> typed_len m \<le> typed_capacity m"
  using raw_bounds(3) [of wy "raw m"] by (auto simp: typed_inv_def typed_len_def typed_capacity_def)

lemma raw_insert_load:
  assumes inv: "raw_inv wy m" and sz: "small_pair key val" and ins: "insert_internal wy m key val ttl = Inr m'"
    and room: "raw_eviction_count m + 1 < 2 ^ 64"
  shows "raw_len m' + raw_eviction_count m' =
     raw_len m + raw_eviction_count m + (if raw_lookup wy m key = None then 1 else 0)"
proof -
  let ?L = "raw_lookup wy m"
  obtain x e where x: "raw_inv wy m'" "raw_lookup wy m' = stored_after ?L x key e"
    "case x of None \<Rightarrow> eviction_count m' = eviction_count m
      | Some z \<Rightarrow> z \<noteq> key \<and> ?L key = None \<and> ?L z \<noteq> None \<and> eviction_count m' = eviction_count m + 1"
    using raw.insert_law [OF inv sz, of ttl] ins by auto
  note fin = raw_bounds(2) [OF inv]
  note len = raw_bounds(1) [OF inv] raw_bounds(1) [OF x(1)]
  show ?thesis
  proof (cases x)
    case None
    then have "dom (raw_lookup wy m') = insert key (dom ?L)" by (simp add: x(2) stored_after_def)
    then show ?thesis using None x(3) fin by (auto simp: len raw_eviction_count_def card_insert_if)
  next
    case (Some z)
    then have z: "z \<noteq> key" "key \<notin> dom ?L" "z \<in> dom ?L" "eviction_count m' = eviction_count m + 1" using x(3) by auto
    have "dom (raw_lookup wy m') = insert key (dom ?L - {z})" using z by (auto simp: x(2) stored_after_def Some)
    then have "card (dom (raw_lookup wy m')) = card (dom ?L)"
      using z fin card_Suc_Diff1 [OF fin z(3)] by (simp del: card_Diff_insert)
    moreover have "raw_eviction_count m' = raw_eviction_count m + 1"
      using z(4) room by (simp add: raw_eviction_count_def unat_word_ariths)
    ultimately show ?thesis using z(2) by (auto simp: len)
  qed
qed

lemma u32_lookup_None: "typed_ok wy m \<Longrightarrow> u32_lookup wy m k = None \<longleftrightarrow> raw_lookup wy (raw m) (key_to_bytes key_u32 k) = None"
  by (cases "raw_lookup wy (raw m) (key_to_bytes key_u32 k)") (fastforce simp: typed_inv_def typed_lookup_def vu32.val_roundtrip)+

lemma u32_insert_ok:
  assumes inv: "typed_ok wy m"
  obtains m' victim where "typed_insert key_u32 val_u32 wy m k v = Inr m'" and "typed_ok wy m'"
    and "current_epoch (raw m') = current_epoch (raw m) + 1" and "default_ttl (raw m') = default_ttl (raw m)"
    and "num_buckets (raw m') = num_buckets (raw m)"
    and "\<And>j. u32_lookup wy m' j = (if j = k then Some (v, \<lparr>st_epoch = current_epoch (raw m) + 1, st_ttl = 0\<rparr>)
           else if victim = Some j then None else u32_lookup wy m j)"
    and "victim \<noteq> None \<Longrightarrow> u32_lookup wy m k = None"
    and "typed_eviction_count m + 1 < 2 ^ 64 \<Longrightarrow> load m' = load m + (if u32_lookup wy m k = None then 1 else 0)"
proof -
  obtain m' victim where m': "typed_insert key_u32 val_u32 wy m k v = Inr m'" "typed_ok wy m'"
    "current_epoch (raw m') = current_epoch (raw m) + 1" "default_ttl (raw m') = default_ttl (raw m)"
    "num_buckets (raw m') = num_buckets (raw m)"
    "\<forall>j. u32_lookup wy m' j = (if j = k then Some (v, \<lparr>st_epoch = current_epoch (raw m) + 1, st_ttl = 0\<rparr>)
       else if victim = Some j then None else u32_lookup wy m j)"
    "victim \<noteq> None \<longrightarrow> u32_lookup wy m k = None"
    using u32u32.typed_insert_ok [OF inv, of k v 0] unfolding u32u32.typed_insert_ttl0 by auto
  have "insert_internal wy (raw m) (key_to_bytes key_u32 k) (val_to_bytes val_u32 v) 0 = Inr (raw m')"
    using m'(1) by (auto simp: typed_insert_def raw_insert_def)
  note ld = raw_insert_load [OF _ _ this]
  have "load m' = load m + (if u32_lookup wy m k = None then 1 else 0)" if "typed_eviction_count m + 1 < 2 ^ 64"
    unfolding u32_lookup_None [OF inv] load_def typed_len_def typed_eviction_count_def
    by (rule ld) (use inv that in \<open>simp_all add: typed_inv_def typed_eviction_count_def\<close>)
  with m' show thesis by (intro that) auto
qed

lemma insert_loop_ok:
  assumes "typed_ok wy m" and "load m + length ks < 2 ^ 64" and "distinct ks"
  shows "\<exists>m'. insert_loop wy f ks m = Inr m' \<and> typed_ok wy m'
     \<and> current_epoch (raw m') = current_epoch (raw m) + word_of_nat (length ks)
     \<and> default_ttl (raw m') = default_ttl (raw m) \<and> num_buckets (raw m') = num_buckets (raw m)
     \<and> (\<forall>k. k \<notin> set ks \<longrightarrow> u32_lookup wy m' k = None \<or> u32_lookup wy m' k = u32_lookup wy m k)
     \<and> (\<forall>k\<in>set ks. \<forall>v t. u32_lookup wy m' k = Some (v, t) \<longrightarrow> v = f k)
     \<and> load m + length ks \<le> load m' + card {k \<in> set ks. u32_lookup wy m k \<noteq> None}"
  using assms
proof (induction ks arbitrary: m)
  case (Cons k ks)
  obtain m1 victim where i: "typed_insert key_u32 val_u32 wy m k (f k) = Inr m1" "typed_ok wy m1"
    "current_epoch (raw m1) = current_epoch (raw m) + 1" "default_ttl (raw m1) = default_ttl (raw m)"
    "num_buckets (raw m1) = num_buckets (raw m)"
    "\<And>j. u32_lookup wy m1 j = (if j = k then Some (f k, \<lparr>st_epoch = current_epoch (raw m) + 1, st_ttl = 0\<rparr>)
       else if victim = Some j then None else u32_lookup wy m j)"
    "victim \<noteq> None \<Longrightarrow> u32_lookup wy m k = None"
    "typed_eviction_count m + 1 < 2 ^ 64 \<Longrightarrow> load m1 = load m + (if u32_lookup wy m k = None then 1 else 0)"
    using u32_insert_ok [OF Cons.prems(1), of k "f k"] by blast
  have ld: "load m1 = load m + (if u32_lookup wy m k = None then 1 else 0)"
    by (rule i(8)) (use Cons.prems(2) in \<open>simp add: load_def\<close>)
  then have "load m1 + length ks < 2 ^ 64" "distinct ks" "k \<notin> set ks" using Cons.prems(2,3) by simp_all
  from Cons.IH [OF i(2) this(1,2)] obtain m' where m': "insert_loop wy f ks m1 = Inr m'" "typed_ok wy m'"
    "current_epoch (raw m') = current_epoch (raw m1) + word_of_nat (length ks)"
    "default_ttl (raw m') = default_ttl (raw m1)" "num_buckets (raw m') = num_buckets (raw m1)"
    "\<forall>k. k \<notin> set ks \<longrightarrow> u32_lookup wy m' k = None \<or> u32_lookup wy m' k = u32_lookup wy m1 k"
    "\<forall>k\<in>set ks. \<forall>v t. u32_lookup wy m' k = Some (v, t) \<longrightarrow> v = f k"
    "load m1 + length ks \<le> load m' + card {k \<in> set ks. u32_lookup wy m1 k \<noteq> None}" by blast
  let ?S = "\<lambda>m xs. {k \<in> set xs. u32_lookup wy m k \<noteq> None}"
  have "card (?S m1 ks) \<le> card (?S m ks)"
    by (rule card_mono) (use i(6) \<open>k \<notin> set ks\<close> in \<open>auto split: if_splits\<close>)
  moreover have "?S m (k # ks) = (if u32_lookup wy m k = None then ?S m ks else insert k (?S m ks))" by auto
  ultimately have "load m + length (k # ks) \<le> load m' + card (?S m (k # ks))"
    using m'(8) ld \<open>k \<notin> set ks\<close> by (cases "u32_lookup wy m k") (simp_all add: card_insert_if)
  moreover have "\<forall>j. j \<notin> set (k # ks) \<longrightarrow> u32_lookup wy m' j = None \<or> u32_lookup wy m' j = u32_lookup wy m j"
    using m'(6) i(6) by (metis list.set_intros)
  moreover have "\<forall>j\<in>set (k # ks). \<forall>v t. u32_lookup wy m' j = Some (v, t) \<longrightarrow> v = f j"
    using m'(6,7) i(6) \<open>k \<notin> set ks\<close> by (metis (no_types, lifting) list.set_cases option.distinct(1) option.inject prod.inject set_ConsD)
  ultimately show ?case using m'(1-5) i(1,3-5) by simp
qed auto

lemma wrong_loop_ok:
  assumes "typed_ok wy m" and "\<forall>k\<in>set ks. \<forall>v t. u32_lookup wy m k = Some (v, t) \<longrightarrow> v = k * 10"
  shows "wrong_loop wy ks m w = Inr w"
  using assms(2)
proof (induction ks)
  case (Cons k ks)
  have "typed_live m (u32_lookup wy m k) = Some v \<Longrightarrow> v = k * 10" for v
    using Cons.prems by (cases "u32_lookup wy m k") (auto simp: typed_live_def split: if_splits)
  then show ?case using Cons by (auto simp: u32u32.typed_peek_ok [OF assms(1)] split: option.split)
qed simp

lemma get_num_buckets: "raw_get wy m key = Inr (r, m') \<Longrightarrow> num_buckets m' = num_buckets m"
  by (auto simp: raw_get_def Let_def split: option.splits if_splits)

lemma u32_get_ok:
  assumes inv: "typed_ok wy m"
  obtains m' where "typed_get key_u32 val_u32 wy m k = Inr (typed_live m (u32_lookup wy m k), m')" and "typed_ok wy m'"
    and "u32_lookup wy m' = u32_lookup wy m" and "current_epoch (raw m') = current_epoch (raw m)"
    and "default_ttl (raw m') = default_ttl (raw m)" and "load m' = load m" and "typed_len m' = typed_len m"
    and "num_buckets (raw m') = num_buckets (raw m)"
proof -
  have ri: "raw_inv wy (raw m)" using inv by (simp add: typed_inv_def)
  obtain r where r: "raw_get wy (raw m) (key_to_bytes key_u32 k) =
      Inr (live_value (current_epoch (raw m)) (default_ttl (raw m)) (raw_lookup wy (raw m) (key_to_bytes key_u32 k)), r)"
    "raw_inv wy r" "raw_lookup wy r = raw_lookup wy (raw m)" "current_epoch r = current_epoch (raw m)"
    "default_ttl r = default_ttl (raw m)" "eviction_count r = eviction_count (raw m)"
    using raw.get_law [OF ri, of "key_to_bytes key_u32 k"] by auto
  have len: "raw_len r = raw_len (raw m)" using raw_bounds(1) [OF r(2)] raw_bounds(1) [OF ri] r(3) by simp
  show thesis
    by (rule that [of "m\<lparr>raw := r\<rparr>"])
      (use r inv len get_num_buckets [OF r(1)] in \<open>simp_all add: typed_get_def ku32.key_view typed_live_bytes typed_inv_def typed_lookup_def
        fun_eq_iff load_def typed_len_def typed_eviction_count_def raw_eviction_count_def\<close>)
qed

section \<open>The checks pass\<close>

lemma u32_range_distinct: "hi \<le> 2 ^ 32 \<Longrightarrow> distinct (u32_range lo hi)"
  unfolding u32_range_def distinct_map
  by (auto intro!: inj_onI simp: word_of_nat_eq_iff take_bit_nat_eq_self)

lemma new_u32:
  assumes "n = 2 ^ k" and "k \<le> 56"
  obtains m where "typed_new n = Inr m" and "typed_ok wy m" and "u32_lookup wy m = Map.empty"
    and "num_buckets (raw m) = n" and "load m = 0" and "typed_is_empty m" and "current_epoch (raw m) = 0"
proof -
  have "n \<le> 2 ^ 56" using assms power_increasing [of k 56 "2::nat"] by simp
  then obtain m j where m: "raw_new n = Inr m" "raw_inv wy m" "raw_lookup wy m = Map.empty"
    "num_buckets m = 2 ^ j" "max n 1 \<le> 2 ^ j" "2 ^ j < 2 * max n 1" "count m = 0" "eviction_count m = 0" "current_epoch m = 0"
    by (rule raw_new_ok)
  have "max n 1 = 2 ^ k" using assms(1) by simp
  then have "(2::nat) ^ k \<le> 2 ^ j" "(2::nat) ^ j < 2 ^ Suc k" using m(5,6) by simp_all
  then have "j = k" by (metis le_antisym less_Suc_eq_le nat_power_less_imp_less one_less_numeral_iff pos2 power_increasing_iff semiring_norm(76))
  then show thesis using that [of "\<lparr>raw = m\<rparr>"] m assms(1)
    by (simp add: typed_new_def typed_inv_def typed_lookup_def fun_eq_iff load_def typed_len_def
        typed_eviction_count_def raw_len_def raw_eviction_count_def typed_is_empty_def raw_is_empty_def)
qed

lemma stored_len: "typed_ok wy m \<Longrightarrow> u32_lookup wy m k \<noteq> None \<Longrightarrow> 0 < typed_len m"
  using raw_bounds(1,2) [of wy "raw m"] u32_lookup_None [of wy m k]
  by (auto simp: typed_inv_def typed_len_def card_gt_0_iff)

lemma fresh_live:
  "u32_lookup wy m k = Some (v, \<lparr>st_epoch = current_epoch (raw m), st_ttl = ttl\<rparr>) \<Longrightarrow> typed_live m (u32_lookup wy m k) = Some v"
  by (simp add: typed_live_def fresh_not_expired)

lemma map_checks_pass: "map_checks wy failed = Inr failed"
proof -
  let ?ks = "u32_range 0 (CAPACITY * 4)"
  have "(BUCKETS::nat) = 2 ^ 4" by (simp add: BUCKETS_def)
  then obtain m where m: "typed_new BUCKETS = Inr m" "typed_ok wy m" "u32_lookup wy m = Map.empty"
    "num_buckets (raw m) = BUCKETS" "load m = 0" "typed_is_empty m" by (rule new_u32) simp
  obtain m1 v where m1: "typed_insert key_u32 val_u32 wy m 7 700 = Inr m1" "typed_ok wy m1"
    "current_epoch (raw m1) = current_epoch (raw m) + 1" "num_buckets (raw m1) = num_buckets (raw m)"
    "\<And>j. u32_lookup wy m1 j = (if j = 7 then Some (700, \<lparr>st_epoch = current_epoch (raw m) + 1, st_ttl = 0\<rparr>)
       else if v = Some j then None else u32_lookup wy m j)"
    "typed_eviction_count m + 1 < 2 ^ 64 \<Longrightarrow> load m1 = load m + (if u32_lookup wy m 7 = None then 1 else 0)"
    using u32_insert_ok [OF m(2), of 7 700] by metis
  have l1: "load m1 = 1" using m1(6) m(3,5) by (simp add: load_def)
  have only: "u32_lookup wy m1 j = None" if "j \<noteq> 7" for j using m1(5) m(3) that by simp
  have seven: "typed_live m1 (u32_lookup wy m1 7) = Some 700" by (rule fresh_live) (simp add: m1(3,5))
  obtain m2 where m2: "typed_get key_u32 val_u32 wy m1 7 = Inr (Some 700, m2)" "typed_ok wy m2"
    "u32_lookup wy m2 = u32_lookup wy m1" "load m2 = 1" "typed_len m2 = typed_len m1" "num_buckets (raw m2) = BUCKETS"
    by (rule u32_get_ok [OF m1(2), of 7]) (use seven l1 m1(4) m(4) in simp)
  obtain m3 where m3: "typed_get key_u32 val_u32 wy m2 8 = Inr (None, m3)" "typed_ok wy m3"
    "u32_lookup wy m3 = u32_lookup wy m1" "load m3 = 1" "typed_len m3 = typed_len m1" "num_buckets (raw m3) = BUCKETS"
    by (rule u32_get_ok [OF m2(2), of 8]) (use only m2(3-6) in \<open>simp add: typed_live_def\<close>)
  have "0 < typed_len m1" by (rule stored_len [OF m1(2), of 7]) (simp add: m1(5))
  then have len: "typed_len m3 = 1" using l1 m3(5) by (simp add: load_def)
  have ks: "distinct ?ks" "length ?ks = 256"
    by (rule u32_range_distinct, simp_all add: u32_range_def CAPACITY_def BUCKETS_def)
  obtain m4 where m4: "insert_loop wy (\<lambda>k. k * 10) ?ks m3 = Inr m4" "typed_ok wy m4" "num_buckets (raw m4) = BUCKETS"
    "\<forall>k\<in>set ?ks. \<forall>v t. u32_lookup wy m4 k = Some (v, t) \<longrightarrow> v = k * 10"
    "load m3 + length ?ks \<le> load m4 + card {k \<in> set ?ks. u32_lookup wy m3 k \<noteq> None}"
    using insert_loop_ok [OF m3(2) _ ks(1), of "\<lambda>k. k * 10"] m3(4,6) ks(2) by auto
  have "card {k \<in> set ?ks. u32_lookup wy m3 k \<noteq> None} \<le> card {7 :: u32}"
  proof (rule card_mono)
    show "{k \<in> set ?ks. u32_lookup wy m3 k \<noteq> None} \<subseteq> {7}" unfolding m3(3) by (rule subsetI) (use only in \<open>metis (mono_tags, lifting) mem_Collect_eq singletonI\<close>)
  qed simp
  then have "256 \<le> load m4" using m4(5) m3(4) ks(2) by simp
  moreover have cap: "typed_len m4 \<le> CAPACITY"
    using typed_len_bound [OF m4(2)] m4(3) by (simp add: typed_capacity_def raw_capacity_def CAPACITY_def)
  ultimately have "0 < typed_eviction_count m4" by (simp add: load_def CAPACITY_def BUCKETS_def)
  then show ?thesis
    using m(1,4,6) m1(1) m2(1) m3(1) len m4(1) wrong_loop_ok [OF m4(2,4)] cap
    by (simp add: map_checks_def check_def typed_capacity_def raw_capacity_def CAPACITY_def)
qed

lemma set_ttl_frame:
  assumes "typed_ok wy m"
  shows "typed_ok wy (typed_set_ttl m d)" and "current_epoch (raw (typed_set_ttl m d)) = current_epoch (raw m)"
    and "default_ttl (raw (typed_set_ttl m d)) = d" and "load (typed_set_ttl m d) = load m"
    and "u32_lookup wy (typed_set_ttl m d) = u32_lookup wy m"
  using assms raw_set_ttl_ok [of wy "raw m" d]
  by (simp_all add: typed_set_ttl_def typed_inv_def typed_lookup_def fun_eq_iff load_def
      typed_len_def typed_eviction_count_def raw_len_def raw_eviction_count_def) (simp_all add: raw_set_ttl_def)

lemma ttl_checks_pass: "ttl_checks wy failed = Inr failed"
proof -
  let ?ks = "u32_range 100 106"
  have "(4::nat) = 2 ^ 2" by simp
  then obtain m where m: "typed_new 4 = Inr m" "typed_ok wy m" "u32_lookup wy m = Map.empty" "load m = 0"
    "current_epoch (raw m) = 0" by (rule new_u32) simp
  let ?m = "typed_set_ttl m 4"
  have s: "typed_ok wy ?m" "current_epoch (raw ?m) = 0" "default_ttl (raw ?m) = 4" "load ?m = 0" "u32_lookup wy ?m = Map.empty"
    using set_ttl_frame [OF m(2), of 4] m(3-5) by simp_all
  obtain m1 where m1: "typed_insert key_u32 val_u32 wy ?m 1 11 = Inr m1" "typed_ok wy m1"
    "current_epoch (raw m1) = 1" "default_ttl (raw m1) = 4" "u32_lookup wy m1 1 = Some (11, \<lparr>st_epoch = 1, st_ttl = 0\<rparr>)"
    "load m1 \<le> 1"
  proof (rule u32_insert_ok [OF s(1), of 1 11])
    fix m1 v assume "typed_insert key_u32 val_u32 wy ?m 1 11 = Inr m1" "typed_ok wy m1"
      "current_epoch (raw m1) = current_epoch (raw ?m) + 1" "default_ttl (raw m1) = default_ttl (raw ?m)"
      "\<And>j. u32_lookup wy m1 j = (if j = 1 then Some (11, \<lparr>st_epoch = current_epoch (raw ?m) + 1, st_ttl = 0\<rparr>)
        else if v = Some j then None else u32_lookup wy ?m j)"
      "typed_eviction_count ?m + 1 < 2 ^ 64 \<Longrightarrow> load m1 = load ?m + (if u32_lookup wy ?m 1 = None then 1 else 0)"
    then show thesis using that [of m1] s(2-5) by (simp add: load_def)
  qed
  obtain m2 where m2: "typed_get key_u32 val_u32 wy m1 1 = Inr (Some 11, m2)" "typed_ok wy m2" "load m2 \<le> 1"
    "current_epoch (raw m2) = 1" "default_ttl (raw m2) = 4" "u32_lookup wy m2 1 = Some (11, \<lparr>st_epoch = 1, st_ttl = 0\<rparr>)"
    by (rule u32_get_ok [OF m1(2), of 1]) (use fresh_live [of wy m1 1 11 0] m1(3-6) in simp)
  have ks: "distinct ?ks" "length ?ks = 6" "1 \<notin> set ?ks"
    by (rule u32_range_distinct, simp_all add: u32_range_def upt_rec)
  obtain m3 where m3: "insert_loop wy (\<lambda>k. k) ?ks m2 = Inr m3" "typed_ok wy m3"
    "current_epoch (raw m3) = 7" "default_ttl (raw m3) = 4"
    "u32_lookup wy m3 1 = None \<or> u32_lookup wy m3 1 = Some (11, \<lparr>st_epoch = 1, st_ttl = 0\<rparr>)"
    using insert_loop_ok [OF m2(2) _ ks(1), of "\<lambda>k. k"] m2(3-6) ks(2,3) by auto
  have "typed_live m3 (u32_lookup wy m3 1) = None"
    using m3(3-5) by (auto simp: typed_live_def ttl_expired_def)
  then obtain m4 where "typed_get key_u32 val_u32 wy m3 1 = Inr (None, m4)"
    using u32_get_ok [OF m3(2), of 1] by metis
  then show ?thesis using m(1) m1(1) m2(1) m3(1) by (simp add: ttl_checks_def check_def)
qed

lemma remove_checks_pass: "remove_checks wy failed = Inr failed"
proof -
  have "(4::nat) = 2 ^ 2" by simp
  then obtain m where m: "typed_new 4 = Inr m" "typed_ok wy m" by (rule new_u32) simp
  obtain m1 where m1: "typed_insert key_u32 val_u32 wy m 3 33 = Inr m1" "typed_ok wy m1" "u32_lookup wy m1 3 \<noteq> None"
    using u32_insert_ok [OF m(2), of 3 33] by (metis option.distinct(1))
  obtain m2 where m2: "typed_remove key_u32 wy m1 3 = Inr (True, m2)" "typed_ok wy m2" "u32_lookup wy m2 3 = None"
    using u32u32.typed_remove_ok [OF m1(2), of 3] m1(3) by auto
  obtain m3 where "typed_get key_u32 val_u32 wy m2 3 = Inr (None, m3)"
    using u32_get_ok [OF m2(2), of 3] m2(3) by (metis typed_live_def bind.bind_lzero)
  then show ?thesis using m(1) m1(1) m2(1) by (simp add: remove_checks_def check_def)
qed

lemma u32_inline: "inline_pair (key_to_bytes key_u32 k) (val_to_bytes val_u32 v)"
  by (simp add: inline_pair_def key_defs val_defs)

lemma churn_loop_ok:
  assumes "typed_ok wy m" and "inline_only (raw m)"
  shows "\<exists>m'. churn_loop wy ks m = Inr m' \<and> inline_only (raw m')"
  using assms
proof (induction ks arbitrary: m)
  case (Cons k ks)
  obtain m1 where m1: "typed_insert key_u32 val_u32 wy m k k = Inr m1" "typed_ok wy m1"
    by (rule u32_insert_ok [OF Cons.prems(1), of k k]) (rule that)
  obtain r m2 where m2: "typed_get key_u32 val_u32 wy m1 k = Inr (r, m2)" "typed_ok wy m2"
    by (rule u32_get_ok [OF m1(2), of k]) (rule that)
  obtain r' m3 where m3: "typed_remove key_u32 wy m2 (k div 2) = Inr (r', m3)" "typed_ok wy m3"
    using u32u32.typed_remove_ok [OF m2(2), of "k div 2"] by blast
  have "inline_only (raw m1)" using m1(1) insert_inline [OF Cons.prems(2) u32_inline] by (auto simp: typed_insert_def raw_insert_def)
  then have "inline_only (raw m2)" using m2(1) get_inline by (auto simp: typed_get_def)
  then have "inline_only (raw m3)" using m3(1) remove_inline by (auto simp: typed_remove_def)
  from Cons.IH [OF m3(2) this] show ?case by (simp add: m1(1) m2(1) m3(1))
qed simp

lemma inline_churn_ok: "\<exists>m m'. inline_churn wy = Inr (m, m') \<and> pool (raw m) = slab_new \<and> pool (raw m') = slab_new"
proof -
  have "(8::nat) = 2 ^ 3" by simp
  then obtain m where m: "typed_new 8 = Inr m" "typed_ok wy m" by (rule new_u32) simp
  then have "inline_only (raw m)" using new_inline [of 8] by (auto simp: typed_new_def)
  with churn_loop_ok [OF m(2)] m(1) show ?thesis by (fastforce simp: inline_churn_def inline_only_def)
qed

lemma slab_loop_ok:
  assumes "typed_inv key_u64 (\<lambda>_. True) val_u64 (\<lambda>_. True) wy m" and "ks \<noteq> []"
  shows "\<exists>m'. slab_loop wy ks m = Inr m' \<and> entries (pool (raw m')) \<noteq> []"
  using assms
proof (induction ks arbitrary: m)
  case (Cons k ks)
  obtain m1 where m1: "typed_insert key_u64 val_u64 wy m k (k * 10) = Inr m1"
    "typed_inv key_u64 (\<lambda>_. True) val_u64 (\<lambda>_. True) wy m1"
    using u64u64.typed_insert_ok [OF Cons.prems(1), of k "k * 10" 0] unfolding u64u64.typed_insert_ttl0 by auto
  have ri: "raw_inv wy (raw m)" using Cons.prems(1) by (simp add: typed_inv_def)
  have "entries (pool (raw m1)) \<noteq> []"
    using m1(1) insert_slab [OF ri fits_numbers(2), of k "k * 10" 0 "raw m1"]
    by (auto simp: typed_insert_def raw_insert_def inline_pair_def key_defs val_defs)
  with Cons.IH [OF m1(2)] m1(1) show ?case by (cases ks) auto
qed simp

lemma slab_fill_ok: "\<exists>m m'. slab_fill wy = Inr (m, m') \<and> pool (raw m) = slab_new \<and> entries (pool (raw m')) \<noteq> []"
proof -
  have "(2::nat) \<le> 2 ^ 56" by simp
  then obtain m where m: "typed_new 2 = Inr m" "typed_inv key_u64 (\<lambda>_. True) val_u64 (\<lambda>_. True) wy m"
    by (rule typed_new_ok)
  have "inline_only (raw m)" using m(1) new_inline [of 2] by (auto simp: typed_new_def)
  moreover have "map word_of_nat [0..<6] \<noteq> ([] :: u64 list)" by simp
  ultimately show ?thesis using slab_loop_ok [OF m(2)] m(1) by (fastforce simp: slab_fill_def inline_only_def)
qed

section \<open>Properties\<close>

text \<open>
  C30: the allocator of the firmware is safe. Whatever is allocated and freed, with valid layouts and the
  heap array anywhere below 1 GiB, every block handed out is aligned and lies inside the heap, the
  blocks do not overlap, and the counters are exact: one count per block, and no byte used beyond
  the heap. Freed blocks are not reused.
\<close>

theorem bump_alloc_safe:
  assumes "0 < base" and "unat base + HEAP_SIZE \<le> 2 ^ 30" and "list_all layout_ok cs"
    and "bump_run base bump_start cs = (bs, s)"
  shows "(\<forall>(p, sz, align)\<in>set bs. unat align dvd unat p \<and> unat base \<le> unat p
            \<and> unat p + unat sz \<le> unat base + unat (bytes_used s))
     \<and> unat (bytes_used s) \<le> HEAP_SIZE \<and> sorted_wrt below bs \<and> unat (allocs s) = length bs"
proof -
  have "bump_ok base bump_start" using assms(1,2) by (simp add: bump_ok_def bump_start_def)
  from bump_run_ok [OF this assms(3)] assms(4) show ?thesis
    by (auto simp: bump_start_def bump_ok_def allocs_def bytes_used_def)
qed

theorem bump_alloc_safe_witness:
  "\<exists>bs s. bump_run 0x20000000 bump_start [Alloc 3 1, Alloc 8 4, Dealloc 0x20000000, Alloc 9000 8] = (bs, s)
     \<and> bs = [(0x20000000, 3, 1), (0x20000004, 8, 4)] \<and> allocs s = 2 \<and> sorted_wrt below bs"
proof -
  let ?cs = "[Alloc 3 1, Alloc 8 4, Dealloc 0x20000000, Alloc 9000 8]"
  obtain bs s where r: "bump_run 0x20000000 bump_start ?cs = (bs, s)" by fastforce
  have k: "\<exists>k<31. (1::nat) = 2 ^ k" "\<exists>k<31. (4::nat) = 2 ^ k" "\<exists>k<31. (8::nat) = 2 ^ k"
    by (rule exI [of _ 0], simp) (rule exI [of _ 2], simp, rule exI [of _ 3], simp)
  have "list_all layout_ok ?cs" using k by simp
  from bump_alloc_safe [OF _ _ this r] have "sorted_wrt below bs" by (simp add: HEAP_SIZE_def)
  moreover have "bs = [(0x20000000, 3, 1), (0x20000004, 8, 4)] \<and> allocs s = 2"
    using r by (auto simp: bump_alloc_def bump_start_def HEAP_SIZE_def bump_dealloc_def allocs_def Let_def)
  ultimately show ?thesis using r by blast
qed


end
