(* ===== verification/Cache_Trait.thy ===== *)
theory Cache_Trait
  imports Fuzz Sharded Firmware
begin

text \<open>
  The trait \<^verbatim>\<open>Cache<T>\<close> of the evaluation program (\<^verbatim>\<open>src/evaluation/src/main.rs\<close>), its loops over a cache
  behind that trait (\<^verbatim>\<open>hits\<close>, and \<^verbatim>\<open>phase\<close> of \<^verbatim>\<open>scenarios.rs\<close>), and the laws of a cache as two locales: any
  cache may forget an entry at any time but never returns a value that was not the last one inserted;
  a map of the crate, with no TTL set, forgets only on insertion, always keeps what it has just
  inserted, and counts its entries exactly. What the loops compute is shown once from the laws.
\<close>

section \<open>The trait and its clients\<close>

record ('c, 't) cache_ops =
  cache_get :: "'c \<Rightarrow> 't \<Rightarrow> ('t option \<times> 'c) res"
  cache_insert :: "'c \<Rightarrow> 't \<Rightarrow> 't \<Rightarrow> 'c res"
  cache_len :: "'c \<Rightarrow> nat"
  cache_settle :: "'c \<Rightarrow> 'c res"

fun hits_loop :: "('c, 't) cache_ops \<Rightarrow> (u64 \<Rightarrow> 't) \<Rightarrow> u64 list \<Rightarrow> 'c \<Rightarrow> nat \<Rightarrow> (nat \<times> 'c) res" where
  "hits_loop I number [] c hits = Inr (hits, c)"
| "hits_loop I number (key # keys) c hits =
     (let k = number key in
      bindR (cache_get I c k) (\<lambda>(r, c).
      if r \<noteq> None then hits_loop I number keys c (hits + 1)
      else bindR (cache_insert I c k (number (key * 0x9E3779B9))) (\<lambda>c. hits_loop I number keys c hits)))"

fun phase_loop :: "('c, 't) cache_ops \<Rightarrow> 't list \<Rightarrow> 'c \<Rightarrow> nat \<Rightarrow> nat \<Rightarrow> (nat \<times> nat \<times> 'c) res" where
  "phase_loop I [] c ops hits = Inr (ops, hits, c)"
| "phase_loop I (k # ks) c ops hits =
     bindR (cache_get I c k) (\<lambda>(r, c).
     case r of
       Some v \<Rightarrow> bindR (assert_that (v = k)) (\<lambda>_. phase_loop I ks c (ops + 1) (hits + 1))
     | None \<Rightarrow> bindR (cache_insert I c k k) (\<lambda>c. phase_loop I ks c (ops + 1) hits))"

definition phase :: "('c, 't) cache_ops \<Rightarrow> 'c \<Rightarrow> 't list \<Rightarrow> (nat \<times> nat \<times> 'c) res" where
  "phase I c keys =
     bindR (phase_loop I keys c 0 0) (\<lambda>(ops, hits, c).
     bindR (cache_settle I c) (\<lambda>c. Inr (ops, hits, c)))"

fun insert_keys :: "('c, 't) cache_ops \<Rightarrow> 't list \<Rightarrow> 'c \<Rightarrow> 'c res" where
  "insert_keys I [] c = Inr c"
| "insert_keys I (k # ks) c = bindR (cache_insert I c k k) (\<lambda>c. insert_keys I ks c)"

fun verify_keys :: "('c, 't) cache_ops \<Rightarrow> 't list \<Rightarrow> 'c \<Rightarrow> 'c res" where
  "verify_keys I [] c = Inr c"
| "verify_keys I (k # ks) c =
     bindR (cache_get I c k) (\<lambda>(r, c).
     bindR (case r of Some v \<Rightarrow> assert_that (v = k) | None \<Rightarrow> Inr ()) (\<lambda>_. verify_keys I ks c))"

section \<open>The laws of a cache\<close>

text \<open>\<open>m\<close> has lost entries of \<open>m'\<close> but changed none.\<close>

definition forgets :: "('t \<rightharpoonup> 't) \<Rightarrow> ('t \<rightharpoonup> 't) \<Rightarrow> bool" where
  "forgets m m' \<longleftrightarrow> (\<forall>k. m k = None \<or> m k = m' k)"

lemma forgets_refl [simp]: "forgets m m"
  by (simp add: forgets_def)

lemma forgets_trans: "forgets m m' \<Longrightarrow> forgets m' m'' \<Longrightarrow> forgets m m''"
  unfolding forgets_def by (metis (no_types))

lemma forgetsD: "forgets m m' \<Longrightarrow> m k = Some v \<Longrightarrow> m' k = Some v"
  unfolding forgets_def by (metis (no_types) option.distinct(1))

lemma forgets_dom: "forgets m m' \<Longrightarrow> dom m \<subseteq> dom m'"
  using forgetsD by fastforce

text \<open>How a hit and a miss change the number of keys not yet seen.\<close>

lemma hit_count: "k \<in> D \<Longrightarrow> E \<subseteq> D \<Longrightarrow> finite S \<Longrightarrow> card (insert k S - D) \<le> card (S - E)"
  by (rule card_mono) auto

lemma miss_count:
  assumes "E \<subseteq> dom (m(k \<mapsto> v))" and "finite S"
  shows "card (insert k S - dom m) \<le> Suc (card (S - E))"
proof -
  have "card (insert k S - dom m) \<le> card (insert k (S - E))"
    by (rule card_mono) (use assms in auto)
  also have "\<dots> \<le> Suc (card (S - E))" using assms(2) by (simp add: card_insert_if)
  finally show ?thesis .
qed

text \<open>The invariant is indexed by the number of insertions the cache still has room for.\<close>

locale cache_trait =
  fixes I :: "('c, 't) cache_ops" and inv :: "nat \<Rightarrow> 'c \<Rightarrow> bool" and stored :: "'c \<Rightarrow> 't \<rightharpoonup> 't"
  assumes get_law: "inv n c \<Longrightarrow> \<exists>r c'. cache_get I c k = Inr (r, c') \<and> inv n c'
        \<and> (r = None \<or> r = stored c k) \<and> forgets (stored c') (stored c)"
    and insert_law: "inv (Suc n) c \<Longrightarrow> \<exists>c'. cache_insert I c k v = Inr c' \<and> inv n c'
        \<and> forgets (stored c') ((stored c)(k \<mapsto> v))"
    and settle_law: "inv n c \<Longrightarrow> \<exists>c'. cache_settle I c = Inr c' \<and> inv n c' \<and> forgets (stored c') (stored c)"
    and inv_less: "inv (Suc n) c \<Longrightarrow> inv n c"
begin

lemma inv_drop: "inv (m + n) c \<Longrightarrow> inv n c"
  by (induction m) (auto dest: inv_less)

text \<open>One round of a loop: a lookup, and an insertion should it miss.\<close>

lemma round_law:
  assumes "inv (Suc n) c"
  obtains r c1 c2 where "cache_get I c k = Inr (r, c1)" and "inv n c1" and "r = None \<or> r = stored c k"
    and "forgets (stored c1) (stored c)"
    and "cache_insert I c1 k v = Inr c2" and "inv n c2" and "forgets (stored c2) ((stored c)(k \<mapsto> v))"
proof -
  obtain r c1 where g: "cache_get I c k = Inr (r, c1)" "inv (Suc n) c1" "r = None \<or> r = stored c k"
    "forgets (stored c1) (stored c)" using get_law [OF assms, of k] by blast
  obtain c2 where i: "cache_insert I c1 k v = Inr c2" "inv n c2" "forgets (stored c2) ((stored c1)(k \<mapsto> v))"
    using insert_law [OF g(2), of k v] by blast
  have "forgets ((stored c1)(k \<mapsto> v)) ((stored c)(k \<mapsto> v))" using g(4) by (simp add: forgets_def)
  from forgets_trans [OF i(3) this] show thesis using that g i(1,2) inv_less [OF g(2)] by blast
qed

text \<open>A key is hit only after it was inserted, so each new key costs a miss.\<close>

lemma hits_loop_ok:
  assumes "inv (length keys + n) c"
  shows "\<exists>h c'. hits_loop I number keys c h0 = Inr (h0 + h, c') \<and> inv n c'
     \<and> h + card (number ` set keys - dom (stored c)) \<le> length keys
     \<and> dom (stored c') \<subseteq> dom (stored c) \<union> number ` set keys"
  using assms
proof (induction keys arbitrary: c h0)
  case (Cons key keys)
  let ?k = "number key" and ?S = "number ` set keys"
  have "inv (Suc (length keys + n)) c" using Cons.prems by simp
  then obtain r c1 c2 where g: "cache_get I c ?k = Inr (r, c1)" "inv (length keys + n) c1" "r = None \<or> r = stored c ?k"
    "forgets (stored c1) (stored c)" "cache_insert I c1 ?k (number (key * 0x9E3779B9)) = Inr c2" "inv (length keys + n) c2"
    "forgets (stored c2) ((stored c)(?k \<mapsto> number (key * 0x9E3779B9)))" by (rule round_law)
  show ?case
  proof (cases r)
    case (Some v)
    then have "stored c ?k = Some v" using g(3) by simp
    then have "?k \<in> dom (stored c)" by blast
    note count = hit_count [OF this forgets_dom [OF g(4)], of ?S]
    obtain h c' where "hits_loop I number keys c1 (h0 + 1) = Inr (h0 + 1 + h, c')" "inv n c'"
      "h + card (?S - dom (stored c1)) \<le> length keys" "dom (stored c') \<subseteq> dom (stored c1) \<union> ?S"
      using Cons.IH [OF g(2), of "h0 + 1"] by blast
    then show ?thesis using g(1) Some count forgets_dom [OF g(4)]
      by (intro exI [of _ "h + 1"] exI [of _ c']) (simp, blast)
  next
    case None
    note count = miss_count [OF forgets_dom [OF g(7)], of ?S]
    obtain h c' where "hits_loop I number keys c2 h0 = Inr (h0 + h, c')" "inv n c'"
      "h + card (?S - dom (stored c2)) \<le> length keys" "dom (stored c') \<subseteq> dom (stored c2) \<union> ?S"
      using Cons.IH [OF g(6), of h0] by blast
    then show ?thesis using g(1,5) None count forgets_dom [OF g(7)]
      by (intro exI [of _ h] exI [of _ c']) (simp, blast)
  qed
qed auto

text \<open>A phase stores each key under itself; then no assertion of it can fail.\<close>

lemma phase_loop_ok:
  assumes "inv (length keys + n) c" and "\<forall>k v. stored c k = Some v \<longrightarrow> v = k"
  shows "\<exists>h c'. phase_loop I keys c p0 h0 = Inr (p0 + length keys, h0 + h, c') \<and> inv n c'
     \<and> h + card (set keys - dom (stored c)) \<le> length keys
     \<and> dom (stored c') \<subseteq> dom (stored c) \<union> set keys \<and> (\<forall>k v. stored c' k = Some v \<longrightarrow> v = k)"
  using assms
proof (induction keys arbitrary: c p0 h0)
  case (Cons k keys)
  have "inv (Suc (length keys + n)) c" using Cons.prems by simp
  then obtain r c1 c2 where g: "cache_get I c k = Inr (r, c1)" "inv (length keys + n) c1" "r = None \<or> r = stored c k"
    "forgets (stored c1) (stored c)" "cache_insert I c1 k k = Inr c2" "inv (length keys + n) c2"
    "forgets (stored c2) ((stored c)(k \<mapsto> k))" by (rule round_law)
  show ?case
  proof (cases r)
    case (Some v)
    then have sv: "stored c k = Some v" using g(3) by simp
    then have v: "k \<in> dom (stored c)" "v = k" using Cons.prems(2) by auto
    note count = hit_count [OF v(1) forgets_dom [OF g(4)], of "set keys"]
    have "\<forall>k v. stored c1 k = Some v \<longrightarrow> v = k" using forgetsD [OF g(4)] Cons.prems(2) by blast
    from Cons.IH [OF g(2) this, of "p0 + 1" "h0 + 1"] obtain h c' where
      "phase_loop I keys c1 (p0 + 1) (h0 + 1) = Inr (p0 + 1 + length keys, h0 + 1 + h, c')" "inv n c'"
      "h + card (set keys - dom (stored c1)) \<le> length keys" "dom (stored c') \<subseteq> dom (stored c1) \<union> set keys"
      "\<forall>k v. stored c' k = Some v \<longrightarrow> v = k" by blast
    then show ?thesis using g(1) Some v(2) count forgets_dom [OF g(4)]
      by (intro exI [of _ "h + 1"] exI [of _ c']) (simp add: assert_that_def, blast)
  next
    case None
    note count = miss_count [OF forgets_dom [OF g(7)], of "set keys"]
    have "\<forall>k v. stored c2 k = Some v \<longrightarrow> v = k" using forgetsD [OF g(7)] Cons.prems(2) by (metis fun_upd_apply option.inject)
    from Cons.IH [OF g(6) this, of "p0 + 1" h0] obtain h c' where
      "phase_loop I keys c2 (p0 + 1) h0 = Inr (p0 + 1 + length keys, h0 + h, c')" "inv n c'"
      "h + card (set keys - dom (stored c2)) \<le> length keys" "dom (stored c') \<subseteq> dom (stored c2) \<union> set keys"
      "\<forall>k v. stored c' k = Some v \<longrightarrow> v = k" by blast
    then show ?thesis using g(1,5) None count forgets_dom [OF g(7)]
      by (intro exI [of _ h] exI [of _ c']) (simp, blast)
  qed
qed auto

lemma phase_ok:
  assumes "inv (length keys + n) c" and "\<forall>k v. stored c k = Some v \<longrightarrow> v = k"
  shows "\<exists>h c'. phase I c keys = Inr (length keys, h, c') \<and> inv n c'
     \<and> h + card (set keys - dom (stored c)) \<le> length keys
     \<and> dom (stored c') \<subseteq> dom (stored c) \<union> set keys \<and> (\<forall>k v. stored c' k = Some v \<longrightarrow> v = k)"
proof -
  obtain h c1 where p: "phase_loop I keys c 0 0 = Inr (length keys, h, c1)" "inv n c1"
    "h + card (set keys - dom (stored c)) \<le> length keys" "dom (stored c1) \<subseteq> dom (stored c) \<union> set keys"
    "\<forall>k v. stored c1 k = Some v \<longrightarrow> v = k" using phase_loop_ok [OF assms, of 0 0] by auto
  obtain c2 where s: "cache_settle I c1 = Inr c2" "inv n c2" "forgets (stored c2) (stored c1)"
    using settle_law [OF p(2)] by blast
  have "\<forall>k v. stored c2 k = Some v \<longrightarrow> v = k" using forgetsD [OF s(3)] p(5) by blast
  moreover have "dom (stored c2) \<subseteq> dom (stored c1)" using forgetsD [OF s(3)] by fastforce
  ultimately show ?thesis using p(1,3,4) s(1,2) by (intro exI [of _ h] exI [of _ c2]) (auto simp: phase_def)
qed

lemma insert_keys_ok:
  assumes "inv (length ks + n) c" and "\<forall>k v. stored c k = Some v \<longrightarrow> v = k"
  shows "\<exists>c'. insert_keys I ks c = Inr c' \<and> inv n c' \<and> (\<forall>k v. stored c' k = Some v \<longrightarrow> v = k)"
  using assms
proof (induction ks arbitrary: c)
  case (Cons k ks)
  have "inv (Suc (length ks + n)) c" using Cons.prems by simp
  from insert_law [OF this, of k k] obtain c1 where i: "cache_insert I c k k = Inr c1" "inv (length ks + n) c1"
    "forgets (stored c1) ((stored c)(k \<mapsto> k))" by blast
  have "\<forall>k v. stored c1 k = Some v \<longrightarrow> v = k" using forgetsD [OF i(3)] Cons.prems(2) by (metis fun_upd_apply option.inject)
  from Cons.IH [OF i(2) this] show ?case by (simp add: i(1))
qed simp

lemma verify_keys_ok:
  assumes "inv n c" and "\<forall>k v. stored c k = Some v \<longrightarrow> v = k"
  shows "\<exists>c'. verify_keys I ks c = Inr c' \<and> inv n c'"
  using assms
proof (induction ks arbitrary: c)
  case (Cons k ks)
  from get_law [OF Cons.prems(1), of k] obtain r c1 where g: "cache_get I c k = Inr (r, c1)" "inv n c1"
    "r = None \<or> r = stored c k" "forgets (stored c1) (stored c)" by blast
  have "\<forall>k v. stored c1 k = Some v \<longrightarrow> v = k" using forgetsD [OF g(4)] Cons.prems(2) by blast
  moreover have "(case r of Some v \<Rightarrow> assert_that (v = k) | None \<Rightarrow> Inr ()) = Inr ()"
    using g(3) Cons.prems(2) by (auto simp: assert_that_def split: option.split)
  ultimately show ?case using Cons.IH [OF g(2)] g(1) by simp
qed simp

end

text \<open>How often a key follows itself.\<close>

fun repeats :: "'t list \<Rightarrow> nat" where
  "repeats (x # y # xs) = (if x = y then 1 else 0) + repeats (y # xs)"
| "repeats _ = 0"

locale exact_cache = cache_trait I inv stored
  for I :: "('c, 't) cache_ops" and inv :: "nat \<Rightarrow> 'c \<Rightarrow> bool" and stored :: "'c \<Rightarrow> 't \<rightharpoonup> 't" +
  assumes get_exact: "inv n c \<Longrightarrow> cache_get I c k = Inr (r, c') \<Longrightarrow> r = stored c k \<and> stored c' = stored c"
    and insert_keeps: "inv (Suc n) c \<Longrightarrow> cache_insert I c k v = Inr c' \<Longrightarrow> stored c' k = Some v"
    and len_exact: "inv n c \<Longrightarrow> cache_len I c = card (dom (stored c)) \<and> finite (dom (stored c))"
begin

text \<open>A key that is stored is hit, and one that was just used is stored.\<close>

lemma hits_at_least:
  assumes "inv (length keys + n) c" and "hits_loop I number keys c h0 = Inr (h, c')"
  shows "h0 + (if keys \<noteq> [] \<and> stored c (number (hd keys)) \<noteq> None then 1 else 0) + repeats (map number keys) \<le> h
     \<and> (keys \<noteq> [] \<longrightarrow> stored c' (number (last keys)) \<noteq> None)"
  using assms
proof (induction keys arbitrary: c h0)
  case (Cons key keys)
  let ?k = "number key" and ?v = "number (key * 0x9E3779B9)"
  have i: "inv (Suc (length keys + n)) c" using Cons.prems(1) by simp
  obtain r c1 where g: "cache_get I c ?k = Inr (r, c1)" "inv (Suc (length keys + n)) c1" using get_law [OF i, of ?k] by blast
  have r: "r = stored c ?k" "stored c1 = stored c" using get_exact [OF i g(1)] by simp_all
  have after: "h1 + repeats (map number (key # keys)) \<le> h \<and> stored c' (number (last (key # keys))) \<noteq> None"
    if s: "stored d ?k \<noteq> None" "inv (length keys + n) d" "hits_loop I number keys d h1 = Inr (h, c')" for d h1
  proof (cases keys)
    case Nil
    then show ?thesis using s by auto
  next
    case more: (Cons k2 ks)
    then show ?thesis using Cons.IH [OF s(2,3)] s(1) by (auto split: if_splits)
  qed
  show ?case
  proof (cases r)
    case (Some v)
    then have "stored c1 ?k \<noteq> None" using r by simp
    from after [OF this inv_less [OF g(2)], of "Suc h0"] show ?thesis using Cons.prems(2) g(1) Some r(1) by simp
  next
    case None
    obtain c2 where c2: "cache_insert I c1 ?k ?v = Inr c2" "inv (length keys + n) c2" using insert_law [OF g(2), of ?k ?v] by blast
    have "stored c2 ?k \<noteq> None" using insert_keeps [OF g(2) c2(1)] by simp
    from after [OF this c2(2), of h0] show ?thesis using Cons.prems(2) g(1) None c2(1) r(1) by simp
  qed
qed simp

end

section \<open>A byte-level map with codecs is a cache\<close>

text \<open>
  The trait implementation for a map of the crate: keys and values go through the codecs, insertions
  carry no TTL of their own, and settling does nothing.
\<close>

definition number_ops ::
  "'t pulse_key \<Rightarrow> 't pulse_value \<Rightarrow> 's insert_op \<Rightarrow> 's get_op \<Rightarrow> ('s \<Rightarrow> nat) \<Rightarrow> ('s, 't) cache_ops" where
  "number_ops K V ins gt len =
     \<lparr>cache_get = (\<lambda>c k. bindR (gt c (with_key_bytes K k)) (\<lambda>(r, c). Inr (Option.bind r (val_from_bytes V), c))),
      cache_insert = (\<lambda>c k v. ins c (key_to_bytes K k) (val_to_bytes V v) 0),
      cache_len = len, cache_settle = Inr\<rparr>"

definition number_stored :: "'t pulse_key \<Rightarrow> 't pulse_value \<Rightarrow> stored_map \<Rightarrow> 't \<rightharpoonup> 't" where
  "number_stored K V L k = Option.bind (L (key_to_bytes K k)) (\<lambda>(vb, t). val_from_bytes V vb)"

text \<open>Only encoded pairs without a TTL are stored, and the map has no default TTL.\<close>

definition number_inv :: "'t pulse_key \<Rightarrow> 't pulse_value \<Rightarrow> u64 \<Rightarrow> stored_map \<Rightarrow> bool" where
  "number_inv K V d L \<longleftrightarrow> d = 0 \<and> (\<forall>kb vb t. L kb = Some (vb, t) \<longrightarrow>
     st_ttl t = 0 \<and> (\<exists>k. kb = key_to_bytes K k) \<and> (\<exists>v. vb = val_to_bytes V v))"

lemma live_untimed: "number_inv K V d L \<Longrightarrow> live_value now d (L kb) = map_option fst (L kb)"
  by (auto simp: number_inv_def live_value_def ttl_expired_def Let_def split: option.split)

lemma number_inv_insert:
  "number_inv K V d L \<Longrightarrow>
   number_inv K V d (stored_after L x (key_to_bytes K k) (val_to_bytes V v, \<lparr>st_epoch = e, st_ttl = 0\<rparr>))"
  by (auto simp: number_inv_def stored_after_def split: option.splits if_splits)

locale number_cache =
  byte_cache inv entries_of now dflt evictions ins gt rm + typed_codec K "\<lambda>_. True" V "\<lambda>_. True"
  for inv :: "nat \<Rightarrow> 's \<Rightarrow> bool" and entries_of and now and dflt and evictions and ins and gt and rm
    and K :: "'t pulse_key" and V :: "'t pulse_value" +
  fixes len :: "'s \<Rightarrow> nat"
  assumes small: "small_pair (key_to_bytes K k) (val_to_bytes V v)"
    and fewer: "inv (Suc n) s \<Longrightarrow> inv n s"
    and len_law: "inv n s \<Longrightarrow> len s = card (dom (entries_of s)) \<and> finite (dom (entries_of s))"

begin

lemma number_stored_insert:
  "forgets (number_stored K V (stored_after L x (key_to_bytes K k) (val_to_bytes V v, t))) ((number_stored K V L)(k \<mapsto> v))"
  "number_stored K V (stored_after L x (key_to_bytes K k) (val_to_bytes V v, t)) k = Some v"
  using key_inj val_roundtrip
  by (auto simp: forgets_def number_stored_def stored_after_def split: option.splits)

lemma stored_dom:
  assumes "number_inv K V d L"
  shows "dom L = key_to_bytes K ` dom (number_stored K V L)"
proof -
  have same: "L (key_to_bytes K k) \<noteq> None \<longleftrightarrow> number_stored K V L k \<noteq> None" for k
    using assms val_roundtrip by (cases "L (key_to_bytes K k)") (fastforce simp: number_inv_def number_stored_def)+
  show ?thesis
  proof (intro equalityI subsetI)
    fix kb assume "kb \<in> dom L"
    then obtain k where "kb = key_to_bytes K k" "L (key_to_bytes K k) \<noteq> None" using assms by (force simp: number_inv_def)
    then show "kb \<in> key_to_bytes K ` dom (number_stored K V L)" unfolding same by blast
  next
    fix kb assume "kb \<in> key_to_bytes K ` dom (number_stored K V L)"
    then obtain k where "kb = key_to_bytes K k" "number_stored K V L k \<noteq> None" by blast
    then show "kb \<in> dom L" unfolding same [symmetric] by blast
  qed
qed

end

sublocale number_cache \<subseteq> trait: exact_cache "number_ops K V ins gt len"
  "\<lambda>n s. inv n s \<and> number_inv K V (dflt s) (entries_of s)" "\<lambda>s. number_stored K V (entries_of s)"
proof unfold_locales
  let ?inv = "\<lambda>n s. inv n s \<and> number_inv K V (dflt s) (entries_of s)" and ?st = "\<lambda>s. number_stored K V (entries_of s)"
  let ?I = "number_ops K V ins gt len"
  have get: "\<exists>s'. cache_get ?I s k = Inr (?st s k, s') \<and> ?inv n s' \<and> ?st s' = ?st s" if iv: "?inv n s" for n s k
  proof -
    have "live_value (now s (key_to_bytes K k)) (dflt s) (entries_of s (key_to_bytes K k))
        = map_option fst (entries_of s (key_to_bytes K k))" by (rule live_untimed) (use iv in blast)
    then obtain s' where "gt s (key_to_bytes K k) = Inr (map_option fst (entries_of s (key_to_bytes K k)), s')" "inv n s'"
      "entries_of s' = entries_of s" "dflt s' = dflt s"
      using get_law [of n s "key_to_bytes K k"] iv by auto
    then show ?thesis using iv
      by (auto simp: number_ops_def key_view number_stored_def map_option_case split: option.split)
  qed
  have ins: "\<exists>s'. cache_insert ?I s k v = Inr s' \<and> ?inv n s' \<and> forgets (?st s') ((?st s)(k \<mapsto> v)) \<and> ?st s' k = Some v"
    if iv: "?inv (Suc n) s" for n s k v
  proof -
    let ?kb = "key_to_bytes K k" and ?vb = "val_to_bytes V v"
    obtain s' x where "ins s ?kb ?vb 0 = Inr s'" "inv n s'" "dflt s' = dflt s"
      "entries_of s' = stored_after (entries_of s) x ?kb (?vb, \<lparr>st_epoch = now s ?kb + 1, st_ttl = 0\<rparr>)"
      using insert_law [OF _ small, of n s k v 0] iv by blast
    then show ?thesis using iv number_inv_insert number_stored_insert by (auto simp: number_ops_def)
  qed
  fix n s
  show "\<exists>r s'. cache_get ?I s k = Inr (r, s') \<and> ?inv n s' \<and> (r = None \<or> r = ?st s k) \<and> forgets (?st s') (?st s)"
    if "?inv n s" for k using get [OF that, of k] by auto
  show "r = ?st s k \<and> ?st s' = ?st s" if "?inv n s" "cache_get ?I s k = Inr (r, s')" for k r s'
    using get [OF that(1), of k] that(2) by auto
  show "\<exists>s'. cache_insert ?I s k v = Inr s' \<and> ?inv n s' \<and> forgets (?st s') ((?st s)(k \<mapsto> v))"
    if "?inv (Suc n) s" for k v using ins [OF that, of k v] by blast
  show "?st s' k = Some v" if "?inv (Suc n) s" "cache_insert ?I s k v = Inr s'" for k v s'
    using ins [OF that(1), of k v] that(2) by auto
  show "\<exists>s'. cache_settle ?I s = Inr s' \<and> ?inv n s' \<and> forgets (?st s') (?st s)" if "?inv n s"
    using that by (simp add: number_ops_def)
  show "?inv n s" if "?inv (Suc n) s" using that fewer by blast
  show "cache_len ?I s = card (dom (?st s)) \<and> finite (dom (?st s))" if "?inv n s"
  proof -
    have d: "dom (entries_of s) = key_to_bytes K ` dom (?st s)" using stored_dom that by blast
    have "inj_on (key_to_bytes K) (dom (?st s))" using key_inj by (auto intro: inj_onI)
    then show ?thesis using len_law [of n s] that card_image finite_imageD unfolding d by (fastforce simp: number_ops_def)
  qed
qed

context number_cache
begin

lemma as_exact_cache:
  "exact_cache (number_ops K V ins gt len) (\<lambda>n s. inv n s \<and> number_inv K V (dflt s) (entries_of s))
     (\<lambda>s. number_stored K V (entries_of s))"
  by unfold_locales

end

end
