(* ===== verification/Evaluation.thy ===== *)
theory Evaluation
  imports Cache_Trait
begin

text \<open>
  The evaluation program, \<^verbatim>\<open>src/evaluation/src/\<close>: the adapters that put the maps of the crate and other
  caches behind one trait, their construction by name, the hit counter and the scenarios
  \<^verbatim>\<open>adaptation\<close>, \<^verbatim>\<open>semantics\<close> and \<^verbatim>\<open>boundary\<close>. The caches of other crates (the published baseline, lru,
  quick_cache, moka) are a parameter: their trait operations and their constructor by name and capacity.
  Timing and printing are left out; a scenario returns the numbers it prints. Not modelled: the
  scenarios that measure threads, time and process memory.
\<close>

section \<open>Numbers and adapters\<close>

record 't number =
  number :: "u64 \<Rightarrow> 't"
  num_key :: "'t pulse_key"
  num_val :: "'t pulse_value"

definition number_u32 :: "u32 number" where
  "number_u32 = \<lparr>number = ucast, num_key = key_u32, num_val = val_u32\<rparr>"

definition number_u64 :: "u64 number" where
  "number_u64 = \<lparr>number = (\<lambda>v. v), num_key = key_u64, num_val = val_u64\<rparr>"

text \<open>The macros \<^verbatim>\<open>typed_cache!\<close> and \<^verbatim>\<open>shared_cache!\<close> on the maps of the crate.\<close>

definition typed_ops :: "'t number \<Rightarrow> (bytes \<Rightarrow> u64) \<Rightarrow> (typed_pulse_map, 't) cache_ops" where
  "typed_ops N wy =
     \<lparr>cache_get = typed_get (num_key N) (num_val N) wy, cache_insert = typed_insert (num_key N) (num_val N) wy,
      cache_len = typed_len, cache_settle = Inr\<rparr>"

definition conc_ops :: "'t number \<Rightarrow> (bytes \<Rightarrow> u64) \<Rightarrow> (concurrent_map, 't) cache_ops" where
  "conc_ops N wy =
     \<lparr>cache_get = conc_get (num_key N) (num_val N) wy, cache_insert = conc_insert (num_key N) (num_val N) wy,
      cache_len = conc_len, cache_settle = Inr\<rparr>"

definition sharded_ops :: "'t number \<Rightarrow> (bytes \<Rightarrow> u64) \<Rightarrow> (sharded_map, 't) cache_ops" where
  "sharded_ops N wy =
     \<lparr>cache_get = sharded_get (num_key N) (num_val N) wy, cache_insert = sharded_insert (num_key N) (num_val N) wy,
      cache_len = (\<lambda>m. unat (sharded_len m)), cache_settle = Inr\<rparr>"

text \<open>\<^verbatim>\<open>Box<dyn Cache<T>>\<close>: a cache of one of the types, with its operations picked at run time.\<close>

datatype 'o any_cache = TypedCache typed_pulse_map | ConcCache concurrent_map | ShardedCache sharded_map | OtherCache 'o

fun any_get :: "'t number \<Rightarrow> (bytes \<Rightarrow> u64) \<Rightarrow> ('o, 't) cache_ops \<Rightarrow> 'o any_cache \<Rightarrow> 't \<Rightarrow> ('t option \<times> 'o any_cache) res" where
  "any_get N wy oo (TypedCache m) k = bindR (cache_get (typed_ops N wy) m k) (\<lambda>(r, m). Inr (r, TypedCache m))"
| "any_get N wy oo (ConcCache m) k = bindR (cache_get (conc_ops N wy) m k) (\<lambda>(r, m). Inr (r, ConcCache m))"
| "any_get N wy oo (ShardedCache m) k = bindR (cache_get (sharded_ops N wy) m k) (\<lambda>(r, m). Inr (r, ShardedCache m))"
| "any_get N wy oo (OtherCache m) k = bindR (cache_get oo m k) (\<lambda>(r, m). Inr (r, OtherCache m))"

fun any_insert :: "'t number \<Rightarrow> (bytes \<Rightarrow> u64) \<Rightarrow> ('o, 't) cache_ops \<Rightarrow> 'o any_cache \<Rightarrow> 't \<Rightarrow> 't \<Rightarrow> 'o any_cache res" where
  "any_insert N wy oo (TypedCache m) k v = bindR (cache_insert (typed_ops N wy) m k v) (\<lambda>m. Inr (TypedCache m))"
| "any_insert N wy oo (ConcCache m) k v = bindR (cache_insert (conc_ops N wy) m k v) (\<lambda>m. Inr (ConcCache m))"
| "any_insert N wy oo (ShardedCache m) k v = bindR (cache_insert (sharded_ops N wy) m k v) (\<lambda>m. Inr (ShardedCache m))"
| "any_insert N wy oo (OtherCache m) k v = bindR (cache_insert oo m k v) (\<lambda>m. Inr (OtherCache m))"

fun any_len :: "'t number \<Rightarrow> (bytes \<Rightarrow> u64) \<Rightarrow> ('o, 't) cache_ops \<Rightarrow> 'o any_cache \<Rightarrow> nat" where
  "any_len N wy oo (TypedCache m) = cache_len (typed_ops N wy) m"
| "any_len N wy oo (ConcCache m) = cache_len (conc_ops N wy) m"
| "any_len N wy oo (ShardedCache m) = cache_len (sharded_ops N wy) m"
| "any_len N wy oo (OtherCache m) = cache_len oo m"

fun any_settle :: "'t number \<Rightarrow> (bytes \<Rightarrow> u64) \<Rightarrow> ('o, 't) cache_ops \<Rightarrow> 'o any_cache \<Rightarrow> 'o any_cache res" where
  "any_settle N wy oo (TypedCache m) = bindR (cache_settle (typed_ops N wy) m) (\<lambda>m. Inr (TypedCache m))"
| "any_settle N wy oo (ConcCache m) = bindR (cache_settle (conc_ops N wy) m) (\<lambda>m. Inr (ConcCache m))"
| "any_settle N wy oo (ShardedCache m) = bindR (cache_settle (sharded_ops N wy) m) (\<lambda>m. Inr (ShardedCache m))"
| "any_settle N wy oo (OtherCache m) = bindR (cache_settle oo m) (\<lambda>m. Inr (OtherCache m))"

definition any_ops :: "'t number \<Rightarrow> (bytes \<Rightarrow> u64) \<Rightarrow> ('o, 't) cache_ops \<Rightarrow> ('o any_cache, 't) cache_ops" where
  "any_ops N wy oo = \<lparr>cache_get = any_get N wy oo, cache_insert = any_insert N wy oo,
     cache_len = any_len N wy oo, cache_settle = any_settle N wy oo\<rparr>"

section \<open>Construction by name\<close>

definition is_power_of_two :: "nat \<Rightarrow> bool" where
  "is_power_of_two n \<longleftrightarrow> n \<noteq> 0 \<and> n AND (n - 1) = 0"

definition validate_capacity :: "nat \<Rightarrow> unit res" where
  "validate_capacity capacity = assert_that (64 \<le> capacity \<and> is_power_of_two capacity)"

definition NAMES :: "string list" where
  "NAMES = [''baseline-typed'', ''candidate-typed'', ''baseline-concurrent'', ''candidate-concurrent'',
     ''baseline-sharded'', ''candidate-sharded'', ''lru'', ''quick'', ''moka'']"

type_synonym 'o constructor = "string \<Rightarrow> nat \<Rightarrow> 'o res"

definition shared_cache :: "'o constructor \<Rightarrow> string \<Rightarrow> nat \<Rightarrow> 'o any_cache res" where
  "shared_cache other name capacity =
     bindR (validate_capacity capacity) (\<lambda>_.
     if name = ''candidate-concurrent'' then bindR (conc_new (capacity div 4)) (\<lambda>m. Inr (ConcCache m))
     else if name = ''candidate-sharded'' then bindR (sharded_new (capacity div 64)) (\<lambda>m. Inr (ShardedCache m))
     else if name \<in> set [''baseline-concurrent'', ''baseline-sharded'', ''lru'', ''quick'', ''moka'']
     then bindR (other name capacity) (\<lambda>m. Inr (OtherCache m))
     else Inl AssertionFailed)"

definition cache :: "'o constructor \<Rightarrow> string \<Rightarrow> nat \<Rightarrow> 'o any_cache res" where
  "cache other name capacity =
     bindR (validate_capacity capacity) (\<lambda>_.
     if name = ''candidate-typed'' then bindR (typed_new (capacity div 4)) (\<lambda>m. Inr (TypedCache m))
     else if name = ''baseline-typed'' \<or> name = ''lru'' then bindR (other name capacity) (\<lambda>m. Inr (OtherCache m))
     else shared_cache other name capacity)"

section \<open>Scenarios\<close>

definition hits ::
  "'t number \<Rightarrow> (bytes \<Rightarrow> u64) \<Rightarrow> ('o, 't) cache_ops \<Rightarrow> 'o constructor \<Rightarrow> string \<Rightarrow> nat \<Rightarrow> u64 list \<Rightarrow> (nat \<times> nat) res" where
  "hits N wy oo other name capacity keys =
     bindR (cache other name capacity) (\<lambda>c.
     bindR (hits_loop (any_ops N wy oo) (number N) keys c 0) (\<lambda>(hits, c).
     bindR (cache_settle (any_ops N wy oo) c) (\<lambda>c. Inr (hits, cache_len (any_ops N wy oo) c))))"

text \<open>The keys of the phases: \<open>rounds\<close> passes over a hot set, and one pass over new keys.\<close>

definition hot_keys :: "nat \<Rightarrow> nat \<Rightarrow> nat \<Rightarrow> u32 list" where
  "hot_keys start hot rounds = map (\<lambda>i. word_of_nat (start + i mod hot)) [0..<hot * rounds]"

definition hot_size :: "nat \<Rightarrow> nat" where
  "hot_size capacity = (if capacity = 4 then 4 else capacity div 4)"

text \<open>A printed row: label, operations, hits, resident entries.\<close>

type_synonym row = "string \<times> nat \<times> nat \<times> nat"

definition adapt_phase ::
  "(bytes \<Rightarrow> u64) \<Rightarrow> ('o, u32) cache_ops \<Rightarrow> string \<Rightarrow> u32 list \<Rightarrow> 'o any_cache \<Rightarrow> (row \<times> 'o any_cache) res" where
  "adapt_phase wy oo label keys c =
     bindR (phase (any_ops number_u32 wy oo) c keys) (\<lambda>(ops, h, c).
     Inr ((label, ops, h, cache_len (any_ops number_u32 wy oo) c), c))"

definition adapt_one :: "(bytes \<Rightarrow> u64) \<Rightarrow> ('o, u32) cache_ops \<Rightarrow> nat \<Rightarrow> 'o any_cache \<Rightarrow> row list res" where
  "adapt_one wy oo capacity c =
     (let hot = hot_size capacity in
      bindR (adapt_phase wy oo ''warm'' (hot_keys 0 hot 100) c) (\<lambda>(r1, c).
      bindR (adapt_phase wy oo ''shift'' (hot_keys hot hot 100) c) (\<lambda>(r2, c).
      bindR (adapt_phase wy oo ''scan'' (u32_range (2 * hot) (2 * hot + capacity * 3)) c) (\<lambda>(r3, c).
      bindR (adapt_phase wy oo ''post_scan'' (hot_keys hot hot 10) c) (\<lambda>(r4, c).
      Inr [r1, r2, r3, r4])))))"

definition adapt_names :: "nat \<Rightarrow> string list" where
  "adapt_names capacity =
     (if capacity = 4 then [''baseline-typed'', ''candidate-typed'', ''baseline-concurrent'', ''candidate-concurrent'', ''lru'']
      else NAMES)"

definition adapt_cache :: "'o constructor \<Rightarrow> string \<Rightarrow> nat \<Rightarrow> 'o any_cache res" where
  "adapt_cache other name capacity =
     (if capacity = 4 then
        if name = ''candidate-typed'' then bindR (typed_new 1) (\<lambda>m. Inr (TypedCache m))
        else if name = ''candidate-concurrent'' then bindR (conc_new 1) (\<lambda>m. Inr (ConcCache m))
        else bindR (other name 4) (\<lambda>m. Inr (OtherCache m))
      else cache other name capacity)"

fun adapt_all ::
  "(bytes \<Rightarrow> u64) \<Rightarrow> ('o, u32) cache_ops \<Rightarrow> 'o constructor \<Rightarrow> (nat \<times> string) list \<Rightarrow> (nat \<times> string \<times> row list) list res" where
  "adapt_all wy oo other [] = Inr []"
| "adapt_all wy oo other ((capacity, name) # rest) =
     bindR (adapt_cache other name capacity) (\<lambda>c.
     bindR (adapt_one wy oo capacity c) (\<lambda>rows.
     bindR (adapt_all wy oo other rest) (\<lambda>res. Inr ((capacity, name, rows) # res))))"

definition adaptation ::
  "(bytes \<Rightarrow> u64) \<Rightarrow> ('o, u32) cache_ops \<Rightarrow> 'o constructor \<Rightarrow> bool \<Rightarrow> (nat \<times> string \<times> row list) list res" where
  "adaptation wy oo other smoke =
     adapt_all wy oo other
       (concat (map (\<lambda>capacity. map (Pair capacity) (adapt_names capacity)) (if smoke then [4, 1024] else [4, 1024, 65536])))"

definition boundary_one ::
  "(bytes \<Rightarrow> u64) \<Rightarrow> ('o, u32) cache_ops \<Rightarrow> 'o constructor \<Rightarrow> nat \<Rightarrow> string \<Rightarrow> nat \<Rightarrow> nat res" where
  "boundary_one wy oo other puts name b =
     bindR (cache other name (b * 64)) (\<lambda>c.
     bindR (insert_keys (any_ops number_u32 wy oo) (u32_range 0 puts) c) (\<lambda>c.
     bindR (verify_keys (any_ops number_u32 wy oo) (u32_range 0 puts) c) (\<lambda>c.
     Inr (cache_len (any_ops number_u32 wy oo) c))))"

fun boundary_all ::
  "(bytes \<Rightarrow> u64) \<Rightarrow> ('o, u32) cache_ops \<Rightarrow> 'o constructor \<Rightarrow> nat \<Rightarrow> (nat \<times> string) list \<Rightarrow> (nat \<times> string \<times> nat) list res" where
  "boundary_all wy oo other puts [] = Inr []"
| "boundary_all wy oo other puts ((b, name) # rest) =
     bindR (boundary_one wy oo other puts name b) (\<lambda>n.
     bindR (boundary_all wy oo other puts rest) (\<lambda>res. Inr ((b, name, n) # res)))"

definition boundary ::
  "(bytes \<Rightarrow> u64) \<Rightarrow> ('o, u32) cache_ops \<Rightarrow> 'o constructor \<Rightarrow> bool \<Rightarrow> (nat \<times> string \<times> nat) list res" where
  "boundary wy oo other smoke =
     (let puts = (if smoke then 4096 else 1000000);
          sizes = (if smoke then [16, 32, 64] else [8192, 16384, 32768])
      in boundary_all wy oo other puts
           (concat (map (\<lambda>b. map (Pair b) [''baseline-sharded'', ''candidate-sharded'']) sizes)))"

text \<open>The body of the macro \<^verbatim>\<open>check!\<close> in \<^verbatim>\<open>semantics\<close>, on the typed map of the crate.\<close>

definition semantics_check :: "(bytes \<Rightarrow> u64) \<Rightarrow> unit res" where
  "semantics_check wy =
     (let ins = typed_insert key_u32 val_u32 wy; get = typed_get key_u32 val_u32 wy in
      bindR (typed_new 16) (\<lambda>m.
      let m = typed_set_ttl m 1 in
      bindR (ins m 1 10) (\<lambda>m.
      bindR (ins m 2 20) (\<lambda>m.
      bindR (get m 1) (\<lambda>(r, m).
      bindR (assert_that (r = Some 10)) (\<lambda>_.
      bindR (ins m 2 21) (\<lambda>m.
      bindR (get m 1) (\<lambda>(r, m).
      bindR (assert_that (r = None)) (\<lambda>_.
      bindR (assert_that (typed_len m = 2)) (\<lambda>_.
      bindR (typed_iter key_u32 val_u32 m) (\<lambda>kvs.
      bindR (assert_that (length kvs = 2)) (\<lambda>_.
      let m = typed_set_ttl m 0 in
      bindR (typed_peek key_u32 val_u32 wy m 1) (\<lambda>r.
      bindR (assert_that (r = Some 10)) (\<lambda>_.
      let m = typed_set_ttl m 1 in
      bindR (typed_insert_ttl key_u32 val_u32 wy m 1 11 (- 1)) (\<lambda>m.
      bindR (insert_loop wy (\<lambda>_. 20) (replicate 10 2) m) (\<lambda>m.
      bindR (typed_peek key_u32 val_u32 wy m 1) (\<lambda>r.
      assert_that (r = Some 11))))))))))))))))))"

section \<open>The maps of the crate obey the laws\<close>

definition lawful_number :: "'t number \<Rightarrow> bool" where
  "lawful_number N \<longleftrightarrow> typed_codec (num_key N) (\<lambda>_. True) (num_val N) (\<lambda>_. True)
     \<and> (\<forall>k v. fits_pair (num_key N) (num_val N) k v)"

lemma lawful_numbers: "lawful_number number_u32" "lawful_number number_u64"
  by (simp_all add: lawful_number_def number_u32_def number_u64_def u32u32.typed_codec_axioms u64u64.typed_codec_axioms)

abbreviation encoded :: "'t number \<Rightarrow> u64 \<Rightarrow> stored_map \<Rightarrow> bool" where
  "encoded N \<equiv> number_inv (num_key N) (num_val N)"

abbreviation decoded :: "'t number \<Rightarrow> stored_map \<Rightarrow> 't \<rightharpoonup> 't" where
  "decoded N \<equiv> number_stored (num_key N) (num_val N)"

lemma number_cacheI:
  assumes "lawful_number N" and "byte_cache J entries_of now dflt evictions ins gt rm"
    and "\<And>n s. J (Suc n) s \<Longrightarrow> J n s"
    and "\<And>n s. J n s \<Longrightarrow> len s = card (dom (entries_of s)) \<and> finite (dom (entries_of s))"
  shows "number_cache J entries_of now dflt evictions ins gt rm (num_key N) (num_val N) len"
  using assms unfolding lawful_number_def number_cache_def number_cache_axioms_def by blast

lemma number_ops_eq:
  "\<lparr>cache_get = g, cache_insert = i, cache_len = l, cache_settle = Inr\<rparr> = number_ops K V ins gt len"
  if "\<And>c k. g c k = bindR (gt c (with_key_bytes K k)) (\<lambda>(r, c). Inr (Option.bind r (val_from_bytes V), c))"
    and "\<And>c k v. i c k v = ins c (key_to_bytes K k) (val_to_bytes V v) 0" and "l = len"
  using that by (simp add: number_ops_def fun_eq_iff)

text \<open>The typed map is its raw map behind one more record.\<close>

definition typed_bytes_insert :: "(bytes \<Rightarrow> u64) \<Rightarrow> typed_pulse_map insert_op" where
  "typed_bytes_insert wy m k v ttl = bindR (insert_internal wy (raw m) k v ttl) (\<lambda>r. Inr (m\<lparr>raw := r\<rparr>))"

definition typed_bytes_get :: "(bytes \<Rightarrow> u64) \<Rightarrow> typed_pulse_map get_op" where
  "typed_bytes_get wy m k = bindR (raw_get wy (raw m) k) (\<lambda>(x, r). Inr (x, m\<lparr>raw := r\<rparr>))"

definition typed_bytes_remove :: "(bytes \<Rightarrow> u64) \<Rightarrow> typed_pulse_map remove_op" where
  "typed_bytes_remove wy m k = bindR (raw_remove wy (raw m) k) (\<lambda>(x, r). Inr (x, m\<lparr>raw := r\<rparr>))"

interpretation typed_bytes: byte_cache "\<lambda>_ m. raw_inv wy (raw m)" "\<lambda>m. raw_lookup wy (raw m)"
  "\<lambda>m _. current_epoch (raw m)" "\<lambda>m. default_ttl (raw m)" "\<lambda>m. eviction_count (raw m)"
  "typed_bytes_insert wy" "typed_bytes_get wy" "typed_bytes_remove wy" for wy
proof unfold_locales
  fix m :: typed_pulse_map and k v :: bytes and ttl
  assume i: "raw_inv wy (raw m)"
  show "\<exists>m'. typed_bytes_get wy m k = Inr (live_value (current_epoch (raw m)) (default_ttl (raw m)) (raw_lookup wy (raw m) k), m')
      \<and> raw_inv wy (raw m') \<and> raw_lookup wy (raw m') = raw_lookup wy (raw m)
      \<and> (\<forall>j :: bytes. current_epoch (raw m') = current_epoch (raw m))
      \<and> default_ttl (raw m') = default_ttl (raw m) \<and> eviction_count (raw m') = eviction_count (raw m)"
    using raw.get_law [OF i, of k] by (auto simp: typed_bytes_get_def)
  show "\<exists>m'. typed_bytes_remove wy m k = Inr (raw_lookup wy (raw m) k \<noteq> None, m')
      \<and> raw_inv wy (raw m') \<and> raw_lookup wy (raw m') = (raw_lookup wy (raw m))(k := None)
      \<and> (\<forall>j :: bytes. current_epoch (raw m') = current_epoch (raw m))
      \<and> default_ttl (raw m') = default_ttl (raw m) \<and> eviction_count (raw m') = eviction_count (raw m)"
    using raw.remove_law [OF i, of k] by (auto simp: typed_bytes_remove_def)
  assume "small_pair k v"
  from raw.insert_law [OF i this, of ttl] obtain r victim where
    "insert_internal wy (raw m) k v ttl = Inr r" "raw_inv wy r" "current_epoch r = current_epoch (raw m) + 1"
    "default_ttl r = default_ttl (raw m)"
    "raw_lookup wy r = stored_after (raw_lookup wy (raw m)) victim k (v, \<lparr>st_epoch = current_epoch (raw m) + 1, st_ttl = ttl\<rparr>)"
    "case victim of
             None \<Rightarrow> eviction_count r = eviction_count (raw m)
           | Some x \<Rightarrow> x \<noteq> k \<and> raw_lookup wy (raw m) k = None \<and> raw_lookup wy (raw m) x \<noteq> None
                       \<and> eviction_count r = eviction_count (raw m) + 1" by blast
  then show "\<exists>m' victim. typed_bytes_insert wy m k v ttl = Inr m' \<and> raw_inv wy (raw m')
        \<and> current_epoch (raw m') = current_epoch (raw m) + 1 \<and> default_ttl (raw m') = default_ttl (raw m)
        \<and> raw_lookup wy (raw m') =
            stored_after (raw_lookup wy (raw m)) victim k (v, \<lparr>st_epoch = current_epoch (raw m) + 1, st_ttl = ttl\<rparr>)
        \<and> (case victim of
             None \<Rightarrow> eviction_count (raw m') = eviction_count (raw m)
           | Some x \<Rightarrow> x \<noteq> k \<and> raw_lookup wy (raw m) k = None \<and> raw_lookup wy (raw m) x \<noteq> None
                       \<and> eviction_count (raw m') = eviction_count (raw m) + 1)"
    by (intro exI [of _ "m\<lparr>raw := r\<rparr>"] exI [of _ victim]) (simp add: typed_bytes_insert_def cong: option.case_cong)
qed

text \<open>The state of each map behind the trait.\<close>

definition typed_ready :: "'t number \<Rightarrow> (bytes \<Rightarrow> u64) \<Rightarrow> nat \<Rightarrow> typed_pulse_map \<Rightarrow> bool" where
  "typed_ready N wy n m \<longleftrightarrow> raw_inv wy (raw m) \<and> encoded N (default_ttl (raw m)) (raw_lookup wy (raw m))"

definition conc_cached :: "'t number \<Rightarrow> (bytes \<Rightarrow> u64) \<Rightarrow> nat \<Rightarrow> concurrent_map \<Rightarrow> bool" where
  "conc_cached N wy n c \<longleftrightarrow> conc_ready wy n c \<and> encoded N (c_default_ttl c) (conc_lookup wy c)"

definition sharded_cached :: "'t number \<Rightarrow> (bytes \<Rightarrow> u64) \<Rightarrow> nat \<Rightarrow> sharded_map \<Rightarrow> bool" where
  "sharded_cached N wy n m \<longleftrightarrow> sharded_ready wy n m \<and> encoded N (sharded_ttl m) (sharded_lookup wy m)"

lemma typed_exact:
  assumes "lawful_number N"
  shows "exact_cache (typed_ops N wy) (typed_ready N wy) (\<lambda>m. decoded N (raw_lookup wy (raw m)))"
proof -
  have "number_cache (\<lambda>_ m. raw_inv wy (raw m)) (\<lambda>m. raw_lookup wy (raw m)) (\<lambda>m _. current_epoch (raw m))
      (\<lambda>m. default_ttl (raw m)) (\<lambda>m. eviction_count (raw m)) (typed_bytes_insert wy) (typed_bytes_get wy)
      (typed_bytes_remove wy) (num_key N) (num_val N) typed_len"
    by (rule number_cacheI [OF assms typed_bytes.byte_cache_axioms]) (simp_all add: typed_len_def raw_bounds(1,2))
  then have "exact_cache (number_ops (num_key N) (num_val N) (typed_bytes_insert wy) (typed_bytes_get wy) typed_len)
      (\<lambda>n m. raw_inv wy (raw m) \<and> encoded N (default_ttl (raw m)) (raw_lookup wy (raw m))) (\<lambda>m. decoded N (raw_lookup wy (raw m)))"
    by (rule number_cache.as_exact_cache)
  moreover have "typed_ops N wy = number_ops (num_key N) (num_val N) (typed_bytes_insert wy) (typed_bytes_get wy) typed_len"
    unfolding typed_ops_def
    by (rule number_ops_eq) (simp_all add: typed_get_def typed_bytes_get_def bindR_assoc typed_insert_def raw_insert_def
        typed_bytes_insert_def case_prod_unfold)
  ultimately show ?thesis unfolding typed_ready_def [abs_def] by simp
qed

lemma conc_ready_less: "conc_ready wy (Suc n) c \<Longrightarrow> conc_ready wy n c"
  by (auto simp: conc_ready_def)

lemma conc_exact:
  assumes "lawful_number N"
  shows "exact_cache (conc_ops N wy) (conc_cached N wy) (\<lambda>c. decoded N (conc_lookup wy c))"
proof -
  have "number_cache (conc_ready wy) (conc_lookup wy) (\<lambda>c _. c_epoch c) c_default_ttl c_eviction_count
      (conc_insert_internal wy) (conc_get_bytes wy) (conc_remove_bytes wy) (num_key N) (num_val N) conc_len"
    by (rule number_cacheI [OF assms conc.byte_cache_axioms]) (auto dest: conc_ready_less simp: conc_ready_def conc_len_lookup conc_dom_finite)
  then have "exact_cache (number_ops (num_key N) (num_val N) (conc_insert_internal wy) (conc_get_bytes wy) conc_len)
      (\<lambda>n c. conc_ready wy n c \<and> encoded N (c_default_ttl c) (conc_lookup wy c)) (\<lambda>c. decoded N (conc_lookup wy c))"
    by (rule number_cache.as_exact_cache)
  moreover have "conc_ops N wy = number_ops (num_key N) (num_val N) (conc_insert_internal wy) (conc_get_bytes wy) conc_len"
    unfolding conc_ops_def by (rule number_ops_eq) (simp_all add: conc_get_def conc_insert_def)
  ultimately show ?thesis unfolding conc_cached_def [abs_def] by simp
qed

lemma sharded_exact:
  assumes "lawful_number N"
  shows "exact_cache (sharded_ops N wy) (sharded_cached N wy) (\<lambda>m. decoded N (sharded_lookup wy m))"
proof -
  let ?len = "\<lambda>m. unat (sharded_len m)"
  have "number_cache (sharded_ready wy) (sharded_lookup wy) (shard_epoch wy) sharded_ttl sharded_eviction_count
      (sharded_insert_ttl key_Vec val_Vec wy) (sharded_get key_Vec val_Vec wy) (sharded_remove key_Vec wy)
      (num_key N) (num_val N) ?len"
  proof (rule number_cacheI [OF assms sharded.byte_cache_axioms])
    show "sharded_ready wy n m" if "sharded_ready wy (Suc n) m" for n m
      using that conc_ready_less unfolding sharded_ready_def shard_ok_def by blast
    show "?len m = card (dom (sharded_lookup wy m)) \<and> finite (dom (sharded_lookup wy m))" if "sharded_ready wy n m" for n m
      using sharded_sizes(1,2) [OF that] by simp
  qed
  then have "exact_cache (number_ops (num_key N) (num_val N) (sharded_insert_ttl key_Vec val_Vec wy) (sharded_get key_Vec val_Vec wy) ?len)
      (\<lambda>n m. sharded_ready wy n m \<and> encoded N (sharded_ttl m) (sharded_lookup wy m)) (\<lambda>m. decoded N (sharded_lookup wy m))"
    by (rule number_cache.as_exact_cache)
  moreover have "sharded_ops N wy =
      number_ops (num_key N) (num_val N) (sharded_insert_ttl key_Vec val_Vec wy) (sharded_get key_Vec val_Vec wy) ?len"
  proof -
    have c: "typed_codec (num_key N) (\<lambda>_. True) (num_val N) (\<lambda>_. True)" using assms by (simp add: lawful_number_def)
    have v: "with_key_bytes (num_key N) k = key_to_bytes (num_key N) k" for k
      by (rule key_codec.key_view [OF typed_codec.axioms(1) [OF c]])
    show ?thesis unfolding sharded_ops_def
      by (rule number_ops_eq) (simp_all add: via_bytes [OF c] v)
  qed
  ultimately show ?thesis unfolding sharded_cached_def [abs_def] by simp
qed

interpretation typed_u32: exact_cache "typed_ops number_u32 wy" "typed_ready number_u32 wy"
  "\<lambda>m. decoded number_u32 (raw_lookup wy (raw m))" for wy
  by (rule typed_exact [OF lawful_numbers(1)])

interpretation conc_u32: exact_cache "conc_ops number_u32 wy" "conc_cached number_u32 wy"
  "\<lambda>c. decoded number_u32 (conc_lookup wy c)" for wy
  by (rule conc_exact [OF lawful_numbers(1)])

interpretation sharded_u32: exact_cache "sharded_ops number_u32 wy" "sharded_cached number_u32 wy"
  "\<lambda>m. decoded number_u32 (sharded_lookup wy m)" for wy
  by (rule sharded_exact [OF lawful_numbers(1)])

text \<open>A cache picked at run time obeys the laws that all of them share.\<close>

fun any_ready :: "'t number \<Rightarrow> (bytes \<Rightarrow> u64) \<Rightarrow> (nat \<Rightarrow> 'o \<Rightarrow> bool) \<Rightarrow> nat \<Rightarrow> 'o any_cache \<Rightarrow> bool" where
  "any_ready N wy J n (TypedCache m) = typed_ready N wy n m"
| "any_ready N wy J n (ConcCache m) = conc_cached N wy n m"
| "any_ready N wy J n (ShardedCache m) = sharded_cached N wy n m"
| "any_ready N wy J n (OtherCache m) = J n m"

fun any_stored :: "'t number \<Rightarrow> (bytes \<Rightarrow> u64) \<Rightarrow> ('o \<Rightarrow> 't \<rightharpoonup> 't) \<Rightarrow> 'o any_cache \<Rightarrow> 't \<rightharpoonup> 't" where
  "any_stored N wy st (TypedCache m) = decoded N (raw_lookup wy (raw m))"
| "any_stored N wy st (ConcCache m) = decoded N (conc_lookup wy m)"
| "any_stored N wy st (ShardedCache m) = decoded N (sharded_lookup wy m)"
| "any_stored N wy st (OtherCache m) = st m"

lemma any_trait:
  assumes "lawful_number N" and "cache_trait oo J st"
  shows "cache_trait (any_ops N wy oo) (any_ready N wy J) (any_stored N wy st)"
proof -
  note t = exact_cache.axioms(1) [OF typed_exact [OF assms(1), of wy]]
    and c = exact_cache.axioms(1) [OF conc_exact [OF assms(1), of wy]]
    and s = exact_cache.axioms(1) [OF sharded_exact [OF assms(1), of wy]]
    and o = assms(2)
  show ?thesis
  proof
    fix n and a :: "'b any_cache" and k v
    show "\<exists>r a'. cache_get (any_ops N wy oo) a k = Inr (r, a') \<and> any_ready N wy J n a'
        \<and> (r = None \<or> r = any_stored N wy st a k) \<and> forgets (any_stored N wy st a') (any_stored N wy st a)"
      if "any_ready N wy J n a"
      using that cache_trait.get_law [OF t, of n _ k] cache_trait.get_law [OF c, of n _ k]
        cache_trait.get_law [OF s, of n _ k] cache_trait.get_law [OF o, of n _ k]
      by (cases a) (fastforce simp: any_ops_def)+
    show "\<exists>a'. cache_insert (any_ops N wy oo) a k v = Inr a' \<and> any_ready N wy J n a'
        \<and> forgets (any_stored N wy st a') ((any_stored N wy st a)(k \<mapsto> v))"
      if "any_ready N wy J (Suc n) a"
      using that cache_trait.insert_law [OF t, of n _ k v] cache_trait.insert_law [OF c, of n _ k v]
        cache_trait.insert_law [OF s, of n _ k v] cache_trait.insert_law [OF o, of n _ k v]
      by (cases a) (fastforce simp: any_ops_def)+
    show "\<exists>a'. cache_settle (any_ops N wy oo) a = Inr a' \<and> any_ready N wy J n a'
        \<and> forgets (any_stored N wy st a') (any_stored N wy st a)"
      if "any_ready N wy J n a"
      using that cache_trait.settle_law [OF t, of n] cache_trait.settle_law [OF c, of n]
        cache_trait.settle_law [OF s, of n] cache_trait.settle_law [OF o, of n]
      by (cases a) (fastforce simp: any_ops_def)+
    show "any_ready N wy J n a" if "any_ready N wy J (Suc n) a"
      using that cache_trait.inv_less [OF t] cache_trait.inv_less [OF c] cache_trait.inv_less [OF s] cache_trait.inv_less [OF o]
      by (cases a) auto
  qed
qed

end
