(* ===== verification/Scenarios.thy ===== *)
theory Scenarios
  imports Evaluation
begin

text \<open>
  What the evaluation program computes (\<^verbatim>\<open>src/evaluation/src/main.rs\<close>, \<^verbatim>\<open>scenarios.rs\<close>): the caches it
  builds by name start empty and lawful, so its hit counts are meaningful, its scenarios never fail
  an assertion, and the numbers they print stay within what the access patterns allow.
\<close>

section \<open>Construction\<close>

text \<open>What is relied on of the other crates: a cache can be constructed and starts empty.\<close>

definition lawful_constructor :: "'o constructor \<Rightarrow> (nat \<Rightarrow> 'o \<Rightarrow> bool) \<Rightarrow> ('o \<Rightarrow> 't \<rightharpoonup> 't) \<Rightarrow> bool" where
  "lawful_constructor other J st \<longleftrightarrow>
     (\<forall>name capacity. 0 < capacity \<longrightarrow> (\<exists>m. other name capacity = Inr m \<and> (\<forall>n. J n m) \<and> st m = Map.empty))"

lemma encoded_empty [simp]: "encoded N 0 Map.empty" "decoded N Map.empty = Map.empty"
  by (simp_all add: number_inv_def number_stored_def fun_eq_iff)

lemma typed_new_cached:
  assumes "n \<le> 2 ^ 56"
  shows "\<exists>m. typed_new n = Inr m \<and> typed_ready N wy i m \<and> decoded N (raw_lookup wy (raw m)) = Map.empty"
  by (rule raw_new_ok [OF assms, of wy]) (simp add: typed_new_def typed_ready_def)

lemma conc_new_cached:
  assumes "n \<le> 2 ^ 53" and "i \<le> 2 ^ 54"
  shows "\<exists>c. conc_new n = Inr c \<and> conc_cached N wy i c \<and> decoded N (conc_lookup wy c) = Map.empty"
  by (rule conc_ready_start [OF assms, of False False wy]) (simp add: conc_new_def conc_cached_def)

lemma sharded_new_cached:
  assumes "n \<le> 2 ^ 53" and "i \<le> 2 ^ 54"
  shows "\<exists>m. sharded_new n = Inr m \<and> sharded_cached N wy i m \<and> decoded N (sharded_lookup wy m) = Map.empty"
proof -
  obtain m where "bindR (shards_from NUM_SHARDS n False) (\<lambda>ss. Inr \<lparr>shards = ss\<rparr>) = Inr m" "sharded_ready wy i m"
    "sharded_lookup wy m = Map.empty" "sharded_ttl m = 0" by (rule sharded_start [OF assms, of False wy])
  then show ?thesis by (intro exI [of _ m]) (simp add: sharded_new_def sharded_cached_def del: bindR_eq_Inr)
qed

definition candidates :: "string list" where
  "candidates = [''candidate-typed'', ''candidate-concurrent'', ''candidate-sharded'']"

lemma power_of_two: "is_power_of_two (2 ^ j)"
proof -
  have "(2::nat) ^ j AND (2 ^ j - 1) = take_bit j (2 ^ j)" by (simp add: take_bit_eq_mask mask_eq_exp_minus_1)
  then show ?thesis by (simp add: is_power_of_two_def)
qed

text \<open>Every name builds an empty cache; the maps of the crate need no assumption on the others.\<close>

lemma cache_ok:
  assumes "6 \<le> j" and "j \<le> 50" and "i \<le> 2 ^ 54" and "name \<in> set NAMES"
    and "lawful_constructor other J st \<or> name \<in> set candidates"
  shows "\<exists>c. cache other name (2 ^ j) = Inr c \<and> any_ready N wy J i c \<and> any_stored N wy st c = Map.empty"
proof -
  have big: "(64::nat) \<le> 2 ^ j" using power_increasing [OF assms(1), of "2::nat"] by simp
  have small: "(2::nat) ^ j \<le> 2 ^ 50" using assms(2) by (rule power_increasing) simp
  then have "(2::nat) ^ j div 4 \<le> 2 ^ 53" "(2::nat) ^ j div 64 \<le> 2 ^ 53" "(2::nat) ^ j div 4 \<le> 2 ^ 56" by simp_all
  note new = typed_new_cached [OF this(3), of N wy i] conc_new_cached [OF this(1) assms(3), of N wy]
    sharded_new_cached [OF this(2) assms(3), of N wy]
  have v: "validate_capacity (2 ^ j) = Inr ()" using big power_of_two [of j] by (simp add: validate_capacity_def assert_that_def)
  consider "name \<in> set candidates" | "name \<notin> set candidates" "lawful_constructor other J st" using assms(5) by blast
  then show ?thesis
  proof cases
    case 1
    obtain t c m where "typed_new (2 ^ j div 4) = Inr t" "conc_new (2 ^ j div 4) = Inr c" "sharded_new (2 ^ j div 64) = Inr m"
      and "any_ready N wy J i (TypedCache t)" "any_ready N wy J i (ConcCache c)" "any_ready N wy J i (ShardedCache m)"
      and "any_stored N wy st (TypedCache t) = Map.empty" "any_stored N wy st (ConcCache c) = Map.empty"
      and "any_stored N wy st (ShardedCache m) = Map.empty" using new by auto
    moreover from 1 have "name = ''candidate-typed'' \<or> name = ''candidate-concurrent'' \<or> name = ''candidate-sharded''"
      by (simp add: candidates_def)
    ultimately show ?thesis using v by (elim disjE) (simp_all add: cache_def shared_cache_def)
  next
    case 2
    then obtain m where "other name (2 ^ j) = Inr m" "\<forall>n. J n m" "st m = Map.empty"
      unfolding lawful_constructor_def by (meson pos2 zero_less_power)
    then show ?thesis using assms(4) 2(1) v by (auto simp: NAMES_def candidates_def cache_def shared_cache_def)
  qed
qed

lemma nothing_trait: "cache_trait oo (\<lambda>_ _. False) st"
  by unfold_locales simp_all

lemma any_exact:
  assumes "lawful_number N"
  shows "exact_cache (any_ops N wy oo) (any_ready N wy (\<lambda>_ _. False)) (any_stored N wy st)"
proof (rule exact_cache.intro [OF any_trait [OF assms nothing_trait]], unfold_locales)
  note t = typed_exact [OF assms, of wy] and c = conc_exact [OF assms, of wy] and s = sharded_exact [OF assms, of wy]
  fix n and a :: "'b any_cache" and k v
  show "r = any_stored N wy st a k \<and> any_stored N wy st a' = any_stored N wy st a"
    if "any_ready N wy (\<lambda>_ _. False) n a" "cache_get (any_ops N wy oo) a k = Inr (r, a')" for r a'
    using that exact_cache.get_exact [OF t] exact_cache.get_exact [OF c] exact_cache.get_exact [OF s]
    by (cases a) (fastforce simp: any_ops_def)+
  show "any_stored N wy st a' k = Some v"
    if "any_ready N wy (\<lambda>_ _. False) (Suc n) a" "cache_insert (any_ops N wy oo) a k v = Inr a'" for a'
    using that exact_cache.insert_keeps [OF t] exact_cache.insert_keeps [OF c] exact_cache.insert_keeps [OF s]
    by (cases a) (fastforce simp: any_ops_def)+
  show "cache_len (any_ops N wy oo) a = card (dom (any_stored N wy st a)) \<and> finite (dom (any_stored N wy st a))"
    if "any_ready N wy (\<lambda>_ _. False) n a"
    using that exact_cache.len_exact [OF t, of n] exact_cache.len_exact [OF c, of n] exact_cache.len_exact [OF s, of n]
    by (cases a) (simp_all add: any_ops_def)
qed

section \<open>Hit counts\<close>

lemma hits_ok:
  assumes "lawful_number N" and "cache_trait oo J st" and "cache other name capacity = Inr c"
    and "any_ready N wy J (length keys) c" and "any_stored N wy st c = Map.empty"
  shows "\<exists>h n. hits N wy oo other name capacity keys = Inr (h, n) \<and> h + card (number N ` set keys) \<le> length keys"
proof -
  note any = any_trait [OF assms(1,2), of wy]
  obtain h c1 where h: "hits_loop (any_ops N wy oo) (number N) keys c 0 = Inr (h, c1)" "any_ready N wy J 0 c1"
    "h + card (number N ` set keys) \<le> length keys"
    using cache_trait.hits_loop_ok [OF any, of keys 0 c "number N" 0] assms(4,5) by auto
  moreover obtain c2 where "cache_settle (any_ops N wy oo) c1 = Inr c2" using cache_trait.settle_law [OF any h(2)] by blast
  ultimately show ?thesis by (simp add: hits_def assms(3))
qed

lemma candidate_hits_ok:
  assumes "lawful_number N" and "cache other name capacity = Inr c"
    and "any_ready N wy (\<lambda>_ _. False) (length keys) c" and "any_stored N wy (\<lambda>_. Map.empty) c = Map.empty"
    and "hits N wy oo other name capacity keys = Inr (h, n)"
  shows "repeats (map (number N) keys) \<le> h \<and> n \<le> card (number N ` set keys) \<and> (keys \<noteq> [] \<longrightarrow> 0 < n)"
proof -
  let ?st = "any_stored N wy (\<lambda>_. Map.empty)" and ?J = "any_ready N wy (\<lambda>_ _. False)"
  note e = any_exact [OF assms(1), of wy oo "\<lambda>_. Map.empty"]
  note t = exact_cache.axioms(1) [OF e]
  obtain h1 c1 where h: "hits_loop (any_ops N wy oo) (number N) keys c 0 = Inr (h1, c1)" "?J 0 c1"
    "dom (?st c1) \<subseteq> number N ` set keys"
    using cache_trait.hits_loop_ok [OF t, of keys 0 c "number N" 0] assms(3,4) by auto
  have settle: "cache_settle (any_ops N wy oo) c1 = Inr c1"
    using h(2) by (cases c1) (simp_all add: any_ops_def typed_ops_def conc_ops_def sharded_ops_def)
  then have hn: "h = h1" "n = cache_len (any_ops N wy oo) c1" using assms(5) by (simp_all add: hits_def assms(2) h(1))
  have len: "n = card (dom (?st c1))" "finite (dom (?st c1))" using exact_cache.len_exact [OF e h(2)] hn(2) by simp_all
  have low: "repeats (map (number N) keys) \<le> h" "keys \<noteq> [] \<Longrightarrow> ?st c1 (number N (last keys)) \<noteq> None"
    using exact_cache.hits_at_least [OF e _ h(1), of 0] assms(3) hn(1) by auto
  have "n \<le> card (number N ` set keys)" unfolding len(1) by (rule card_mono [OF _ h(3)]) simp
  moreover have "0 < n" if "keys \<noteq> []" using low(2) [OF that] len by (auto simp: card_gt_0_iff)
  ultimately show ?thesis using low(1) by blast
qed

section \<open>Adaptation\<close>

abbreviation "words A \<equiv> (word_of_nat :: nat \<Rightarrow> u32) ` A"

lemma inj_words: "hi \<le> 2 ^ 32 \<Longrightarrow> inj_on (word_of_nat :: nat \<Rightarrow> u32) {lo..<hi}"
  by (rule inj_onI) (auto simp: word_of_nat_eq_iff take_bit_nat_eq_self)

lemma card_words: "hi \<le> 2 ^ 32 \<Longrightarrow> card (words {lo..<hi}) = hi - lo"
  using card_image [OF inj_words] by simp

lemma words_disjoint:
  assumes "b \<le> c" and "d \<le> 2 ^ 32"
  shows "words {a..<b} \<inter> words {c..<d} = {}"
proof -
  have "inj_on (word_of_nat :: nat \<Rightarrow> u32) {0..<d}" using assms(2) by (rule inj_words)
  moreover have "{a..<b} \<subseteq> {0..<d} \<or> {c..<d} = {}" "{c..<d} \<subseteq> {0..<d}" "{a..<b} \<inter> {c..<d} = {}" using assms(1) by auto
  ultimately show ?thesis by (metis image_empty inf_bot_right inj_on_image_Int)
qed

lemma hot_keys_set: "0 < hot \<Longrightarrow> 0 < rounds \<Longrightarrow> set (hot_keys start hot rounds) = words {start..<start + hot}"
proof -
  assume "0 < hot" "0 < rounds"
  then have "(\<lambda>i. start + i mod hot) ` {0..<hot * rounds} = {start..<start + hot}"
  proof (intro equalityI subsetI)
    fix x assume "x \<in> {start..<start + hot}"
    then have "x = start + (x - start) mod hot" "x - start < hot * rounds" using \<open>0 < hot\<close> \<open>0 < rounds\<close>
      by (auto intro: less_le_trans [of _ hot])
    then show "x \<in> (\<lambda>i. start + i mod hot) ` {0..<hot * rounds}" by (intro image_eqI [of _ _ "x - start"]) auto
  qed auto
  moreover have "set (hot_keys start hot rounds) = words ((\<lambda>i. start + i mod hot) ` {0..<hot * rounds})"
    by (simp only: hot_keys_def set_map set_upt image_image)
  ultimately show ?thesis by simp
qed

lemma hot_keys_length [simp]: "length (hot_keys start hot rounds) = hot * rounds"
  by (simp add: hot_keys_def)

lemma range_set: "set (u32_range lo hi) = words {lo..<hi}" "length (u32_range lo hi) = hi - lo"
  by (simp_all add: u32_range_def)

text \<open>
  The numbers of the four rows: the first round over a hot set only misses, a scan over keys never
  used before has no hit.
\<close>

fun rows_ok :: "nat \<Rightarrow> row list \<Rightarrow> bool" where
  "rows_ok capacity [(l1, o1, x1, n1), (l2, o2, x2, n2), (l3, o3, x3, n3), (l4, o4, x4, n4)] \<longleftrightarrow>
     (let hot = hot_size capacity in
      [l1, l2, l3, l4] = [''warm'', ''shift'', ''scan'', ''post_scan'']
      \<and> [o1, o2, o3, o4] = [hot * 100, hot * 100, capacity * 3, hot * 10]
      \<and> x1 \<le> hot * 99 \<and> x2 \<le> hot * 99 \<and> x3 = 0 \<and> x4 \<le> hot * 10)"
| "rows_ok capacity _ \<longleftrightarrow> False"

definition selfish :: "('t \<rightharpoonup> 't) \<Rightarrow> bool" where
  "selfish m \<longleftrightarrow> (\<forall>k v. m k = Some v \<longrightarrow> v = k)"

lemma adapt_phase_ok:
  assumes "cache_trait oo J st" and "any_ready number_u32 wy J (length keys + n) c"
    and "selfish (any_stored number_u32 wy st c)" and "dom (any_stored number_u32 wy st c) \<subseteq> D" and "finite D"
  obtains h m c' where "adapt_phase wy oo label keys c = Inr ((label, length keys, h, m), c')"
    and "any_ready number_u32 wy J n c'" and "selfish (any_stored number_u32 wy st c')"
    and "dom (any_stored number_u32 wy st c') \<subseteq> D \<union> set keys" and "h + card (set keys - D) \<le> length keys"
proof -
  let ?st = "any_stored number_u32 wy st"
  note t = any_trait [OF lawful_numbers(1) assms(1), of wy]
  obtain h c' where p: "phase (any_ops number_u32 wy oo) c keys = Inr (length keys, h, c')" "any_ready number_u32 wy J n c'"
    "h + card (set keys - dom (?st c)) \<le> length keys" "dom (?st c') \<subseteq> dom (?st c) \<union> set keys" "selfish (?st c')"
    using cache_trait.phase_ok [OF t assms(2) assms(3) [unfolded selfish_def]] unfolding selfish_def by blast
  have "card (set keys - D) \<le> card (set keys - dom (?st c))" by (rule card_mono) (use assms(4) in auto)
  then show thesis using that p assms(4) by (auto simp: adapt_phase_def)
qed

lemma adapt_one_ok:
  assumes law: "cache_trait oo J st" and small: "capacity \<le> 2 ^ 20" "4 \<le> capacity"
    and c: "any_ready number_u32 wy J (210 * hot_size capacity + capacity * 3) c" "any_stored number_u32 wy st c = Map.empty"
  shows "\<exists>rows. adapt_one wy oo capacity c = Inr rows \<and> rows_ok capacity rows"
proof -
  let ?hot = "hot_size capacity" and ?st = "any_stored number_u32 wy st"
  let ?k1 = "hot_keys 0 ?hot 100" and ?k2 = "hot_keys ?hot ?hot 100"
    and ?k3 = "u32_range (2 * ?hot) (2 * ?hot + capacity * 3)" and ?k4 = "hot_keys ?hot ?hot 10"
  have hot: "0 < ?hot" "?hot \<le> capacity" "2 * ?hot + capacity * 3 \<le> 2 ^ 32" using small by (auto simp: hot_size_def)
  have s1: "set ?k1 = words {0..<?hot}" and s2: "set ?k2 = words {?hot..<2 * ?hot}" using hot_keys_set hot(1) by auto
  let ?D2 = "words {0..<2 * ?hot}"
  have D2: "words {0..<?hot} \<union> words {?hot..<2 * ?hot} = ?D2" unfolding image_Un [symmetric] by (auto intro!: arg_cong [of _ _ "image _"])
  obtain h1 n1 c1 where p1: "adapt_phase wy oo ''warm'' ?k1 c = Inr ((''warm'', length ?k1, h1, n1), c1)"
    "any_ready number_u32 wy J (110 * ?hot + capacity * 3) c1" "selfish (?st c1)" "dom (?st c1) \<subseteq> {} \<union> set ?k1"
    "h1 + card (set ?k1 - {}) \<le> length ?k1"
    by (rule adapt_phase_ok [OF law, of wy ?k1 "110 * ?hot + capacity * 3" c "{}" "''warm''"])
      (use c in \<open>simp_all add: selfish_def\<close>)
  obtain h2 n2 c2 where p2: "adapt_phase wy oo ''shift'' ?k2 c1 = Inr ((''shift'', length ?k2, h2, n2), c2)"
    "any_ready number_u32 wy J (10 * ?hot + capacity * 3) c2" "selfish (?st c2)" "dom (?st c2) \<subseteq> set ?k1 \<union> set ?k2"
    "h2 + card (set ?k2 - set ?k1) \<le> length ?k2"
    by (rule adapt_phase_ok [OF law, of wy ?k2 "10 * ?hot + capacity * 3" c1 "set ?k1" "''shift''"])
      (use p1(2-4) in simp_all)
  obtain h3 n3 c3 where p3: "adapt_phase wy oo ''scan'' ?k3 c2 = Inr ((''scan'', length ?k3, h3, n3), c3)"
    "any_ready number_u32 wy J (10 * ?hot) c3" "selfish (?st c3)" "dom (?st c3) \<subseteq> ?D2 \<union> set ?k3"
    "h3 + card (set ?k3 - ?D2) \<le> length ?k3"
    by (rule adapt_phase_ok [OF law, of wy ?k3 "10 * ?hot" c2 ?D2 "''scan''"])
      (use p2(2-4) s1 s2 D2 in \<open>simp_all add: range_set add.commute\<close>)
  obtain h4 n4 c4 where p4: "adapt_phase wy oo ''post_scan'' ?k4 c3 = Inr ((''post_scan'', length ?k4, h4, n4), c4)"
    "h4 + card (set ?k4 - (?D2 \<union> set ?k3)) \<le> length ?k4"
    by (rule adapt_phase_ok [OF law, of wy ?k4 0 c3 "?D2 \<union> set ?k3" "''post_scan''"])
      (use p3(2-4) in \<open>simp_all add: mult.commute\<close>)
  have "card (set ?k1) = ?hot" unfolding s1 using card_words [of ?hot 0] hot by simp
  moreover have "set ?k2 - set ?k1 = set ?k2" "set ?k3 - ?D2 = set ?k3"
    using words_disjoint [of ?hot ?hot "2 * ?hot" 0] words_disjoint [of "2 * ?hot" "2 * ?hot" "2 * ?hot + capacity * 3" 0] hot(3)
    unfolding s1 s2 range_set by auto
  moreover have "card (set ?k2) = ?hot" "card (set ?k3) = capacity * 3"
    unfolding s2 range_set using card_words [of "2 * ?hot" ?hot] card_words [of "2 * ?hot + capacity * 3" "2 * ?hot"] hot by simp_all
  ultimately have "h1 \<le> ?hot * 99" "h2 \<le> ?hot * 99" "h3 = 0" "h4 \<le> ?hot * 10"
    using p1(5) p2(5) p3(5) p4(2) by (simp_all add: range_set)
  then show ?thesis using p1(1) p2(1) p3(1) p4(1) by (simp add: adapt_one_def Let_def range_set)
qed

lemma adapt_cache_ok:
  assumes "lawful_constructor other J st" and "capacity \<in> {4, 1024, 65536}" and "name \<in> set (adapt_names capacity)" and "i \<le> 2 ^ 54"
  shows "\<exists>c. adapt_cache other name capacity = Inr c \<and> any_ready number_u32 wy J i c \<and> any_stored number_u32 wy st c = Map.empty"
proof (cases "capacity = 4")
  case True
  have one: "(1::nat) \<le> 2 ^ 56" "(1::nat) \<le> 2 ^ 53" by simp_all
  have o: "\<exists>m. other name 4 = Inr m \<and> J i m \<and> st m = Map.empty"
    using assms(1) unfolding lawful_constructor_def by (meson zero_less_numeral)
  obtain t c m where "typed_new 1 = Inr t" "conc_new 1 = Inr c" "other name 4 = Inr m"
    and "any_ready number_u32 wy J i (TypedCache t)" "any_ready number_u32 wy J i (ConcCache c)" "any_ready number_u32 wy J i (OtherCache m)"
    and "any_stored number_u32 wy st (TypedCache t) = Map.empty" "any_stored number_u32 wy st (ConcCache c) = Map.empty"
    and "any_stored number_u32 wy st (OtherCache m) = Map.empty"
    using typed_new_cached [OF one(1), of number_u32 wy i] conc_new_cached [OF one(2) assms(4), of number_u32 wy] o by auto
  then show ?thesis using True by (simp add: adapt_cache_def)
next
  case False
  then obtain j where j: "capacity = 2 ^ j" "6 \<le> j" "j \<le> 50" using assms(2) that [of 10] that [of 16] by auto
  show ?thesis using cache_ok [OF j(2,3) assms(4), of name other J st number_u32 wy] assms(1,3) False
    by (simp add: adapt_cache_def adapt_names_def j(1))
qed

lemma adapt_all_ok:
  assumes "cache_trait oo J st" and "lawful_constructor other J st"
    and "\<forall>(capacity, name)\<in>set xs. capacity \<in> {4, 1024, 65536} \<and> name \<in> set (adapt_names capacity)"
  shows "\<exists>res. adapt_all wy oo other xs = Inr res \<and> list_all (\<lambda>(capacity, _, rows). rows_ok capacity rows) res"
  using assms(3)
proof (induction xs)
  case (Cons x xs)
  obtain capacity name where x: "x = (capacity, name)" "capacity \<in> {4, 1024, 65536}" "name \<in> set (adapt_names capacity)"
    using Cons.prems by (cases x) auto
  then have b: "210 * hot_size capacity + capacity * 3 \<le> 2 ^ 54" "capacity \<le> 2 ^ 20" "4 \<le> capacity" by (auto simp: hot_size_def)
  from adapt_cache_ok [OF assms(2) x(2,3) b(1), of wy] obtain c where c: "adapt_cache other name capacity = Inr c"
    "any_ready number_u32 wy J (210 * hot_size capacity + capacity * 3) c" "any_stored number_u32 wy st c = Map.empty" by blast
  from adapt_one_ok [OF assms(1) b(2,3) c(2,3)] Cons show ?case by (auto simp: x(1) c(1))
qed simp

section \<open>Boundary\<close>

lemma boundary_all_ok:
  assumes "cache_trait oo J st" and "lawful_constructor other J st" and "puts \<le> 2 ^ 32"
    and "\<forall>(b, name)\<in>set xs. (\<exists>j\<le>40. b = 2 ^ j) \<and> name \<in> set NAMES"
  shows "\<exists>res. boundary_all wy oo other puts xs = Inr res \<and> map (\<lambda>(b, name, _). (b, name)) res = xs"
  using assms(4)
proof (induction xs)
  case (Cons x xs)
  note t = any_trait [OF lawful_numbers(1) assms(1), of wy]
  obtain b name j where x: "x = (b, name)" "b = 2 ^ j" "j \<le> 40" "name \<in> set NAMES" using Cons.prems by (cases x) auto
  have "b * 64 = 2 ^ (j + 6)" by (simp add: x(2) power_add)
  then obtain c where c: "cache other name (b * 64) = Inr c" "any_ready number_u32 wy J puts c" "any_stored number_u32 wy st c = Map.empty"
    using cache_ok [of "j + 6" puts name other J st number_u32 wy] x(3,4) assms(2,3) by auto
  obtain c1 where c1: "insert_keys (any_ops number_u32 wy oo) (u32_range 0 puts) c = Inr c1" "any_ready number_u32 wy J 0 c1"
    "\<forall>k v. any_stored number_u32 wy st c1 k = Some v \<longrightarrow> v = k"
    using cache_trait.insert_keys_ok [OF t, of "u32_range 0 puts" 0 c] c(2,3) by (auto simp: range_set)
  obtain c2 where "verify_keys (any_ops number_u32 wy oo) (u32_range 0 puts) c1 = Inr c2"
    using cache_trait.verify_keys_ok [OF t c1(2,3)] by blast
  then have "\<exists>n. boundary_one wy oo other puts name b = Inr n" by (simp add: boundary_one_def c(1) c1(1))
  then show ?case using Cons by (auto simp: x(1))
qed simp

section \<open>Semantics\<close>

text \<open>With fewer than four entries, none of them about to expire, an insertion evicts nothing.\<close>

lemma raw_insert_room:
  assumes inv: "raw_inv wy m" and sz: "small_pair key val" and few: "raw_len m < 4"
    and live: "\<And>x v t. raw_lookup wy m x = Some (v, t) \<Longrightarrow> \<not> ttl_expired (current_epoch m + 1) (default_ttl m) t"
    and ins: "insert_internal wy m key val ttl = Inr m'" and new: "raw_lookup wy m key = None"
  shows "raw_lookup wy m' = (raw_lookup wy m)(key \<mapsto> (val, \<lparr>st_epoch = current_epoch m + 1, st_ttl = ttl\<rparr>))"
proof -
  let ?b = "bucket_ix m (wy key)"
  from inv obtain k C where g: "geometry m k" and cnt: "unat (count m) = card (dom C)"
    and C: "contents (buckets m) (pool m) = C" and t: "table_inv wy (bucket_ix m) (buckets m) (pool m) C"
    and l: "raw_lookup wy m = view (\<lambda>k. bucket_ix m (wy k)) C (slots_ttl m)"
    and ky: "keyed (\<lambda>k. bucket_ix m (wy k)) (buckets m) C" by (rule raw_invE)
  obtain i where i: "insert_target m C key ?b i"
    "raw_lookup wy m' = (without C (?b, i) (raw_lookup wy m))(key \<mapsto> (val, \<lparr>st_epoch = current_epoch m + 1, st_ttl = ttl\<rparr>))"
    using insert_internal_ok [OF inv sz, of ttl] ins by (auto simp: C)
  have "C (?b, i) = None"
  proof (rule ccontr)
    assume "C (?b, i) \<noteq> None"
    then obtain x v where x: "C (?b, i) = Some (x, v)" by (metis not_None_eq prod.exhaust)
    then have "raw_lookup wy m x = Some (v, slots_ttl m ! stamp_index (?b, i))" unfolding l view_Some [OF ky] by blast
    from live [OF this] new x i(1) have "\<forall>j<4. C (?b, j) \<noteq> None"
      unfolding insert_target_def l view_None [OF ky] by auto
    then have "(\<lambda>j. (?b, j)) ` {..<4} \<subseteq> dom C" by auto
    from card_mono [OF _ this] have "4 \<le> card (dom C)"
      using reprD(10) [OF inv_repr [OF t]] by (simp add: card_image inj_on_def)
    then show False using few cnt by (simp add: raw_len_def)
  qed
  then show ?thesis using i(2) by (simp add: without_def)
qed

lemma u32_insert_room:
  assumes "typed_ok wy m" and "typed_len m < 4" and "u32_lookup wy m k = None"
    and "\<And>x v t. u32_lookup wy m x = Some (v, t) \<Longrightarrow> \<not> ttl_expired (current_epoch (raw m) + 1) (default_ttl (raw m)) t"
    and "typed_insert key_u32 val_u32 wy m k v = Inr m'"
  shows "u32_lookup wy m' = (u32_lookup wy m)(k \<mapsto> (v, \<lparr>st_epoch = current_epoch (raw m) + 1, st_ttl = 0\<rparr>))"
proof -
  have ri: "raw_inv wy (raw m)" using assms(1) by (simp add: typed_inv_def)
  have ins: "insert_internal wy (raw m) (key_to_bytes key_u32 k) (val_to_bytes val_u32 v) 0 = Inr (raw m')"
    using assms(5) by (auto simp: typed_insert_def raw_insert_def)
  have live: "\<not> ttl_expired (current_epoch (raw m) + 1) (default_ttl (raw m)) t" if "raw_lookup wy (raw m) x = Some (vb, t)" for x vb t
  proof -
    obtain j w where "x = key_to_bytes key_u32 j" "vb = val_to_bytes val_u32 w" using assms(1) \<open>raw_lookup wy (raw m) x = Some (vb, t)\<close>
      unfolding typed_inv_def by blast
    then have "u32_lookup wy m j = Some (w, t)" using that by (simp add: typed_lookup_def vu32.val_roundtrip)
    then show ?thesis by (rule assms(4))
  qed
  have "raw_lookup wy (raw m') = (raw_lookup wy (raw m))(key_to_bytes key_u32 k \<mapsto>
      (val_to_bytes val_u32 v, \<lparr>st_epoch = current_epoch (raw m) + 1, st_ttl = 0\<rparr>))"
    by (rule raw_insert_room [OF ri _ _ live ins])
      (use assms(2,3) u32_lookup_None [OF assms(1), of k] in \<open>simp_all add: typed_len_def\<close>)
  then show ?thesis using ku32.key_inj by (auto simp: typed_lookup_def fun_eq_iff vu32.val_roundtrip)
qed

lemma typed_len_card:
  assumes "typed_ok wy m"
  shows "typed_len m = card (dom (u32_lookup wy m))"
proof -
  have "kb \<in> dom (raw_lookup wy (raw m)) \<longleftrightarrow> kb \<in> key_to_bytes key_u32 ` dom (u32_lookup wy m)" for kb
  proof
    assume k: "kb \<in> dom (raw_lookup wy (raw m))"
    then obtain j where "kb = key_to_bytes key_u32 j" using assms unfolding typed_inv_def by fastforce
    then show "kb \<in> key_to_bytes key_u32 ` dom (u32_lookup wy m)"
      using k u32_lookup_None [OF assms, of j] by (intro image_eqI [of _ _ j]) (auto simp: domIff)
  next
    assume "kb \<in> key_to_bytes key_u32 ` dom (u32_lookup wy m)"
    then obtain j where "kb = key_to_bytes key_u32 j" "u32_lookup wy m j \<noteq> None" by blast
    then show "kb \<in> dom (raw_lookup wy (raw m))" using u32_lookup_None [OF assms, of j] unfolding domIff by simp
  qed
  then have "dom (raw_lookup wy (raw m)) = key_to_bytes key_u32 ` dom (u32_lookup wy m)" by blast
  moreover have "inj_on (key_to_bytes key_u32) (dom (u32_lookup wy m))" using ku32.key_inj by (auto intro: inj_onI)
  ultimately show ?thesis using assms raw_bounds(1) [of wy "raw m"] by (simp add: typed_len_def card_image typed_inv_def)
qed

lemma u32_insert_known:
  assumes "typed_ok wy m" and "u32_lookup wy m k \<noteq> None"
  obtains m' where "typed_insert key_u32 val_u32 wy m k v = Inr m'" and "typed_ok wy m'"
    and "current_epoch (raw m') = current_epoch (raw m) + 1" and "default_ttl (raw m') = default_ttl (raw m)"
    and "u32_lookup wy m' = (u32_lookup wy m)(k \<mapsto> (v, \<lparr>st_epoch = current_epoch (raw m) + 1, st_ttl = 0\<rparr>))"
proof (rule u32_insert_ok [OF assms(1), of k v])
  fix m' victim
  assume m': "typed_insert key_u32 val_u32 wy m k v = Inr m'" "typed_ok wy m'"
    "current_epoch (raw m') = current_epoch (raw m) + 1" "default_ttl (raw m') = default_ttl (raw m)"
    "\<And>j. u32_lookup wy m' j = (if j = k then Some (v, \<lparr>st_epoch = current_epoch (raw m) + 1, st_ttl = 0\<rparr>)
       else if victim = Some j then None else u32_lookup wy m j)"
    and "victim \<noteq> None \<Longrightarrow> u32_lookup wy m k = None"
  then have "victim = None" using assms(2) by blast
  then have "u32_lookup wy m' = (u32_lookup wy m)(k \<mapsto> (v, \<lparr>st_epoch = current_epoch (raw m) + 1, st_ttl = 0\<rparr>))"
    using m'(5) by (simp add: fun_eq_iff)
  with m' show thesis by (intro that)
qed

lemma update_loop_ok:
  assumes "typed_ok wy m" and "u32_lookup wy m 2 \<noteq> None" and "u32_lookup wy m 1 = Some e"
  shows "\<exists>m'. insert_loop wy f (replicate n 2) m = Inr m' \<and> typed_ok wy m' \<and> u32_lookup wy m' 1 = Some e"
  using assms
proof (induction n arbitrary: m)
  case (Suc n)
  obtain m1 where m1: "typed_insert key_u32 val_u32 wy m 2 (f 2) = Inr m1" "typed_ok wy m1"
    "u32_lookup wy m1 = (u32_lookup wy m)(2 \<mapsto> (f 2, \<lparr>st_epoch = current_epoch (raw m) + 1, st_ttl = 0\<rparr>))"
    using u32_insert_known [OF Suc.prems(1,2), of "f 2"] by blast
  from Suc.IH [OF m1(2)] m1(1,3) Suc.prems(3) show ?case by simp
qed simp

lemma semantics_pass: "semantics_check wy = Inr ()"
proof -
  have "(16::nat) = 2 ^ 4" by simp
  then obtain m0 where m0: "typed_new 16 = Inr m0" "typed_ok wy m0" "u32_lookup wy m0 = Map.empty" "current_epoch (raw m0) = 0"
    by (rule new_u32) simp
  let ?m = "typed_set_ttl m0 1" and ?e1 = "(10::u32, \<lparr>st_epoch = 1, st_ttl = 0\<rparr>)"
  have m: "typed_ok wy ?m" "current_epoch (raw ?m) = 0" "default_ttl (raw ?m) = 1" "u32_lookup wy ?m = Map.empty"
    using set_ttl_frame [OF m0(2), of 1] m0(3,4) by simp_all
  obtain m1 where m1: "typed_insert key_u32 val_u32 wy ?m 1 10 = Inr m1" "typed_ok wy m1" "current_epoch (raw m1) = 1"
    "default_ttl (raw m1) = 1" using u32_insert_ok [OF m(1), of 1 10] m(2,3) by (metis add_0)
  have l1: "u32_lookup wy m1 = [1 \<mapsto> ?e1]"
    using u32_insert_room [OF m(1) _ _ _ m1(1)] m(2,4) typed_len_card [OF m(1)] by simp
  obtain m2 where m2: "typed_insert key_u32 val_u32 wy m1 2 20 = Inr m2" "typed_ok wy m2" "current_epoch (raw m2) = 2"
    "default_ttl (raw m2) = 1" using u32_insert_ok [OF m1(2), of 2 20] m1(3,4) by (metis one_add_one)
  have l2: "u32_lookup wy m2 = [1 \<mapsto> ?e1, 2 \<mapsto> (20, \<lparr>st_epoch = 2, st_ttl = 0\<rparr>)]"
  proof -
    have "\<not> ttl_expired (current_epoch (raw m1) + 1) (default_ttl (raw m1)) t" if "u32_lookup wy m1 x = Some (v, t)" for x v t
      using that by (auto simp: l1 m1(3,4) ttl_expired_def split: if_splits)
    from u32_insert_room [OF m1(2) _ _ this m2(1)] show ?thesis using m1(3) l1 typed_len_card [OF m1(2)] by simp
  qed
  have "typed_live m2 (u32_lookup wy m2 1) = Some 10" by (simp add: typed_live_def l2 m2(3,4) ttl_expired_def)
  then obtain m3 where m3: "typed_get key_u32 val_u32 wy m2 1 = Inr (Some 10, m3)" "typed_ok wy m3" "u32_lookup wy m3 = u32_lookup wy m2"
    "current_epoch (raw m3) = 2" "default_ttl (raw m3) = 1" using u32_get_ok [OF m2(2), of 1] m2(3,4) by metis
  obtain m4 where m4: "typed_insert key_u32 val_u32 wy m3 2 21 = Inr m4" "typed_ok wy m4" "current_epoch (raw m4) = 3"
    "default_ttl (raw m4) = 1" "u32_lookup wy m4 = (u32_lookup wy m3)(2 \<mapsto> (21, \<lparr>st_epoch = 3, st_ttl = 0\<rparr>))"
    by (rule u32_insert_known [OF m3(2), of 2 21]) (use m3(3-5) l2 in simp_all)
  have l4: "u32_lookup wy m4 = [1 \<mapsto> ?e1, 2 \<mapsto> (21, \<lparr>st_epoch = 3, st_ttl = 0\<rparr>)]" using m4(5) m3(3) l2 by simp
  have "typed_live m4 (u32_lookup wy m4 1) = None" by (simp add: typed_live_def l4 m4(3,4) ttl_expired_def)
  then obtain m5 where m5: "typed_get key_u32 val_u32 wy m4 1 = Inr (None, m5)" "typed_ok wy m5" "u32_lookup wy m5 = u32_lookup wy m4"
    using u32_get_ok [OF m4(2), of 1] by metis
  have len: "typed_len m5 = 2" using typed_len_card [OF m5(2)] by (simp add: m5(3) l4)
  obtain kvs where kvs: "typed_iter key_u32 val_u32 m5 = Inr kvs" "length kvs = 2"
    using typed_iter_ok [OF u32u32.typed_codec_axioms m5(2)] len by auto
  let ?m6 = "typed_set_ttl m5 0" and ?m7 = "typed_set_ttl (typed_set_ttl m5 0) 1"
  note m6 = set_ttl_frame [OF m5(2), of 0] and m7 = set_ttl_frame [OF set_ttl_frame(1) [OF m5(2), of 0], of 1]
  have peek6: "typed_peek key_u32 val_u32 wy ?m6 1 = Inr (Some 10)"
    using u32u32.typed_peek_ok [OF m6(1), of 1] by (simp add: typed_live_def m6(3,5) m5(3) l4 ttl_expired_def)
  obtain m8 t where m8: "typed_insert_ttl key_u32 val_u32 wy ?m7 1 11 (- 1) = Inr m8" "typed_ok wy m8"
    "u32_lookup wy m8 1 = Some (11, \<lparr>st_epoch = t, st_ttl = - 1\<rparr>)" "u32_lookup wy m8 2 \<noteq> None"
    using u32u32.typed_insert_ok [OF m7(1), of 1 11 "- 1"] by (auto simp: m7(5) m6(5) m5(3) l4)
  obtain m9 where m9: "insert_loop wy (\<lambda>_. 20) (replicate 10 2) m8 = Inr m9" "typed_ok wy m9"
    "u32_lookup wy m9 1 = Some (11, \<lparr>st_epoch = t, st_ttl = - 1\<rparr>)"
    using update_loop_ok [OF m8(2,4,3), of "\<lambda>_. 20" 10] by blast
  have "typed_peek key_u32 val_u32 wy m9 1 = Inr (Some 11)"
    using u32u32.typed_peek_ok [OF m9(2), of 1] by (simp add: typed_live_def m9(3) ttl_expired_def)
  then show ?thesis
    unfolding semantics_check_def Let_def
    by (simp only: m0(1) m1(1) m2(1) m3(1) m4(1) m5(1) len kvs peek6 m8(1) m9(1) bindR.simps prod.case assert_that_def if_True refl)
qed

section \<open>A cache that meets the laws\<close>

text \<open>A cache of one entry, to show that what is assumed of the other crates can hold.\<close>

definition slot_ops :: "(('t \<times> 't) option, 't) cache_ops" where
  "slot_ops =
     \<lparr>cache_get = (\<lambda>c k. Inr (case c of Some (x, v) \<Rightarrow> if x = k then Some v else None | None \<Rightarrow> None, c)),
      cache_insert = (\<lambda>c k v. Inr (Some (k, v))),
      cache_len = (\<lambda>c. case c of Some _ \<Rightarrow> 1 | None \<Rightarrow> 0), cache_settle = Inr\<rparr>"

definition slot_stored :: "('t \<times> 't) option \<Rightarrow> 't \<rightharpoonup> 't" where
  "slot_stored c k = (case c of Some (x, v) \<Rightarrow> if x = k then Some v else None | None \<Rightarrow> None)"

lemma slot_cache_lawful:
  "cache_trait slot_ops (\<lambda>_ _. True) slot_stored"
  "lawful_constructor (\<lambda>_ _. Inr None) (\<lambda>_ _. True) slot_stored"
proof -
  show "cache_trait slot_ops (\<lambda>_ _. True) slot_stored"
    by unfold_locales (auto simp: slot_ops_def slot_stored_def forgets_def split: option.split)
  show "lawful_constructor (\<lambda>_ _. Inr None) (\<lambda>_ _. True) slot_stored"
    by (simp add: lawful_constructor_def slot_stored_def fun_eq_iff)
qed

text \<open>What a hit counter reports, for any cache of the evaluation.\<close>

lemma hits_sane:
  assumes "cache_trait oo J st" and "lawful_constructor other J st" and "lawful_number N"
    and "name \<in> set NAMES" and "6 \<le> j" and "j \<le> 50" and "length keys \<le> 2 ^ 54"
  shows "\<exists>h n. hits N wy oo other name (2 ^ j) keys = Inr (h, n) \<and> h + card (number N ` set keys) \<le> length keys
     \<and> (name \<in> set candidates \<longrightarrow> repeats (map (number N) keys) \<le> h \<and> n \<le> card (number N ` set keys)
          \<and> (keys \<noteq> [] \<longrightarrow> 0 < n))"
proof -
  obtain c where c: "cache other name (2 ^ j) = Inr c" "any_ready N wy J (length keys) c" "any_stored N wy st c = Map.empty"
    using cache_ok [OF assms(5-7,4)] assms(2) by blast
  obtain h n where h: "hits N wy oo other name (2 ^ j) keys = Inr (h, n)" "h + card (number N ` set keys) \<le> length keys"
    using hits_ok [OF assms(3,1) c] by blast
  have "repeats (map (number N) keys) \<le> h \<and> n \<le> card (number N ` set keys) \<and> (keys \<noteq> [] \<longrightarrow> 0 < n)"
    if "name \<in> set candidates"
  proof -
    obtain d where "cache other name (2 ^ j) = Inr d" "any_ready N wy (\<lambda>_ _. False) (length keys) d"
      "any_stored N wy (\<lambda>_. Map.empty) d = Map.empty"
      using cache_ok [OF assms(5-7,4), of other "\<lambda>_ _. False" "\<lambda>_. Map.empty"] \<open>name \<in> set candidates\<close> by blast
    from candidate_hits_ok [OF assms(3) this h(1)] show ?thesis .
  qed
  with h show ?thesis by blast
qed

section \<open>Properties\<close>

text \<open>
  Hit counts are sane. For every cache name the evaluation knows, every power-of-two capacity from 64
  on and every trace, the hit counter runs to its end; each distinct key costs at least one miss. For
  the maps of the crate, moreover, every immediate repetition of a key is a hit, and the resident
  entries it reports are at most the distinct keys and, after a non-empty trace, not zero. Of the other
  crates it is assumed only that construction succeeds and that a lookup returns nothing but the value
  last inserted.
\<close>

theorem hit_counts_sane:
  assumes "cache_trait oo J st" and "lawful_constructor other J st" and "lawful_number N"
    and "name \<in> set NAMES" and "6 \<le> j" and "j \<le> 50" and "length keys \<le> 2 ^ 54"
  shows "\<exists>h n. hits N wy oo other name (2 ^ j) keys = Inr (h, n) \<and> h + card (number N ` set keys) \<le> length keys
     \<and> (name \<in> set candidates \<longrightarrow> repeats (map (number N) keys) \<le> h \<and> n \<le> card (number N ` set keys)
          \<and> (keys \<noteq> [] \<longrightarrow> 0 < n))"
  by (rule hits_sane [OF assms])

theorem hit_counts_sane_witness:
  "\<exists>h n. hits number_u32 demo_hash slot_ops (\<lambda>_ _. Inr None) ''candidate-typed'' (2 ^ 6) [5, 5, 6] = Inr (h, n) \<and> h = 1 \<and> 0 < n \<and> n \<le> 2"
proof -
  have "''candidate-typed'' \<in> set NAMES" "''candidate-typed'' \<in> set candidates" by (simp_all add: NAMES_def candidates_def)
  with hit_counts_sane [OF slot_cache_lawful lawful_numbers(1), of "''candidate-typed''" 6 "[5, 5, 6]" demo_hash]
  obtain h n where "hits number_u32 demo_hash slot_ops (\<lambda>_ _. Inr None) ''candidate-typed'' (2 ^ 6) [5, 5, 6] = Inr (h, n)"
    "h + card (number number_u32 ` set [5, 5, 6]) \<le> 3" "repeats (map (number number_u32) [5, 5, 6]) \<le> h"
    "n \<le> card (number number_u32 ` set [5, 5, 6])" "0 < n" by auto
  moreover have "map (number number_u32) [5, 5, 6] = [5, 5, 6]" "number number_u32 ` set [5, 5, 6] = {5, 6}"
    by (auto simp: number_u32_def)
  ultimately show ?thesis by simp
qed

text \<open>
  C26: the scenarios of the evaluation hold what they assert. For any hash function, in smoke mode or not,
  \<^verbatim>\<open>adaptation\<close> and \<^verbatim>\<open>boundary\<close> end on all caches without a failed assertion, the semantic checks of the typed
  map all pass, and the adaptation rows are as the access pattern demands: the first pass over a hot set
  misses, a scan over new keys has not a single hit.
\<close>

theorem evaluation_assertions_hold:
  assumes "cache_trait oo J st" and "lawful_constructor other J st"
  shows "(\<exists>res. adaptation wy oo other smoke = Inr res \<and> list_all (\<lambda>(capacity, _, rows). rows_ok capacity rows) res)
     \<and> (\<exists>res. boundary wy oo other smoke = Inr res \<and> length res = 6)
     \<and> semantics_check wy = Inr ()"
proof (intro conjI semantics_pass)
  show "\<exists>res. adaptation wy oo other smoke = Inr res \<and> list_all (\<lambda>(capacity, _, rows). rows_ok capacity rows) res"
    unfolding adaptation_def by (rule adapt_all_ok [OF assms]) auto
  let ?n = "if smoke then 4096 else 1000000 :: nat" and ?bs = "if smoke then [16, 32, 64] else [8192, 16384, 32768] :: nat list"
  let ?xs = "concat (map (\<lambda>b. map (Pair b) [''baseline-sharded'', ''candidate-sharded'']) ?bs)"
  have p: "\<exists>j\<le>40. b = 2 ^ j" if "b \<in> set ?bs" for b
  proof -
    have "b \<in> (\<lambda>j. 2 ^ j) ` {4, 5, 6, 13, 14, 15}" using that by (auto split: if_splits)
    then obtain j where "b = 2 ^ j" "j \<in> {4, 5, 6, 13, 14, 15}" by blast
    then show ?thesis by (intro exI [of _ j]) auto
  qed
  have "\<forall>(b, name)\<in>set ?xs. (\<exists>j\<le>40. b = 2 ^ j) \<and> name \<in> set NAMES" using p by (auto simp: NAMES_def)
  moreover have "?n \<le> 2 ^ 32" by simp
  ultimately obtain res where "boundary_all wy oo other ?n ?xs = Inr res" "map (\<lambda>(b, name, _). (b, name)) res = ?xs"
    using boundary_all_ok [OF assms] by blast
  moreover have "length ?xs = 6" by simp
  ultimately show "\<exists>res. boundary wy oo other smoke = Inr res \<and> length res = 6"
    unfolding boundary_def Let_def by (metis length_map)
qed

theorem evaluation_assertions_hold_witness:
  "(\<exists>res. adaptation demo_hash slot_ops (\<lambda>_ _. Inr None) True = Inr res)
   \<and> (\<exists>res. boundary demo_hash slot_ops (\<lambda>_ _. Inr None) True = Inr res \<and> length res = 6)"
  using evaluation_assertions_hold [OF slot_cache_lawful, of demo_hash True] by blast

end
