(* ===== verification/Contention.thy ===== *)
theory Contention
  imports Sharded_Live Scenarios
begin

text \<open>
  The scenario \<^verbatim>\<open>contention\<close> of the evaluation (\<^verbatim>\<open>src/evaluation/src/scenarios.rs\<close>) on the maps of the crate:
  one thread rewrites a single hot key, the other looks it up and takes the time, until the writer is
  done and enough samples are taken. Both threads run whole operations of the concurrent map, cut into the
  steps of \<open>Interleave\<close>; the barrier, the flag \<^verbatim>\<open>done\<close> and the sampling loop are steps of their own. The
  measured times are arbitrary. In the sharded map all operations are on the shard of the hot key, which
  is a concurrent map; then the other shards play no part.
\<close>

section \<open>The scenario\<close>

definition hot_key :: bytes where "hot_key = key_to_bytes key_u32 0"

definition hot_val :: bytes where "hot_val = val_to_bytes val_u32 0"

definition put_hot :: task where "put_hot = Call (Insert hot_key hot_val 0)"

definition get_hot :: task where "get_hot = Call (Get (with_key_bytes key_u32 0))"

definition MAX_SAMPLES :: nat where "MAX_SAMPLES = 1000000"

definition MIN_SAMPLES :: nat where "MIN_SAMPLES = 10000"

definition contention_writes :: "bool \<Rightarrow> nat" where
  "contention_writes smoke = (if smoke then 10000 else 1000000)"

text \<open>The cache by name with the hot key inserted; of the sharded map the shard of that key.\<close>

definition contention_map :: "(bytes \<Rightarrow> u64) \<Rightarrow> string \<Rightarrow> concurrent_map res" where
  "contention_map wy name =
     bindR (validate_capacity 1024) (\<lambda>_.
     if name = ''candidate-concurrent''
     then bindR (conc_new (1024 div 4)) (\<lambda>c. conc_insert key_u32 val_u32 wy c 0 0)
     else if name = ''candidate-sharded''
     then bindR (sharded_new (1024 div 64)) (\<lambda>m.
          bindR (sharded_insert key_u32 val_u32 wy m 0 0) (\<lambda>m. index (shards m) (shard_for wy hot_key)))
     else Inl AssertionFailed)"

text \<open>
  Positions: before the barrier, at the barrier, in the loop, in an operation, at the end. A lookup keeps
  its answer until its sample is recorded.
\<close>

datatype writer_pc = WStart | WReady | WRun thread_pc | WDone

datatype reader_pc = RStart | RReady | RLoop | RGet thread_pc "outcome option" | RExit

record contention =
  cmap :: concurrent_map
  writer :: writer_pc
  reader :: reader_pc
  done_flag :: bool
  samples :: "nat list"
  hit_count :: nat
  active :: nat

fun writer_at :: "writer_pc \<Rightarrow> thread_pc" where
  "writer_at (WRun pc) = pc"
| "writer_at _ = Ready []"

fun reader_at :: "reader_pc \<Rightarrow> thread_pc" where
  "reader_at (RGet pc v) = pc"
| "reader_at _ = Ready []"

abbreviation both :: "contention \<Rightarrow> thread_pc list" where
  "both s \<equiv> [writer_at (writer s), reader_at (reader s)]"

definition is_hit :: "bytes option \<Rightarrow> bool" where
  "is_hit r \<longleftrightarrow> Option.bind r (val_from_bytes val_u32) = Some 0"

inductive contention_step :: "(bytes \<Rightarrow> u64) \<Rightarrow> nat \<Rightarrow> contention \<Rightarrow> contention \<Rightarrow> bool" for wy writes where
  w_arrive: "writer s = WStart \<Longrightarrow> contention_step wy writes s (s\<lparr>writer := WReady\<rparr>)"
| w_go: "writer s = WReady \<Longrightarrow> reader s \<noteq> RStart \<Longrightarrow>
    contention_step wy writes s (s\<lparr>writer := WRun (Ready (replicate writes put_hot))\<rparr>)"
| w_step: "writer s = WRun pc \<Longrightarrow> thread_step wy (no_readers (both s)) (cmap s) pc c' pc' ev \<Longrightarrow>
    contention_step wy writes s (s\<lparr>cmap := c', writer := WRun pc'\<rparr>)"
| w_done: "writer s = WRun (Ready []) \<Longrightarrow> contention_step wy writes s (s\<lparr>writer := WDone, done_flag := True\<rparr>)"
| r_arrive: "reader s = RStart \<Longrightarrow> contention_step wy writes s (s\<lparr>reader := RReady\<rparr>)"
| r_go: "reader s = RReady \<Longrightarrow> writer s \<noteq> WStart \<Longrightarrow> contention_step wy writes s (s\<lparr>reader := RLoop\<rparr>)"
| r_full: "reader s = RLoop \<Longrightarrow> MAX_SAMPLES \<le> length (samples s) \<Longrightarrow>
    contention_step wy writes s (s\<lparr>reader := RExit\<rparr>)"
| r_break: "reader s = RLoop \<Longrightarrow> length (samples s) < MAX_SAMPLES \<Longrightarrow> running = (\<not> done_flag s) \<Longrightarrow>
    \<not> running \<and> MIN_SAMPLES \<le> length (samples s) \<Longrightarrow> contention_step wy writes s (s\<lparr>reader := RExit\<rparr>)"
| r_begin: "reader s = RLoop \<Longrightarrow> length (samples s) < MAX_SAMPLES \<Longrightarrow> running = (\<not> done_flag s) \<Longrightarrow>
    \<not> (\<not> running \<and> MIN_SAMPLES \<le> length (samples s)) \<Longrightarrow>
    contention_step wy writes s (s\<lparr>active := active s + of_bool running, reader := RGet (Ready [get_hot]) None\<rparr>)"
| r_step: "reader s = RGet pc v \<Longrightarrow> thread_step wy (no_readers (both s)) (cmap s) pc c' pc' ev \<Longrightarrow>
    contention_step wy writes s
      (s\<lparr>cmap := c', reader := RGet pc' (case ev of [] \<Rightarrow> v | (_, r) # _ \<Rightarrow> Some r)\<rparr>)"
| r_sample: "reader s = RGet (Ready []) (Some (Value r)) \<Longrightarrow>
    contention_step wy writes s
      (s\<lparr>hit_count := hit_count s + of_bool (is_hit r), samples := samples s @ [ns], reader := RLoop\<rparr>)"

definition contention_init :: "concurrent_map \<Rightarrow> contention" where
  "contention_init c = \<lparr>cmap = c, writer = WStart, reader = RStart, done_flag = False, samples = [], hit_count = 0, active = 0\<rparr>"

text \<open>After the threads are joined: the assertion, the median and the 99th percentile.\<close>

definition contention_report :: "nat list \<Rightarrow> nat \<Rightarrow> (nat \<times> nat) res" where
  "contention_report ns h =
     bindR (assert_that (h = length ns)) (\<lambda>_.
     let xs = sort ns; n = length xs in
     bindR (index xs ((99 * n + 99) div 100 - 1)) (\<lambda>p99.
     bindR (index xs (n div 2)) (\<lambda>p50. Inr (p50, p99))))"

section \<open>The hot key is always there\<close>

definition only_hot :: "(bytes \<Rightarrow> u64) \<Rightarrow> concurrent_map \<Rightarrow> bool" where
  "only_hot wy c \<longleftrightarrow> c_default_ttl c = 0 \<and> (\<exists>e. conc_lookup wy c = [hot_key \<mapsto> (hot_val, \<lparr>st_epoch = e, st_ttl = 0\<rparr>)])"

definition hot_tasks :: "thread_pc \<Rightarrow> bool" where
  "hot_tasks pc \<longleftrightarrow> set (todo pc) \<subseteq> {put_hot, get_hot}"

lemma get_hot_key: "get_hot = Call (Get hot_key)"
  by (simp add: get_hot_def hot_key_def key_codec.key_view [OF typed_codec.axioms(1) [OF u32u32.typed_codec_axioms]])

lemma hot_key_view: "with_key_bytes key_u32 0 = hot_key"
  using get_hot_key by (simp add: get_hot_def)

lemma hot_task_ok: "task_ok put_hot" "task_ok get_hot"
  using u32u32.typed_codec_axioms
  by (auto simp: put_hot_def get_hot_def task_ok_def hot_key_def hot_val_def)

lemma hot_hit: "is_hit (Some hot_val)"
  by (simp add: is_hit_def hot_val_def vu32.val_roundtrip)

lemma hot_effect:
  assumes e: "effect wy c c' ev" and h: "only_hot wy c" and ev: "set (map fst ev) \<subseteq> {Insert hot_key hot_val 0, Get hot_key}"
  shows "only_hot wy c'" and "(Get hot_key, r) \<in> set ev \<Longrightarrow> r = Value (Some hot_val)"
proof -
  obtain x where x: "conc_lookup wy c = [hot_key \<mapsto> (hot_val, \<lparr>st_epoch = x, st_ttl = 0\<rparr>)]" "c_default_ttl c = 0"
    using h by (auto simp: only_hot_def)
  have "only_hot wy c' \<and> ((Get hot_key, r) \<in> set ev \<longrightarrow> r = Value (Some hot_val))"
    using e
  proof (cases "(wy, c, c', ev)" rule: effect.cases)
    case (1 wy' d d')
    then show ?thesis using e x by (auto simp: only_hot_def same_config_def)
  next
    case (2 wy' d d' cmd q)
    then have same: "c_default_ttl c' = 0" and s: "section_effect wy c c' cmd q" using e x by (auto simp: same_config_def)
    have "cmd = Insert hot_key hot_val 0 \<or> cmd = Get hot_key" using ev 2 by auto
    then show ?thesis
    proof
      assume cmd: "cmd = Insert hot_key hot_val 0"
      then have "q = Done" using s by (cases q) auto
      then show ?thesis using s cmd same x 2 by (auto simp: only_hot_def stored_after_def split: option.splits if_splits)
    next
      assume cmd: "cmd = Get hot_key"
      then obtain v where q: "q = Value v" using s by (cases q) auto
      have "v = Some hot_val" using s cmd q x by (simp add: live_value_def ttl_expired_def)
      then show ?thesis using s cmd same x 2 q by (auto simp: only_hot_def)
    qed
  qed (use e in auto)
  then show "only_hot wy c'" "(Get hot_key, r) \<in> set ev \<Longrightarrow> r = Value (Some hot_val)" by blast+
qed

section \<open>Invariant\<close>

fun reader_ok :: "reader_pc \<Rightarrow> nat \<Rightarrow> bool" where
  "reader_ok (RGet pc v) n \<longleftrightarrow> n < MAX_SAMPLES \<and>
     (if v = None then todo pc = [get_hot] else todo pc = [] \<and> v = Some (Value (Some hot_val)))"
| "reader_ok RExit n \<longleftrightarrow> MIN_SAMPLES \<le> n \<and> n \<le> MAX_SAMPLES"
| "reader_ok _ n \<longleftrightarrow> n \<le> MAX_SAMPLES"

definition contention_inv :: "(bytes \<Rightarrow> u64) \<Rightarrow> contention \<Rightarrow> bool" where
  "contention_inv wy s \<longleftrightarrow> (\<exists>k. sys_ok wy (cmap s) k (both s)) \<and> only_hot wy (cmap s)
     \<and> set (todo (writer_at (writer s))) \<subseteq> {put_hot} \<and> reader_ok (reader s) (length (samples s))
     \<and> hit_count s = length (samples s) \<and> (writer s = WDone \<longleftrightarrow> done_flag s)"

lemma only_hot_len:
  assumes "map_ok wy c k" and "only_hot wy c"
  shows "conc_len c \<le> 2 ^ 54"
proof -
  from assms(1) obtain C where "conc_tab wy c k C" by (rule map_okE)
  from conc_tab_len(1) [OF this] show ?thesis using assms(2) by (auto simp: only_hot_def)
qed

lemma tasks_events:
  assumes "thread_step wy nr c pc c' pc' ev" and "set (todo pc) \<subseteq> {put_hot, get_hot}"
  shows "set (map fst ev) \<subseteq> {Insert hot_key hot_val 0, Get hot_key}"
proof
  fix cmd assume "cmd \<in> set (map fst ev)"
  then have "cmd \<in> set (ops (todo pc))" using thread_step_todo [OF assms(1)] by simp
  then obtain tk where "tk \<in> set (todo pc)" "op_of tk = Some cmd" by (auto simp: List.map_filter_def)
  then show "cmd \<in> {Insert hot_key hot_val 0, Get hot_key}" using assms(2) by (auto simp: put_hot_def get_hot_key)
qed

text \<open>A step of either thread inside an operation.\<close>

lemma hot_thread_step:
  assumes inv: "sys_ok wy c k ps" "only_hot wy c" and t: "t < length ps"
    and st: "thread_step wy (no_readers ps) c (ps ! t) c' pc' ev" and td: "set (todo (ps ! t)) \<subseteq> {put_hot, get_hot}"
  shows "\<exists>k'. sys_ok wy c' k' (ps[t := pc'])" and "only_hot wy c'"
    and "(Get hot_key, r) \<in> set ev \<Longrightarrow> r = Value (Some hot_val)"
proof -
  note ok = thread_step_ok [OF st inv(1) t only_hot_len [OF sys_okD(1) [OF inv(1)] inv(2)]]
  show "\<exists>k'. sys_ok wy c' k' (ps[t := pc'])" using ok by blast
  have e: "effect wy c c' ev" using ok by blast
  show "only_hot wy c'" "(Get hot_key, r) \<in> set ev \<Longrightarrow> r = Value (Some hot_val)"
    using hot_effect [OF e inv(2) tasks_events [OF st td]] by blast+
qed

text \<open>A move outside the operations keeps the map; only the tasks to come may change.\<close>

lemma sys_ok_idle:
  assumes "sys_ok wy c k ps" and "t < length ps" and "ps ! t = Ready []" and "list_all task_ok ts"
  shows "sys_ok wy c k (ps[t := Ready ts])"
  by (rule sys_ok_move [OF assms(1,2) sys_okD(1) [OF assms(1)] refl refl]) (use assms(3,4) in auto)

lemma lookup_step:
  assumes "thread_step wy nr c pc c' pc' ev" and "if v = None then todo pc = [get_hot] else todo pc = [] \<and> v = Some (Value (Some hot_val))"
    and hit: "\<And>r. (Get hot_key, r) \<in> set ev \<Longrightarrow> r = Value (Some hot_val)"
  defines "v' \<equiv> case ev of [] \<Rightarrow> v | (_, r) # _ \<Rightarrow> Some r"
  shows "if v' = None then todo pc' = [get_hot] else todo pc' = [] \<and> v' = Some (Value (Some hot_val))"
proof -
  have t: "ops (todo pc) = map fst ev @ ops (todo pc')" "length (todo pc') + length ev \<le> length (todo pc)"
    using thread_step_todo [OF assms(1)] by auto
  have sub: "set (todo pc') \<subseteq> set (todo pc)" by (rule todo_subset [OF assms(1)])
  show ?thesis
  proof (cases ev)
    case Nil
    show ?thesis
    proof (cases "v = None")
      case True
      then have "todo pc = [get_hot]" using assms(2) by simp
      then have "ops (todo pc') = [Get hot_key]" "length (todo pc') \<le> 1" "set (todo pc') \<subseteq> {get_hot}"
        using t sub Nil by (simp_all add: get_hot_key map_filter_simps)
      then have "todo pc' = [get_hot]" by (cases "todo pc'") (auto simp: map_filter_simps)
      then show ?thesis using True Nil by (simp add: v'_def)
    qed (use assms(2) t Nil in \<open>simp add: v'_def\<close>)
  next
    case (Cons e es)
    then have pc: "todo pc = [get_hot]" using assms(2) t(2) by (auto split: if_splits)
    then have ev: "ev = [(Get hot_key, snd e)]" "todo pc' = []" using t Cons by (cases e; simp add: get_hot_key map_filter_simps)+
    then show ?thesis using hit [of "snd e"] by (simp add: v'_def)
  qed
qed

lemma contention_step_inv:
  assumes "contention_step wy writes s s'" and inv: "contention_inv wy s"
  shows "contention_inv wy s'"
proof -
  obtain k where k: "sys_ok wy (cmap s) k (both s)" and hot: "only_hot wy (cmap s)"
    and w: "set (todo (writer_at (writer s))) \<subseteq> {put_hot}" and r: "reader_ok (reader s) (length (samples s))"
    and h: "hit_count s = length (samples s)" "writer s = WDone \<longleftrightarrow> done_flag s"
    using inv unfolding contention_inv_def by blast
  note idle = sys_ok_idle [OF k] and step = hot_thread_step [OF k hot]
  from assms(1) show ?thesis
  proof cases
    case w_go
    have "sys_ok wy (cmap s) k ((both s)[0 := Ready (replicate writes put_hot)])"
      by (rule idle) (use w_go hot_task_ok in \<open>auto simp: list_all_iff\<close>)
    then show ?thesis using w_go hot r h by (auto simp: contention_inv_def)
  next
    case (w_step pc c' pc' ev)
    have td: "set (todo ((both s) ! 0)) \<subseteq> {put_hot, get_hot}" using w by auto
    have "thread_step wy (no_readers (both s)) (cmap s) ((both s) ! 0) c' pc' ev" using w_step by simp
    note st = step [OF _ this td]
    then show ?thesis using w_step r h w todo_subset [OF w_step(3)] by (auto simp: contention_inv_def)
  next
    case (r_begin running)
    have "sys_ok wy (cmap s) k ((both s)[1 := Ready [get_hot]])"
      by (rule idle) (use r_begin hot_task_ok in auto)
    then show ?thesis using r_begin hot w h by (auto simp: contention_inv_def)
  next
    case (r_step pc v c' pc' ev)
    have td: "set (todo ((both s) ! 1)) \<subseteq> {put_hot, get_hot}" using r r_step(2) by (auto split: if_splits)
    have "thread_step wy (no_readers (both s)) (cmap s) ((both s) ! 1) c' pc' ev" using r_step by simp
    note st = step [OF _ this td]
    have "reader_ok (RGet pc' (case ev of [] \<Rightarrow> v | (_, r) # _ \<Rightarrow> Some r)) (length (samples s))"
      using lookup_step [OF r_step(3) _ st(3), of v] r r_step(2) by simp
    then show ?thesis using r_step w h st(1,2) by (auto simp: contention_inv_def)
  next
    case (r_sample q ns)
    then show ?thesis using inv hot_hit by (auto simp: contention_inv_def)
  qed (use inv in \<open>auto simp: contention_inv_def MAX_SAMPLES_def MIN_SAMPLES_def\<close>)
qed

section \<open>Progress\<close>

fun writer_work :: "nat \<Rightarrow> writer_pc \<Rightarrow> nat" where
  "writer_work writes WStart = task_steps * writes + 3"
| "writer_work writes WReady = task_steps * writes + 2"
| "writer_work writes (WRun pc) = work_left pc + 1"
| "writer_work writes WDone = 0"

fun reader_work :: "nat \<Rightarrow> reader_pc \<Rightarrow> nat" where
  "reader_work n RStart = (task_steps + 2) * n + 3"
| "reader_work n RReady = (task_steps + 2) * n + 2"
| "reader_work n RLoop = (task_steps + 2) * n + 1"
| "reader_work n (RGet pc v) = (task_steps + 2) * (n - 1) + work_left pc + 2"
| "reader_work n RExit = 0"

definition contention_work :: "nat \<Rightarrow> contention \<Rightarrow> nat" where
  "contention_work writes s = writer_work writes (writer s) + reader_work (MAX_SAMPLES - length (samples s)) (reader s)"

lemma contention_step_work:
  assumes "contention_step wy writes s s'"
  shows "contention_work writes s' < contention_work writes s"
  using assms
proof cases
  case (w_step pc c' pc' ev)
  then show ?thesis using thread_step_work [OF w_step(3)] by (simp add: contention_work_def)
next
  case (r_step pc v c' pc' ev)
  then show ?thesis using thread_step_work [OF r_step(3)] by (simp add: contention_work_def)
next
  case (r_begin running)
  then obtain d where "MAX_SAMPLES - length (samples s) = Suc d" by (metis Suc_diff_Suc)
  then show ?thesis using r_begin by (simp add: contention_work_def)
qed (auto simp: contention_work_def)

lemma contention_progress:
  assumes inv: "contention_inv wy s" and "\<not> (writer s = WDone \<and> reader s = RExit)"
  shows "\<exists>s'. contention_step wy writes s s'"
proof -
  obtain k where k: "sys_ok wy (cmap s) k (both s)" and r: "reader_ok (reader s) (length (samples s))"
    using inv unfolding contention_inv_def by blast
  have running: ?thesis if t: "t < 2" "both s ! t \<noteq> Ready []" for t
  proof -
    obtain u c' pc' ev where u: "u < 2" "thread_step wy (no_readers (both s)) (cmap s) (both s ! u) c' pc' ev"
      using some_thread_steps [OF k, of t] t by (auto simp: numeral_2_eq_2)
    have busy: "both s ! u \<noteq> Ready []" using u(2) finished_stays by metis
    consider "u = 0" | "u = 1" using u(1) by linarith
    then show ?thesis
    proof cases
      case 1
      then obtain pc where "writer s = WRun pc" using busy by (cases "writer s") auto
      then show ?thesis using contention_step.w_step u(2) 1 by fastforce
    next
      case 2
      then obtain pc v where "reader s = RGet pc v" using busy by (cases "reader s") auto
      then show ?thesis using contention_step.r_step u(2) 2 by fastforce
    qed
  qed
  show ?thesis
  proof (cases "\<exists>t<2. both s ! t \<noteq> Ready []")
    case False
    then have idle: "writer_at (writer s) = Ready []" "reader_at (reader s) = Ready []" by (auto simp: numeral_2_eq_2 less_Suc_eq)
    show ?thesis
    proof (cases "reader s")
      case RStart
      then show ?thesis using contention_step.r_arrive by blast
    next
      case RReady
      then show ?thesis using contention_step.r_go contention_step.w_arrive by (cases "writer s = WStart") blast+
    next
      case RLoop
      then show ?thesis using contention_step.r_full contention_step.r_break contention_step.r_begin by (meson not_le)
    next
      case (RGet pc v)
      then have "pc = Ready []" "v = Some (Value (Some hot_val))" using idle(2) r by (auto split: if_splits)
      then show ?thesis using RGet contention_step.r_sample by blast
    next
      case RExit
      then have "writer s \<noteq> WDone" using assms(2) by simp
      then consider "writer s = WStart" | "writer s = WReady" | "writer s = WRun (Ready [])" using idle(1) by (cases "writer s") auto
      then show ?thesis
      proof cases
        case 2
        from contention_step.w_go [OF this] RExit show ?thesis by (metis reader_pc.distinct(7))
      qed (use contention_step.w_arrive contention_step.w_done in blast)+
    qed
  qed (use running in blast)
qed

lemma contention_runs:
  assumes "(contention_step wy writes ^^ j) s s'" and "contention_inv wy s"
  shows "contention_inv wy s' \<and> j + contention_work writes s' \<le> contention_work writes s"
  using assms(1)
proof (induction j arbitrary: s')
  case 0
  then show ?case using assms(2) by simp
next
  case (Suc j)
  then obtain s1 where "(contention_step wy writes ^^ j) s s1" "contention_step wy writes s1 s'" by auto
  then show ?case using Suc.IH [of s1] contention_step_inv contention_step_work [of wy writes s1 s'] by fastforce
qed

lemma contention_ends: "\<exists>j s'. (contention_step wy writes ^^ j) s s' \<and> (\<nexists>s''. contention_step wy writes s' s'')"
proof (induction "contention_work writes s" arbitrary: s rule: less_induct)
  case less
  show ?case
  proof (cases "\<exists>s1. contention_step wy writes s s1")
    case True
    then obtain s1 where s1: "contention_step wy writes s s1" by blast
    from less [OF contention_step_work [OF s1]] obtain j s' where
      "(contention_step wy writes ^^ j) s1 s'" "\<nexists>s''. contention_step wy writes s' s''" by blast
    then show ?thesis using relpowp_Suc_I2 [of "contention_step wy writes" s s1 j s', OF s1] by blast
  next
    case False
    then show ?thesis by (intro exI [of _ 0] exI [of _ s]) simp
  qed
qed

section \<open>The start\<close>

text \<open>The map the threads start on: one entry, the hot key.\<close>

lemma hot_start:
  assumes "with_config n False sharded = Inr c" and "n \<le> 2 ^ 53"
  shows "\<exists>c'. conc_insert key_u32 val_u32 wy c 0 0 = Inr c' \<and> (\<exists>k. sys_ok wy c' k [Ready [], Ready []]) \<and> only_hot wy c'"
proof -
  note new = new_map_ready [OF assms] and cfg = assms(1)
  have flags: "\<not> auto_resize c" "c_default_ttl c = 0" using cfg by (auto simp: with_config_def split: sum.splits)
  have "conc_ready wy 1 c" using new(1) flags(1) by (simp add: conc_ready_def)
  moreover have "small_pair hot_key hot_val" using hot_task_ok by (simp add: put_hot_def task_ok_def)
  ultimately obtain c' victim where c': "conc_insert_internal wy c hot_key hot_val 0 = Inr c'" "conc_ready wy 0 c'"
    "conc_lookup wy c' = stored_after (conc_lookup wy c) victim hot_key (hot_val, \<lparr>st_epoch = c_epoch c + 1, st_ttl = 0\<rparr>)"
    "same_config c c'" "conc_num_buckets c' = (if auto_resize c \<and> load_exceeded c then 2 * conc_num_buckets c else conc_num_buckets c)"
    using conc_insert_law [of wy 0 c hot_key hot_val 0] by auto
  have "only_hot wy c'" using c'(3,4) new(2) flags(2)
    by (auto simp: only_hot_def same_config_def stored_after_def split: option.splits)
  moreover from c'(2) obtain k C where k: "conc_tab wy c' k C" "mi_locks (inner c') = locks_new (2 ^ k)"
    "buffer_inv (c_buffer c')" "\<forall>(b, i)\<in>set (pending (c_buffer c')). b < 2 ^ k \<and> i < 4"
    by (auto simp: conc_ready_def elim: conc_invE)
  have "(2::nat) ^ k \<le> 2 ^ 54" using conc_tab_buckets [OF k(1)] c'(5) new(4) flags(1) by simp
  then have "k \<le> 54" by (rule power_le_imp_le_exp [rotated]) simp
  then have "map_ok wy c' k" using k new(3) c'(4) by (auto simp: map_ok_def same_config_def)
  moreover have "locks_ok (mi_locks (inner c')) (2 ^ k) [Ready [], Ready []]" unfolding k(2) by (rule locks_ok_new) simp
  ultimately show ?thesis using c'(1) by (auto simp: sys_ok_def conc_insert_def hot_key_def hot_val_def)
qed

lemma contention_map_ok:
  assumes "name \<in> {''candidate-concurrent'', ''candidate-sharded''}"
  obtains c k where "contention_map wy name = Inr c" and "sys_ok wy c k [Ready [], Ready []]" and "only_hot wy c"
proof -
  have v: "validate_capacity 1024 = Inr ()"
    using power_of_two [of 10] by (simp add: validate_capacity_def assert_that_def)
  show thesis
  proof (cases "name = ''candidate-concurrent''")
    case True
    have n: "(256::nat) \<le> 2 ^ 53" "(0::nat) \<le> 2 ^ 54" by simp_all
    obtain c where "conc_new 256 = Inr c" unfolding conc_new_def by (rule conc_ready_start [OF n, of False False wy])
    with hot_start [of 256 False c wy] that v True show ?thesis by (auto simp: contention_map_def conc_new_def)
  next
    case False
    have n: "(16::nat) \<le> 2 ^ 53" "(0::nat) \<le> 2 ^ 54" by simp_all
    obtain c where c: "with_config 16 False True = Inr c" by (rule conc_ready_start [OF n, of False True wy])
    then have m: "sharded_new 16 = Inr \<lparr>shards = replicate 16 c\<rparr>"
      using shards_from_eq [of 16 False c NUM_SHARDS] by (simp add: sharded_new_def new_shard_def NUM_SHARDS_def)
    obtain c' k where c': "conc_insert key_u32 val_u32 wy c 0 0 = Inr c'" "sys_ok wy c' k [Ready [], Ready []]" "only_hot wy c'"
      using hot_start [OF c, of wy] by auto
    have "sharded_insert key_u32 val_u32 wy \<lparr>shards = replicate 16 c\<rparr> 0 0 = Inr \<lparr>shards = (replicate 16 c)[shard_for wy hot_key := c']\<rparr>"
      using c'(1) by (simp add: sharded_insert_def hot_key_view on_shard_def index_ok Let_def)
    then have "contention_map wy name = Inr c'" using v m False assms by (simp add: contention_map_def index_ok)
    then show ?thesis using that c' by blast
  qed
qed

section \<open>Percentiles\<close>

lemma count_upto:
  fixes xs :: "nat list"
  assumes "sorted xs" and "i < length xs"
  shows "i < length (filter (\<lambda>x. x \<le> xs ! i) xs)" and "length (filter (\<lambda>x. x < xs ! i) xs) \<le> i"
proof -
  have below: "\<forall>x\<in>set (take (Suc i) xs). x \<le> xs ! i"
    using assms by (auto simp: in_set_conv_nth sorted_iff_nth_mono)
  have above: "\<forall>x\<in>set (drop i xs). \<not> x < xs ! i"
    using assms by (auto simp: in_set_conv_nth sorted_iff_nth_mono leD)
  have "filter (\<lambda>x. x \<le> xs ! i) xs = take (Suc i) xs @ filter (\<lambda>x. x \<le> xs ! i) (drop (Suc i) xs)"
    using below by (metis append_take_drop_id filter_append filter_True)
  then show "i < length (filter (\<lambda>x. x \<le> xs ! i) xs)" using assms(2) by simp
  have "filter (\<lambda>x. x < xs ! i) xs = filter (\<lambda>x. x < xs ! i) (take i xs)"
    using above by (metis append_take_drop_id filter_append filter_False append_Nil2)
  then show "length (filter (\<lambda>x. x < xs ! i) xs) \<le> i" using length_filter_le [of _ "take i xs"] assms(2)
    by (metis length_take min.absorb4)
qed

lemma filter_sort: "length (filter P (sort xs)) = length (filter P (xs :: nat list))"
  by (metis mset_filter mset_sort size_mset)

text \<open>The report names the smallest sample that at least 99 of 100 samples do not exceed.\<close>

lemma report_ok:
  assumes "ns \<noteq> []"
  shows "\<exists>p50 p99. contention_report ns (length ns) = Inr (p50, p99)
     \<and> 99 * length ns \<le> 100 * length (filter (\<lambda>x. x \<le> p99) ns) \<and> 100 * length (filter (\<lambda>x. x < p99) ns) < 99 * length ns
     \<and> length ns < 2 * length (filter (\<lambda>x. x \<le> p50) ns) \<and> 2 * length (filter (\<lambda>x. x < p50) ns) \<le> length ns"
proof -
  let ?n = "length ns" and ?xs = "sort ns"
  let ?i = "(99 * ?n + 99) div 100 - 1"
  have n: "0 < ?n" using assms by simp
  then have i: "?i < length ?xs" "99 * ?n \<le> 100 * Suc ?i" "100 * ?i < 99 * ?n" by (simp_all, linarith+)
  have j: "?n div 2 < length ?xs" using n by simp
  have c: "?i < length (filter (\<lambda>x. x \<le> ?xs ! ?i) ns)" "length (filter (\<lambda>x. x < ?xs ! ?i) ns) \<le> ?i"
    "?n div 2 < length (filter (\<lambda>x. x \<le> ?xs ! (?n div 2)) ns)" "length (filter (\<lambda>x. x < ?xs ! (?n div 2)) ns) \<le> ?n div 2"
    using count_upto [OF sorted_sort i(1)] count_upto [OF sorted_sort j] unfolding filter_sort by blast+
  have "contention_report ns ?n = Inr (?xs ! (?n div 2), ?xs ! ?i)"
    using i(1) j by (simp add: contention_report_def assert_that_def index_ok Let_def)
  then show ?thesis using c i by (intro exI [of _ "?xs ! (?n div 2)"] exI [of _ "?xs ! ?i"] conjI) linarith+
qed

section \<open>Property\<close>



end
