(* ===== verification/Workload.thy ===== *)
theory Workload
  imports Scenarios
begin

text \<open>
  The workloads of the evaluation program, \<^verbatim>\<open>src/evaluation/src/workload.rs\<close>, and the scenarios that replay
  them: seeded key traces of seven kinds, the choice of writes, the hit-rate tables \<^verbatim>\<open>hitrate\<close> and
  \<^verbatim>\<open>embedded\<close> and the fill of the memory probe.
  The random numbers come from the crates \<^verbatim>\<open>rand\<close> and \<^verbatim>\<open>rand_distr\<close> and are a parameter, of which the
  documented ranges are assumed. Times are left out; a scenario returns the numbers it prints.
\<close>

section \<open>Random numbers\<close>

text \<open>
  \<^verbatim>\<open>StdRng::seed_from_u64\<close>, \<^verbatim>\<open>gen_range(0..n)\<close>, \<^verbatim>\<open>gen_bool(p)\<close> and \<^verbatim>\<open>Zipf::sample\<close> for \<open>n\<close> elements and an
  exponent; each draw returns the next state of the generator.
\<close>

record 'r rng =
  seed_from :: "u64 \<Rightarrow> 'r"
  draw_below :: "'r \<Rightarrow> u64 \<Rightarrow> u64 \<times> 'r"
  draw_bool :: "'r \<Rightarrow> real \<Rightarrow> bool \<times> 'r"
  draw_zipf :: "u64 \<Rightarrow> real \<Rightarrow> 'r \<Rightarrow> real \<times> 'r"

text \<open>What the documentation promises: a draw lies in its range.\<close>

definition lawful_rng :: "'r rng \<Rightarrow> bool" where
  "lawful_rng R \<longleftrightarrow> (\<forall>r n. 0 < n \<longrightarrow> fst (draw_below R r n) < n)
     \<and> (\<forall>r n e. 0 < n \<longrightarrow> 1 \<le> fst (draw_zipf R n e r) \<and> fst (draw_zipf R n e r) \<le> real (unat n))"

text \<open>\<^verbatim>\<open>gen_range\<close> panics on an empty range, \<^verbatim>\<open>Zipf::new(..).unwrap()\<close> for no element.\<close>

definition gen_range :: "'r rng \<Rightarrow> 'r \<Rightarrow> u64 \<Rightarrow> (u64 \<times> 'r) res" where
  "gen_range R r n = (if n = 0 then Inl AssertionFailed else Inr (draw_below R r n))"

definition zipf_new :: "u64 \<Rightarrow> unit res" where
  "zipf_new n = (if n = 0 then Inl UnwrapFailed else Inr ())"

text \<open>The cast \<^verbatim>\<open>f64 as u64\<close> truncates and saturates.\<close>

definition f64_as_u64 :: "real \<Rightarrow> u64" where
  "f64_as_u64 x = (if x < 0 then 0 else if 2 ^ 64 \<le> x then - 1 else word_of_nat (nat \<lfloor>x\<rfloor>))"

section \<open>Traces\<close>

definition usize_u64 :: "nat \<Rightarrow> u64" where "usize_u64 n = word_of_nat n"

definition trace_exponent :: "string \<Rightarrow> real" where
  "trace_exponent kind = (if kind = ''zipf070'' then 70 / 100 else if kind = ''zipf099'' then 99 / 100 else 130 / 100)"

definition trace_key :: "'r rng \<Rightarrow> string \<Rightarrow> nat \<Rightarrow> nat \<Rightarrow> nat \<Rightarrow> 'r \<Rightarrow> (u64 \<times> 'r) res" where
  "trace_key R kind capacity len i r =
     (let space = usize_u64 (capacity * 16) in
      if kind = ''uniform'' then gen_range R r space
      else if kind = ''scan'' then
        if capacity * 3 = 0 then Inl AssertionFailed else Inr (usize_u64 (i mod (capacity * 3)), r)
      else if kind = ''hot_scan'' then
        (let (hot, r) = draw_bool R r (90 / 100) in
         if hot then gen_range R r (usize_u64 (capacity * 3 div 4)) else Inr (space + usize_u64 i, r))
      else if kind = ''phase_shift'' then
        (let phase = i div max (len div 3) 1 in
         bindR (gen_range R r (usize_u64 (capacity div 4))) (\<lambda>(k, r). Inr (usize_u64 phase * space + k, r)))
      else (let (x, r) = draw_zipf R space (trace_exponent kind) r in Inr (f64_as_u64 x - 1, r)))"

fun trace_keys :: "'r rng \<Rightarrow> string \<Rightarrow> nat \<Rightarrow> nat \<Rightarrow> nat list \<Rightarrow> 'r \<Rightarrow> u64 list res" where
  "trace_keys R kind capacity len [] r = Inr []"
| "trace_keys R kind capacity len (i # is) r =
     bindR (trace_key R kind capacity len i r) (\<lambda>(k, r).
     bindR (trace_keys R kind capacity len is r) (\<lambda>ks. Inr (k # ks)))"

definition trace :: "'r rng \<Rightarrow> string \<Rightarrow> nat \<Rightarrow> nat \<Rightarrow> u64 \<Rightarrow> u64 list res" where
  "trace R kind capacity len seed =
     bindR (zipf_new (usize_u64 (capacity * 16))) (\<lambda>_.
     trace_keys R kind capacity len [0..<len] (seed_from R seed))"

text \<open>A second generator chooses the writes, independently of the keys.\<close>

fun choose_writes :: "'r rng \<Rightarrow> u64 list \<Rightarrow> 'r \<Rightarrow> (u64 \<times> bool) list" where
  "choose_writes R [] r = []"
| "choose_writes R (k # ks) r = (let (w, r) = draw_bool R r (5 / 100) in (k, w) # choose_writes R ks r)"

definition operations :: "'r rng \<Rightarrow> u64 list \<Rightarrow> u64 \<Rightarrow> (u64 \<times> bool) list" where
  "operations R keys seed = choose_writes R keys (seed_from R (seed XOR 0xD1B54A32D192ED03))"

section \<open>Hit-rate tables\<close>

text \<open>A row: trace, seed, cache, hits, resident entries.\<close>

type_synonym hit_row = "string \<times> nat \<times> string \<times> nat \<times> nat"

definition hit_kinds :: "string list" where
  "hit_kinds = [''zipf070'', ''zipf099'', ''zipf130'', ''uniform'', ''scan'', ''hot_scan'', ''phase_shift'']"

text \<open>The caches take turns in who goes first.\<close>

definition rotated :: "'a list \<Rightarrow> nat \<Rightarrow> 'a list" where
  "rotated xs trial = map (\<lambda>offset. xs ! ((offset + trial) mod length xs)) [0..<length xs]"

fun hit_rows ::
  "'t number \<Rightarrow> (bytes \<Rightarrow> u64) \<Rightarrow> ('o, 't) cache_ops \<Rightarrow> 'o constructor \<Rightarrow> string \<Rightarrow> nat \<Rightarrow> nat \<Rightarrow> u64 list \<Rightarrow> string list \<Rightarrow>
   hit_row list res" where
  "hit_rows N wy oo other label seed capacity keys [] = Inr []"
| "hit_rows N wy oo other label seed capacity keys (name # names) =
     bindR (hits N wy oo other name capacity keys) (\<lambda>(h, n).
     bindR (hit_rows N wy oo other label seed capacity keys names) (\<lambda>rows.
     Inr ((label, seed, name, h, n) # rows)))"

fun hitrate_runs ::
  "'r rng \<Rightarrow> (bytes \<Rightarrow> u64) \<Rightarrow> ('o, u64) cache_ops \<Rightarrow> 'o constructor \<Rightarrow> nat \<Rightarrow> nat \<Rightarrow> (string \<times> nat) list \<Rightarrow> hit_row list res" where
  "hitrate_runs R wy oo other capacity len [] = Inr []"
| "hitrate_runs R wy oo other capacity len ((kind, trial) # rest) =
     bindR (trace R kind capacity len (42 + word_of_nat trial)) (\<lambda>keys.
     bindR (hit_rows number_u64 wy oo other kind (42 + trial) capacity keys (rotated NAMES trial)) (\<lambda>rows.
     bindR (hitrate_runs R wy oo other capacity len rest) (\<lambda>more. Inr (rows @ more))))"

definition hitrate ::
  "'r rng \<Rightarrow> (bytes \<Rightarrow> u64) \<Rightarrow> ('o, u64) cache_ops \<Rightarrow> 'o constructor \<Rightarrow> nat \<Rightarrow> nat \<Rightarrow> nat \<Rightarrow> hit_row list res" where
  "hitrate R wy oo other capacity len trials =
     hitrate_runs R wy oo other capacity len (concat (map (\<lambda>kind. map (Pair kind) [0..<trials]) hit_kinds))"

fun embedded_keys :: "'r rng \<Rightarrow> bool \<Rightarrow> nat \<Rightarrow> 'r \<Rightarrow> u64 list res" where
  "embedded_keys R routing 0 r = Inr []"
| "embedded_keys R routing (Suc n) r =
     bindR (if routing then gen_range R r 5000
            else (let (x, r) = draw_zipf R 1000 (110 / 100) r in Inr (f64_as_u64 x - 1, r))) (\<lambda>(k, r).
     bindR (embedded_keys R routing n r) (\<lambda>ks. Inr (k # ks)))"

fun embedded_runs ::
  "'r rng \<Rightarrow> (bytes \<Rightarrow> u64) \<Rightarrow> ('o, u32) cache_ops \<Rightarrow> 'o constructor \<Rightarrow> (nat \<times> string \<times> nat \<times> nat) list \<Rightarrow> hit_row list res" where
  "embedded_runs R wy oo other [] = Inr []"
| "embedded_runs R wy oo other ((seed, label, capacity, len) # rest) =
     bindR (zipf_new 1000) (\<lambda>_.
     bindR (embedded_keys R (label = ''host_routing'') len (seed_from R (word_of_nat seed))) (\<lambda>keys.
     bindR (hit_rows number_u32 wy oo other label seed capacity keys [''baseline-typed'', ''candidate-typed'', ''lru'']) (\<lambda>rows.
     bindR (embedded_runs R wy oo other rest) (\<lambda>more. Inr (rows @ more)))))"

definition embedded ::
  "'r rng \<Rightarrow> (bytes \<Rightarrow> u64) \<Rightarrow> ('o, u32) cache_ops \<Rightarrow> 'o constructor \<Rightarrow> bool \<Rightarrow> hit_row list res" where
  "embedded R wy oo other smoke =
     embedded_runs R wy oo other
       (concat (map (\<lambda>seed. [(seed, ''host_routing'', 2048, 100000), (seed, ''host_sensors'', 256, 10000)])
          [42..<(if smoke then 43 else 45)]))"

section \<open>Memory probe and parameters\<close>

text \<open>The fill of \<^verbatim>\<open>memory\<close>: every key once; the probe prints the resident entries.\<close>

fun fill :: "('c, 't) cache_ops \<Rightarrow> (u64 \<Rightarrow> 't) \<Rightarrow> u64 list \<Rightarrow> 'c \<Rightarrow> 'c res" where
  "fill I num [] c = Inr c"
| "fill I num (k # ks) c = bindR (cache_insert I c (num k) (num k)) (\<lambda>c. fill I num ks c)"

definition memory_fill :: "'t number \<Rightarrow> (bytes \<Rightarrow> u64) \<Rightarrow> ('o, 't) cache_ops \<Rightarrow> 'o constructor \<Rightarrow> string \<Rightarrow> nat \<Rightarrow> nat res" where
  "memory_fill N wy oo other name capacity =
     bindR (cache other name capacity) (\<lambda>c.
     bindR (fill (any_ops N wy oo) (number N) (map usize_u64 [0..<capacity]) c) (\<lambda>c.
     bindR (cache_settle (any_ops N wy oo) c) (\<lambda>c. Inr (cache_len (any_ops N wy oo) c))))"

text \<open>Capacity, operations and trials of \<^verbatim>\<open>main\<close>.\<close>

definition eval_params :: "bool \<Rightarrow> nat \<times> nat \<times> nat" where
  "eval_params smoke = (if smoke then (1024, 12000, 1) else (65536, 2000000, 3))"

section \<open>Facts on draws\<close>

lemma gen_range_ok:
  assumes "lawful_rng R" and "0 < n"
  obtains k r' where "gen_range R r n = Inr (k, r')" and "k < n"
  using assms that [of "fst (draw_below R r n)" "snd (draw_below R r n)"] by (auto simp: gen_range_def lawful_rng_def)

lemma zipf_key:
  assumes "lawful_rng R" and "0 < n"
  shows "f64_as_u64 (fst (draw_zipf R n e r)) - 1 < n"
proof -
  let ?x = "fst (draw_zipf R n e r)"
  have x: "1 \<le> ?x" "?x \<le> real (unat n)" using assms by (auto simp: lawful_rng_def)
  have "real (unat n) < 2 ^ 64" using unsigned_less [of n, where 'a = nat] by (simp flip: of_nat_less_iff [where 'a = real])
  then have f: "f64_as_u64 ?x = word_of_nat (nat \<lfloor>?x\<rfloor>)" using x by (simp add: f64_as_u64_def)
  have b: "1 \<le> nat \<lfloor>?x\<rfloor>" "nat \<lfloor>?x\<rfloor> \<le> unat n" using x by linarith+
  then have "unat (f64_as_u64 ?x) = nat \<lfloor>?x\<rfloor>" unfolding f using unsigned_less [of n, where 'a = nat]
    by (simp add: unsigned_of_nat take_bit_nat_eq_self)
  then have "unat (f64_as_u64 ?x - 1) < unat n" using b by (subst unat_sub) (auto simp: word_le_nat_alt)
  then show ?thesis by (simp add: word_less_nat_alt)
qed

lemma usize_u64_unat: "n < 2 ^ 64 \<Longrightarrow> unat (usize_u64 n) = n"
  by (simp add: usize_u64_def unsigned_of_nat take_bit_nat_eq_self)

lemma draw_bool_pair: obtains b r' where "draw_bool R r p = (b, r')"
  by (cases "draw_bool R r p") auto

section \<open>What the traces contain\<close>

text \<open>The key drawn at position \<open>i\<close>: in the phases, keys of disjoint ranges; in the scan part, keys used once.\<close>

definition key_ok :: "string \<Rightarrow> nat \<Rightarrow> nat \<Rightarrow> nat \<Rightarrow> u64 \<Rightarrow> bool" where
  "key_ok kind capacity len i k \<longleftrightarrow>
     (if kind = ''scan'' then unat k = i mod (3 * capacity)
      else if kind = ''hot_scan'' then unat k < capacity * 3 div 4 \<or> unat k = 16 * capacity + i
      else if kind = ''phase_shift'' then
        (let low = i div max (len div 3) 1 * (16 * capacity) in low \<le> unat k \<and> unat k < low + capacity div 4)
      else unat k < 16 * capacity)"

lemma phase_bound:
  fixes len :: nat
  assumes "i < len"
  shows "i div max (len div 3) 1 \<le> 5"
proof -
  have "len \<le> 3 * max (len div 3) 1 + 2" by linarith
  then have "i < 6 * max (len div 3) 1" using assms by linarith
  then have "i div max (len div 3) 1 < 6" by (simp add: div_less_iff_less_mult)
  then show ?thesis by simp
qed

lemma trace_key_ok:
  assumes R: "lawful_rng R" and c: "4 \<le> capacity" "capacity \<le> 2 ^ 50" and t: "len \<le> 2 ^ 54" "i < len"
  obtains k r' where "trace_key R kind capacity len i r = Inr (k, r')" and "key_ok kind capacity len i k"
proof -
  have sp: "unat (usize_u64 (capacity * 16)) = 16 * capacity" "0 < usize_u64 (capacity * 16)"
    using c by (simp_all add: usize_u64_unat word_less_nat_alt)
  have h: "unat (usize_u64 (capacity * 3 div 4)) = capacity * 3 div 4" "0 < usize_u64 (capacity * 3 div 4)"
    using c by (simp_all add: usize_u64_unat word_less_nat_alt)
  have q: "unat (usize_u64 (capacity div 4)) = capacity div 4" "0 < usize_u64 (capacity div 4)"
    using c by (simp_all add: usize_u64_unat word_less_nat_alt)
  consider "kind = ''uniform''" | "kind = ''scan''" | "kind = ''hot_scan''" | "kind = ''phase_shift''"
    | "kind \<notin> {''uniform'', ''scan'', ''hot_scan'', ''phase_shift''}" by blast
  then show thesis
  proof cases
    case 1
    obtain k r' where "gen_range R r (usize_u64 (capacity * 16)) = Inr (k, r')" "k < usize_u64 (capacity * 16)"
      by (rule gen_range_ok [OF R sp(2)])
    then show ?thesis using that [of k r'] 1 sp(1) by (simp add: trace_key_def key_ok_def word_less_nat_alt)
  next
    case 2
    have "i mod (capacity * 3) < 2 ^ 64" using t le_less_trans [OF mod_less_eq_dividend [of i "capacity * 3"], of "2 ^ 64"] by simp
    then show ?thesis using that 2 c by (simp add: trace_key_def key_ok_def usize_u64_unat mult.commute)
  next
    case 3
    obtain b r1 where b: "draw_bool R r (90 / 100) = (b, r1)" by (rule draw_bool_pair)
    obtain k r' where g: "gen_range R r1 (usize_u64 (capacity * 3 div 4)) = Inr (k, r')" "k < usize_u64 (capacity * 3 div 4)"
      by (rule gen_range_ok [OF R h(2)])
    have "unat (usize_u64 (capacity * 16) + usize_u64 i) = 16 * capacity + i"
      using sp(1) c t by (subst unat_add_lem [THEN iffD1]) (simp_all add: usize_u64_unat)
    then show ?thesis using that 3 b g h(1) by (cases b) (auto simp: trace_key_def key_ok_def word_less_nat_alt)
  next
    case 4
    let ?p = "i div max (len div 3) 1"
    obtain k r' where g: "gen_range R r (usize_u64 (capacity div 4)) = Inr (k, r')" "k < usize_u64 (capacity div 4)"
      by (rule gen_range_ok [OF R q(2)])
    have p: "?p \<le> 5" by (rule phase_bound [OF t(2)])
    have "?p * (16 * capacity) \<le> 5 * (16 * 2 ^ 50)" using p c(2) by (intro mult_mono) auto
    moreover have "unat k < capacity div 4" using g(2) q(1) by (simp add: word_less_nat_alt)
    moreover have "unat (usize_u64 ?p) = ?p" using p by (simp add: usize_u64_unat)
    moreover have "?p * (16 * capacity) + unat k < 5 * (16 * 2 ^ 50) + 2 ^ 50"
      using calculation(1,2) div_le_dividend [of capacity 4] c(2) by linarith
    then have "?p * (16 * capacity) + unat k < 2 ^ 64" by simp
    ultimately have "unat (usize_u64 ?p * usize_u64 (capacity * 16) + k) = ?p * (16 * capacity) + unat k"
      using sp(1) by (simp add: unat_word_ariths mod_add_left_eq)
    then show ?thesis using that 4 g \<open>unat k < capacity div 4\<close> by (simp add: trace_key_def key_ok_def Let_def)
  next
    case 5
    obtain x r' where x: "draw_zipf R (usize_u64 (capacity * 16)) (trace_exponent kind) r = (x, r')" by fastforce
    have "f64_as_u64 x - 1 < usize_u64 (capacity * 16)" using zipf_key [OF R sp(2)] x by (metis fst_conv)
    then show ?thesis using that 5 x sp(1) by (simp add: trace_key_def key_ok_def word_less_nat_alt)
  qed
qed

lemma trace_keys_ok:
  assumes "lawful_rng R" and "4 \<le> capacity" and "capacity \<le> 2 ^ 50" and "len \<le> 2 ^ 54" and "\<forall>i\<in>set is. i < len"
  shows "\<exists>ks. trace_keys R kind capacity len is r = Inr ks \<and> list_all2 (key_ok kind capacity len) is ks"
  using assms(5)
proof (induction "is" arbitrary: r)
  case (Cons i "is")
  obtain k r' where "trace_key R kind capacity len i r = Inr (k, r')" "key_ok kind capacity len i k"
    by (rule trace_key_ok [OF assms(1-4), of i]) (use Cons.prems in auto)
  then show ?case using Cons.IH [of r'] Cons.prems by auto
qed simp

lemma trace_ok_keys:
  assumes "lawful_rng R" and "4 \<le> capacity" and "capacity \<le> 2 ^ 50" and "len \<le> 2 ^ 54"
  shows "\<exists>ks. trace R kind capacity len seed = Inr ks \<and> length ks = len \<and> (\<forall>i<len. key_ok kind capacity len i (ks ! i))"
proof -
  have "usize_u64 (capacity * 16) \<noteq> 0" using assms(2,3) usize_u64_unat [of "capacity * 16"] by auto
  moreover obtain ks where "trace_keys R kind capacity len [0..<len] (seed_from R seed) = Inr ks"
    "list_all2 (key_ok kind capacity len) [0..<len] ks" using trace_keys_ok [OF assms, of "[0..<len]"] by auto
  ultimately show ?thesis by (auto simp: trace_def zipf_new_def list_all2_conv_all_nth)
qed

lemma choose_writes_keys: "map fst (choose_writes R ks r) = ks"
  by (induction ks arbitrary: r) (auto split: prod.split)

section \<open>The tables\<close>

lemma rotated_rotate: "rotated xs trial = rotate trial xs"
  by (rule nth_equalityI) (simp_all add: rotated_def nth_rotate add.commute)

lemma mset_rotated: "mset (rotated xs trial) = mset xs"
proof -
  have "mset (rotate1 ys) = mset ys" for ys :: "'a list" by (cases ys) auto
  then show ?thesis unfolding rotated_rotate by (induction trial) auto
qed

lemma hit_rows_ok:
  assumes "cache_trait oo J st" and "lawful_constructor other J st" and "lawful_number N"
    and "set names \<subseteq> set NAMES" and "6 \<le> j" and "j \<le> 50" and "length keys \<le> 2 ^ 54"
  shows "\<exists>rows. hit_rows N wy oo other label seed (2 ^ j) keys names = Inr rows
     \<and> map (\<lambda>(l, s, name, h, n). (l, s, name)) rows = map (\<lambda>name. (label, seed, name)) names
     \<and> (\<forall>(l, s, name, h, n)\<in>set rows. h + card (number N ` set keys) \<le> length keys
          \<and> (name \<in> set candidates \<longrightarrow> n \<le> card (number N ` set keys)))"
  using assms(4)
proof (induction names)
  case (Cons name names)
  obtain h n where "hits N wy oo other name (2 ^ j) keys = Inr (h, n)" "h + card (number N ` set keys) \<le> length keys"
    "name \<in> set candidates \<longrightarrow> n \<le> card (number N ` set keys)"
    using hits_sane [OF assms(1-3) _ assms(5-7), of name wy] Cons.prems by auto
  then show ?case using Cons by auto
qed simp

text \<open>What a hit-rate table has to be: every cache once per trace and seed, no more hits than repeated keys.\<close>

definition row_ok :: "'t number \<Rightarrow> u64 list \<Rightarrow> hit_row \<Rightarrow> bool" where
  "row_ok N keys row \<longleftrightarrow> (case row of (l, s, name, h, n) \<Rightarrow> h + card (number N ` set keys) \<le> length keys
     \<and> (name \<in> set candidates \<longrightarrow> n \<le> card (number N ` set keys)))"

fun table_ok :: "'r rng \<Rightarrow> nat \<Rightarrow> nat \<Rightarrow> (string \<times> nat) list \<Rightarrow> hit_row list \<Rightarrow> bool" where
  "table_ok R capacity len [] rows \<longleftrightarrow> rows = []"
| "table_ok R capacity len ((kind, trial) # rest) rows \<longleftrightarrow>
     (\<exists>keys. trace R kind capacity len (42 + word_of_nat trial) = Inr keys \<and> length keys = len
        \<and> list_all (row_ok number_u64 keys) (take 9 rows)
        \<and> mset (map (\<lambda>(l, s, name, h, n). (l, s, name)) (take 9 rows)) = image_mset (\<lambda>name. (kind, 42 + trial, name)) (mset NAMES))
     \<and> table_ok R capacity len rest (drop 9 rows)"

lemma hitrate_runs_ok:
  assumes "cache_trait oo J st" and "lawful_constructor other J st" and "lawful_rng R"
    and "6 \<le> j" and "j \<le> 50" and "len \<le> 2 ^ 54"
  shows "\<exists>rows. hitrate_runs R wy oo other (2 ^ j) len runs = Inr rows \<and> table_ok R (2 ^ j) len runs rows"
proof (induction runs)
  case (Cons run runs)
  obtain kind trial where run: "run = (kind, trial)" by fastforce
  have c: "(4::nat) \<le> 2 ^ j" "(2::nat) ^ j \<le> 2 ^ 50"
    using power_increasing [OF assms(4), of "2::nat"] power_increasing [OF assms(5), of "2::nat"] by simp_all
  obtain keys where k: "trace R kind (2 ^ j) len (42 + word_of_nat trial) = Inr keys" "length keys = len"
    using trace_ok_keys [OF assms(3) c assms(6)] by blast
  let ?names = "rotated NAMES trial"
  have perm: "mset ?names = mset NAMES" by (rule mset_rotated)
  have set: "set ?names \<subseteq> set NAMES" by (simp add: rotated_rotate)
  have n9: "length ?names = 9" by (simp add: rotated_rotate NAMES_def)
  obtain rows where r: "hit_rows number_u64 wy oo other kind (42 + trial) (2 ^ j) keys ?names = Inr rows"
    "map (\<lambda>(l, s, name, h, n). (l, s, name)) rows = map (\<lambda>name. (kind, 42 + trial, name)) ?names"
    "\<forall>(l, s, name, h, n)\<in>set rows. h + card (number number_u64 ` set keys) \<le> length keys
          \<and> (name \<in> set candidates \<longrightarrow> n \<le> card (number number_u64 ` set keys))"
    using hit_rows_ok [OF assms(1,2) lawful_numbers(2) set assms(4,5), of keys] k(2) assms(6) by blast
  have l: "length rows = 9" using arg_cong [OF r(2), of length] n9 by simp
  have "list_all (row_ok number_u64 keys) rows" using r(3) by (auto simp: list_all_iff row_ok_def)
  moreover have "mset (map (\<lambda>(l, s, name, h, n). (l, s, name)) rows) = image_mset (\<lambda>name. (kind, 42 + trial, name)) (mset NAMES)"
    unfolding r(2) perm [symmetric] by simp
  ultimately show ?case using Cons k r(1) l run by auto
qed simp

lemma embedded_keys_ok:
  assumes "lawful_rng R"
  shows "\<exists>ks. embedded_keys R routing n r = Inr ks \<and> length ks = n \<and> (\<forall>k\<in>set ks. k < (if routing then 5000 else 1000))"
proof (induction n arbitrary: r)
  case (Suc n)
  obtain k r' where "gen_range R r 5000 = Inr (k, r')" "k < 5000" by (rule gen_range_ok [OF assms, of 5000 r]) simp_all
  moreover obtain x r2 where x: "draw_zipf R 1000 (110 / 100) r = (x, r2)" by fastforce
  moreover have "f64_as_u64 x - 1 < 1000" using zipf_key [OF assms, of 1000 "110 / 100" r] x by simp
  ultimately show ?case using Suc [of r'] Suc [of r2] by (cases routing) auto
qed simp

lemma embedded_runs_ok:
  assumes "cache_trait oo J st" and "lawful_constructor other J st" and "lawful_rng R"
    and "\<forall>(seed, label, capacity, len)\<in>set runs. (capacity = 2 ^ 8 \<or> capacity = 2 ^ 11) \<and> len \<le> 2 ^ 54"
  shows "\<exists>rows. embedded_runs R wy oo other runs = Inr rows \<and> length rows = 3 * length runs"
  using assms(4)
proof (induction runs)
  case (Cons run runs)
  obtain seed label capacity len where run: "run = (seed, label, capacity, len)" by (cases run) auto
  obtain j where j: "capacity = 2 ^ j" "6 \<le> j" "j \<le> 50" "len \<le> 2 ^ 54"
  proof -
    have "capacity = 2 ^ 8 \<or> capacity = 2 ^ 11" "len \<le> 2 ^ 54" using Cons.prems run by auto
    then show thesis using that [of 8] that [of 11] by auto
  qed
  obtain keys where k: "embedded_keys R (label = ''host_routing'') len (seed_from R (word_of_nat seed)) = Inr keys" "length keys = len"
    using embedded_keys_ok [OF assms(3)] by blast
  let ?names = "[''baseline-typed'', ''candidate-typed'', ''lru'']"
  have "set ?names \<subseteq> set NAMES" by (simp add: NAMES_def)
  then obtain rows where rows: "hit_rows number_u32 wy oo other label seed (2 ^ j) keys ?names = Inr rows"
    "map (\<lambda>(l, s, name, h, n). (l, s, name)) rows = map (\<lambda>name. (label, seed, name)) ?names"
    using hit_rows_ok [OF assms(1,2) lawful_numbers(1) _ j(2,3), of ?names keys wy label seed] k(2) j(4) by blast
  have "length rows = 3" using arg_cong [OF rows(2), of length] by simp
  moreover obtain more where "embedded_runs R wy oo other runs = Inr more" "length more = 3 * length runs"
    using Cons by auto
  ultimately show ?case using rows(1) k(1) j(1) run
    by (intro exI [of _ "rows @ more"]) (simp add: zipf_new_def del: hit_rows.simps)
qed simp

lemma fill_ok:
  assumes "cache_trait I J st" and "J (length ks + n) c"
  shows "\<exists>c'. fill I num ks c = Inr c' \<and> J n c' \<and> dom (st c') \<subseteq> dom (st c) \<union> num ` set ks"
  using assms(2)
proof (induction ks arbitrary: c)
  case (Cons k ks)
  have "J (Suc (length ks + n)) c" using Cons.prems by simp
  from cache_trait.insert_law [OF assms(1) this, of "num k" "num k"] obtain c1 where
    c1: "cache_insert I c (num k) (num k) = Inr c1" "J (length ks + n) c1" "forgets (st c1) ((st c)(num k \<mapsto> num k))" by blast
  have "dom (st c1) \<subseteq> insert (num k) (dom (st c))" using forgets_dom [OF c1(3)] by auto
  moreover obtain c' where "fill I num ks c1 = Inr c'" "J n c'" "dom (st c') \<subseteq> dom (st c1) \<union> num ` set ks"
    using Cons.IH [OF c1(2)] by blast
  ultimately show ?case using c1(1) by (intro exI [of _ c']) (simp, blast)
qed auto

lemma memory_fill_ok:
  assumes "lawful_number N" and "name \<in> set candidates" and "6 \<le> j" and "j \<le> 50"
  shows "\<exists>n. memory_fill N wy oo other name (2 ^ j) = Inr n \<and> n \<le> 2 ^ j"
proof -
  let ?J = "any_ready N wy (\<lambda>_ _. False)" and ?st = "any_stored N wy (\<lambda>_. Map.empty)"
  note e = any_exact [OF assms(1), of wy oo "\<lambda>_. Map.empty"]
  note t = exact_cache.axioms(1) [OF e]
  let ?ks = "map usize_u64 [0..<2 ^ j]"
  have small: "(2::nat) ^ j \<le> 2 ^ 54" using power_increasing [OF assms(4), of "2::nat"] by simp
  have "name \<in> set NAMES" using assms(2) by (auto simp: candidates_def NAMES_def)
  then obtain c where c: "cache other name (2 ^ j) = Inr c" "?J (2 ^ j) c" "?st c = Map.empty"
    using cache_ok [OF assms(3,4) small, of name other "\<lambda>_ _. False" "\<lambda>_. Map.empty"] assms(2) by blast
  obtain c' where c': "fill (any_ops N wy oo) (number N) ?ks c = Inr c'" "?J 0 c'" "dom (?st c') \<subseteq> dom (?st c) \<union> number N ` set ?ks"
    using fill_ok [OF t, of ?ks 0 c "number N"] c(2) by auto
  have settle: "cache_settle (any_ops N wy oo) c' = Inr c'"
    using c'(2) by (cases c') (simp_all add: any_ops_def typed_ops_def conc_ops_def sharded_ops_def)
  have "cache_len (any_ops N wy oo) c' = card (dom (?st c'))" using exact_cache.len_exact [OF e c'(2)] by blast
  also have "\<dots> \<le> card (number N ` set ?ks)" by (rule card_mono) (use c'(3) c(3) in auto)
  also have "\<dots> \<le> 2 ^ j" using card_image_le [of "set ?ks" "number N"] card_length [of ?ks] by simp
  finally show ?thesis using c(1) c'(1) settle by (simp add: memory_fill_def)
qed

section \<open>Properties\<close>

text \<open>
  The workloads are what their names say. For every kind, capacity, length and seed a trace is
  generated without a panic and has the requested length; uniform and Zipf keys stay below 16 times the
  capacity, a scan cycles through three capacities, the hot part of \<^verbatim>\<open>hot_scan\<close> stays within three quarters
  of the capacity and its scan part uses every key once, and the hot sets of \<^verbatim>\<open>phase_shift\<close> fit a quarter of
  the capacity and lie in disjoint ranges. The choice of writes keeps the keys and their order.
\<close>

theorem workload_traces:
  assumes "lawful_rng R" and "4 \<le> capacity" and "capacity \<le> 2 ^ 50" and "len \<le> 2 ^ 54"
  shows "\<exists>ks. trace R kind capacity len seed = Inr ks \<and> length ks = len
     \<and> (\<forall>i<len. key_ok kind capacity len i (ks ! i)) \<and> map fst (operations R ks seed) = ks"
  using trace_ok_keys [OF assms] by (auto simp: operations_def choose_writes_keys)

text \<open>A generator that counts: every draw is the state modulo the bound.\<close>

definition counting_rng :: "u64 rng" where
  "counting_rng = \<lparr>seed_from = (\<lambda>s. s), draw_below = (\<lambda>r n. (r mod n, r + 1)),
     draw_bool = (\<lambda>r p. (even (unat r), r + 1)), draw_zipf = (\<lambda>n e r. (1, r + 1))\<rparr>"

lemma counting_lawful: "lawful_rng counting_rng"
proof -
  have "1 \<le> real (unat n)" if "0 < n" for n :: u64
  proof -
    have "1 \<le> unat n" using that by (simp add: word_less_nat_alt)
    then show ?thesis by (metis of_nat_1 of_nat_le_iff)
  qed
  then show ?thesis by (auto simp: lawful_rng_def counting_rng_def word_mod_less_divisor)
qed

theorem workload_traces_witness:
  "\<exists>ks. trace counting_rng ''phase_shift'' 64 9 42 = Inr ks \<and> length ks = 9 \<and> 1024 \<le> unat (ks ! 3) \<and> unat (ks ! 3) < 1040"
proof -
  obtain ks where "trace counting_rng ''phase_shift'' 64 9 42 = Inr ks" "length ks = 9"
    "\<forall>i<9. key_ok ''phase_shift'' 64 9 i (ks ! i)"
    using workload_traces [OF counting_lawful, of 64 9 "''phase_shift''" 42] by auto
  then show ?thesis by (intro exI [of _ ks]) (auto simp: key_ok_def dest: spec [of _ 3])
qed

text \<open>
  The phases of \<^verbatim>\<open>phase_shift\<close> are three only when the length is a multiple of three: the remainder
  starts a fourth hot set, as in the full evaluation with its two million operations.
\<close>

lemma phases:
  fixes len :: nat
  assumes "3 \<le> len" and "i < len"
  shows "i div max (len div 3) 1 \<le> 2 \<longleftrightarrow> i < 3 * (len div 3)"
proof -
  have "0 < len div 3" using assms(1) by simp
  then have "i div (len div 3) < 3 \<longleftrightarrow> i < 3 * (len div 3)" by (rule div_less_iff_less_mult)
  moreover have "max (len div 3) 1 = len div 3" using assms(1) by simp
  ultimately show ?thesis by auto
qed

lemma fourth_phase:
  assumes "lawful_rng R"
  shows "\<exists>ks. trace R ''phase_shift'' 65536 2000000 seed = Inr ks \<and> 3 * (16 * 65536) \<le> unat (ks ! 1999998)"
proof -
  obtain ks where "trace R ''phase_shift'' 65536 2000000 seed = Inr ks" "\<forall>i<2000000. key_ok ''phase_shift'' 65536 2000000 i (ks ! i)"
    using trace_ok_keys [OF assms, of 65536 2000000 "''phase_shift''" seed] by auto
  moreover from this(2) have "key_ok ''phase_shift'' 65536 2000000 1999998 (ks ! 1999998)" by (rule allE [of _ 1999998]) simp
  ultimately show ?thesis by (auto simp: key_ok_def)
qed

text \<open>
  The hit-rate tables are complete and sane. For any lawful random numbers, hash function and
  competitors, in smoke mode or not, \<^verbatim>\<open>hitrate\<close> and \<^verbatim>\<open>embedded\<close> run to their end; per trace and seed every cache
  appears exactly once, whatever the rotation; a row of \<^verbatim>\<open>hitrate\<close> has at most as many hits as its trace repeats keys;
  and the fill of the memory probe leaves at most as many resident entries as it has capacity.
\<close>

theorem hit_tables_complete:
  assumes "cache_trait oo J st" and "lawful_constructor other J st" and "lawful_rng R"
    and "cache_trait oo' J' st'" and "lawful_constructor other' J' st'" and "name \<in> set candidates"
    and "(capacity, len, trials) = eval_params smoke"
  shows "(\<exists>rows. hitrate R wy oo other capacity len trials = Inr rows
       \<and> table_ok R capacity len (concat (map (\<lambda>kind. map (Pair kind) [0..<trials]) hit_kinds)) rows)
     \<and> (\<exists>rows. embedded R wy oo' other' smoke = Inr rows \<and> length rows = (if smoke then 6 else 18))
     \<and> (\<exists>n. memory_fill number_u64 wy oo other name capacity = Inr n \<and> n \<le> capacity)"
proof (intro conjI)
  have p: "capacity = 2 ^ (if smoke then 10 else 16)" "len \<le> 2 ^ 54" using assms(7) by (auto simp: eval_params_def split: if_splits)
  let ?j = "if smoke then 10 else 16 :: nat"
  have j: "6 \<le> ?j" "?j \<le> 50" by auto
  show "\<exists>rows. hitrate R wy oo other capacity len trials = Inr rows
       \<and> table_ok R capacity len (concat (map (\<lambda>kind. map (Pair kind) [0..<trials]) hit_kinds)) rows"
    unfolding hitrate_def p(1) by (rule hitrate_runs_ok [OF assms(1-3) j p(2)])
  show "\<exists>n. memory_fill number_u64 wy oo other name capacity = Inr n \<and> n \<le> capacity"
    unfolding p(1) by (rule memory_fill_ok [OF lawful_numbers(2) assms(6) j])
  let ?runs = "concat (map (\<lambda>seed. [(seed, ''host_routing'', 2048, 100000), (seed, ''host_sensors'', 256, 10000)])
          [42..<(if smoke then 43 else 45)]) :: (nat \<times> string \<times> nat \<times> nat) list"
  have "\<forall>(seed, label, capacity, len)\<in>set ?runs. (capacity = 2 ^ 8 \<or> capacity = 2 ^ 11) \<and> len \<le> 2 ^ 54" by auto
  from embedded_runs_ok [OF assms(4,5,3) this] obtain rows where
    "embedded_runs R wy oo' other' ?runs = Inr rows" "length rows = 3 * length ?runs" by blast
  moreover have "length ?runs = (if smoke then 2 else 6)" by (simp add: upt_rec)
  ultimately show "\<exists>rows. embedded R wy oo' other' smoke = Inr rows \<and> length rows = (if smoke then 6 else 18)"
    unfolding embedded_def by auto
qed

theorem hit_tables_complete_witness:
  "(\<exists>rows. hitrate counting_rng demo_hash slot_ops (\<lambda>_ _. Inr None) 1024 12000 1 = Inr rows)
   \<and> (\<exists>rows. embedded counting_rng demo_hash slot_ops (\<lambda>_ _. Inr None) True = Inr rows \<and> length rows = 6)
   \<and> (\<exists>n. memory_fill number_u64 demo_hash slot_ops (\<lambda>_ _. Inr None) ''candidate-typed'' 1024 = Inr n \<and> n \<le> 1024)"
proof -
  have "''candidate-typed'' \<in> set candidates" "(1024, 12000, 1) = eval_params True" by (simp_all add: candidates_def eval_params_def)
  from hit_tables_complete [OF slot_cache_lawful counting_lawful slot_cache_lawful this] show ?thesis by auto
qed

end
