(* ===== verification/Throughput.thy ===== *)
theory Throughput
  imports Contention Workload
begin

text \<open>
  The scenario \<^verbatim>\<open>throughput\<close> of the evaluation (\<^verbatim>\<open>src/evaluation/src/main.rs\<close>) on the shared maps of the crate:
  the main thread fills the map, then each of 1, 4 or 8 threads replays its slice of the operations and
  counts its hits. The fill is the program of thread 0, so that the runs of the scenario, in which the other threads
  wait at the barrier until it is done, are among the interleavings. Throughput itself is time and is
  left out.
\<close>

section \<open>The scenario\<close>

text \<open>\<^verbatim>\<open>&ops[t * ops.len() / threads..(t + 1) * ops.len() / threads]\<close>.\<close>

definition worker_slice :: "'a list \<Rightarrow> nat \<Rightarrow> nat \<Rightarrow> 'a list" where
  "worker_slice xs workers t = drop (t * length xs div workers) (take ((t + 1) * length xs div workers) xs)"

definition replay :: "'t number \<Rightarrow> u64 \<times> bool \<Rightarrow> command" where
  "replay N op =
     (case op of (k, write) \<Rightarrow>
        if write then Insert (key_to_bytes (num_key N) (number N k)) (val_to_bytes (num_val N) (number N k)) 0
        else Get (with_key_bytes (num_key N) (number N k)))"

definition throughput_programs :: "'t number \<Rightarrow> u64 list \<Rightarrow> (u64 \<times> bool) list \<Rightarrow> nat \<Rightarrow> nat \<Rightarrow> command list list" where
  "throughput_programs N keys todo_ops capacity workers =
     map (\<lambda>k. replay N (k, True)) (take capacity keys)
     # map (\<lambda>t. map (replay N) (worker_slice todo_ops workers t)) [0..<workers]"

text \<open>The hits a thread counts: lookups whose answer decodes to a value.\<close>

definition found :: "'t number \<Rightarrow> outcome \<Rightarrow> bool" where
  "found N r = (case r of Value v \<Rightarrow> Option.bind v (val_from_bytes (num_val N)) \<noteq> None | _ \<Rightarrow> False)"

definition thread_hits :: "'t number \<Rightarrow> (nat \<times> command \<times> outcome) list \<Rightarrow> nat \<Rightarrow> nat" where
  "thread_hits N h t = length (filter (\<lambda>(u, cmd, r). u = t \<and> found N r) h)"

definition total_hits :: "'t number \<Rightarrow> (nat \<times> command \<times> outcome) list \<Rightarrow> nat \<Rightarrow> nat" where
  "total_hits N h workers = sum_list (map (\<lambda>t. thread_hits N h (Suc t)) [0..<workers])"

section \<open>The slices share the work\<close>

lemma slices_prefix:
  "concat (map (worker_slice xs workers) [0..<t]) = take (t * length xs div workers) xs"
proof (induction t)
  case (Suc t)
  let ?a = "t * length xs div workers" and ?b = "(t + 1) * length xs div workers"
  have "?a \<le> ?b" by (intro div_le_mono mult_le_mono1) simp
  then have "take ?a xs @ drop ?a (take ?b xs) = take ?b xs"
    by (metis append_take_drop_id min.absorb1 take_take)
  then show ?case using Suc by (simp add: worker_slice_def)
qed simp

lemma slices_partition: "0 < workers \<Longrightarrow> concat (map (worker_slice xs workers) [0..<workers]) = xs"
  by (simp add: slices_prefix)

section \<open>Hits are answers to lookups\<close>

fun is_get :: "command \<Rightarrow> bool" where
  "is_get (Get k) = True"
| "is_get _ = False"

lemma trace_ok_gets: "trace_ok M (commands h) (outcomes h) \<Longrightarrow> \<forall>(t, cmd, r)\<in>set h. found N r \<longrightarrow> is_get cmd"
proof (induction h arbitrary: M)
  case (Cons e h)
  obtain t cmd r where e: "e = (t, cmd, r)" by (cases e) auto
  have "outcome_ok M cmd r" "trace_ok (shadow_step M cmd) (commands h) (outcomes h)"
    using Cons.prems e by (simp_all add: commands_def outcomes_def)
  then show ?case using Cons.IH e by (cases "(M, cmd, r)" rule: outcome_ok.cases) (auto simp: found_def)
qed simp

lemma thread_hits_le:
  assumes "trace_ok M (commands h) (outcomes h)"
  shows "thread_hits N h t \<le> length (filter is_get (answered t h))"
proof -
  note g = trace_ok_gets [OF assms, of N]
  have "thread_hits N h t = length (filter (\<lambda>(u, cmd, r). found N r) (filter (\<lambda>(u, _). u = t) h))"
    unfolding thread_hits_def filter_filter by (intro arg_cong [of _ _ length] filter_cong) auto
  also have "\<dots> = length (filter (\<lambda>(u, cmd, r). found N r \<and> is_get cmd) (filter (\<lambda>(u, _). u = t) h))"
    by (intro arg_cong [of _ _ length] filter_cong) (use g in auto)
  also have "\<dots> \<le> length (filter (\<lambda>(u, cmd, r). is_get cmd) (filter (\<lambda>(u, _). u = t) h))"
    by (induction h) auto
  also have "\<dots> = length (filter is_get (answered t h))"
    by (simp add: answered_def commands_def filter_map comp_def case_prod_beta)
  finally show ?thesis .
qed

text \<open>When every thread has answered its program, the work is done once and the books balance.\<close>

lemma replay_get: "is_get (replay N op) \<longleftrightarrow> \<not> snd op"
  by (cases op) (simp add: replay_def)

lemma accounts:
  assumes w: "0 < workers" and tr: "trace_ok M (commands h) (outcomes h)"
    and ans: "\<forall>t<Suc workers. answered t h = throughput_programs N keys todo_ops capacity workers ! t"
  shows "concat (map (\<lambda>t. answered (Suc t) h) [0..<workers]) = map (replay N) todo_ops"
    and "total_hits N h workers + length (filter snd todo_ops) \<le> length todo_ops"
proof -
  have each: "map (\<lambda>t. answered (Suc t) h) [0..<workers] = map (\<lambda>t. map (replay N) (worker_slice todo_ops workers t)) [0..<workers]"
    using ans by (simp add: throughput_programs_def)
  have "concat (map (\<lambda>t. map (replay N) (worker_slice todo_ops workers t)) [0..<workers])
      = map (replay N) (concat (map (worker_slice todo_ops workers) [0..<workers]))" by (simp add: map_concat comp_def)
  then show fin: "concat (map (\<lambda>t. answered (Suc t) h) [0..<workers]) = map (replay N) todo_ops"
    unfolding each slices_partition [OF w] .
  have "total_hits N h workers \<le> sum_list (map (\<lambda>t. length (filter is_get (answered (Suc t) h))) [0..<workers])"
    unfolding total_hits_def by (rule sum_list_mono) (rule thread_hits_le [OF tr])
  also have "\<dots> = length (filter is_get (concat (map (\<lambda>t. answered (Suc t) h) [0..<workers])))"
    by (simp add: filter_concat length_concat comp_def)
  also have "\<dots> = length (filter (\<lambda>op. \<not> snd op) todo_ops)" unfolding fin by (simp add: filter_map comp_def replay_get)
  finally show "total_hits N h workers + length (filter snd todo_ops) \<le> length todo_ops"
    using sum_length_filter_compl [of snd todo_ops] by simp
qed

lemma programs_length:
  assumes "0 < workers"
  shows "sum_list (map length (throughput_programs N keys todo_ops capacity workers)) \<le> length keys + length todo_ops"
proof -
  have "sum_list (map (\<lambda>t. length (worker_slice todo_ops workers t)) [0..<workers])
      = length (concat (map (worker_slice todo_ops workers) [0..<workers]))" by (simp add: length_concat comp_def)
  then show ?thesis unfolding slices_partition [OF assms] by (simp add: throughput_programs_def comp_def)
qed

lemma programs_small:
  assumes "lawful_number N"
  shows "\<forall>p\<in>set (throughput_programs N keys todo_ops capacity workers). list_all small_command p"
proof -
  have "small_command (replay N op)" for op
    using assms by (cases op) (auto simp: replay_def lawful_number_def)
  then show ?thesis by (auto simp: throughput_programs_def list_all_iff)
qed

section \<open>Property\<close>

text \<open>
  C28: the throughput scenario accounts for every operation. On either shared map of the crate, with any
  number of threads and under every interleaving, a run that cannot go on has finished all programs; then
  the threads together have performed exactly the recorded operations, each once and, thread after thread,
  in the order of the trace; and the hits that are printed are hits of lookups, so that hits and writes
  add up to no more than the operations.
\<close>

theorem throughput_accounts:
  assumes "lawful_number N" and "capacity \<le> 2 ^ 50" and "0 < workers" and "length keys + length todo_ops \<le> 2 ^ 50"
    and "sharded_new (capacity div 64) = Inr m" and "conc_new (capacity div 4) = Inr c"
  defines "programs \<equiv> throughput_programs N keys todo_ops capacity workers"
  shows "(\<forall>j s. (sharded_step wy ^^ j) (sharded_init wy m (map (map ShardOp) programs)) s \<and> (\<nexists>s'. sharded_step wy s s') \<longrightarrow>
         list_all (\<lambda>p. p = Between []) (spcs s)
         \<and> concat (map (\<lambda>t. answered (Suc t) (shistory s)) [0..<workers]) = map (replay N) todo_ops
         \<and> total_hits N (shistory s) workers + length (filter snd todo_ops) \<le> length todo_ops)
    \<and> (\<forall>j s. (threads_step wy ^^ j) \<lparr>shared = c, pcs = map Ready (map (map Call) programs), history = []\<rparr> s
           \<and> (\<nexists>s'. threads_step wy s s') \<longrightarrow>
         list_all (\<lambda>p. p = Ready []) (pcs s)
         \<and> concat (map (\<lambda>t. answered (Suc t) (history s)) [0..<workers]) = map (replay N) todo_ops
         \<and> total_hits N (history s) workers + length (filter snd todo_ops) \<le> length todo_ops)"
proof (intro conjI allI impI; elim conjE)
  have len: "sum_list (map length programs) \<le> 2 ^ 50" "length programs = Suc workers"
    using programs_length [OF assms(3), of N keys todo_ops capacity] assms(4)
    by (simp_all add: programs_def throughput_programs_def)
  have small: "\<forall>p\<in>set programs. list_all small_command p" unfolding programs_def by (rule programs_small [OF assms(1)])
  fix j
  { fix s assume run: "(sharded_step wy ^^ j) (sharded_init wy m (map (map ShardOp) programs)) s" and stop: "\<nexists>s'. sharded_step wy s s'"
    have n: "capacity div 64 \<le> 2 ^ 53" using assms(2) by simp
    have ok: "\<forall>p\<in>set (map (map ShardOp) programs). list_all sharded_task_ok p" using small by (auto simp: list_all_iff)
    have l: "sum_list (map length (map (map ShardOp) programs)) \<le> 2 ^ 50" using len(1) by (simp add: comp_def)
    have calls: "all_calls wy (map (map ShardOp) programs) \<le> 2 ^ 54" using all_calls_le [of wy "map (map ShardOp) programs"] l by simp
    note f = sharded_finish [OF disjI1 [OF assms(5)] n ok l run]
    then show fin: "list_all (\<lambda>p. p = Between []) (spcs s)" using stop by blast
    have ans: "\<forall>t<Suc workers. answered t (shistory s) = programs ! t" using f fin len(2) by (auto simp: shard_ops)
    have tr: "trace_ok Map.empty (commands (shistory s)) (outcomes (shistory s))"
      using sharded_reachable_inv [OF sharded_runs_reachable [OF run] disjI1 [OF assms(5)] n ok calls] sharded_invD(3) by blast
    note a = accounts [OF assms(3) tr ans [unfolded programs_def]]
    show "concat (map (\<lambda>t. answered (Suc t) (shistory s)) [0..<workers]) = map (replay N) todo_ops"
      "total_hits N (shistory s) workers + length (filter snd todo_ops) \<le> length todo_ops" using a by blast+ }
  fix s assume run: "(threads_step wy ^^ j) \<lparr>shared = c, pcs = map Ready (map (map Call) programs), history = []\<rparr> s"
    and stop: "\<nexists>s'. threads_step wy s s'"
  have n: "capacity div 4 \<le> 2 ^ 53" using assms(2) by simp
  have c: "with_config (capacity div 4) False False = Inr c" using assms(6) by (simp add: conc_new_def)
  have ok: "\<forall>p\<in>set (map (map Call) programs). list_all task_ok p" using small by (auto simp: list_all_iff task_ok_def)
  have l: "sum_list (map length (map (map Call) programs)) \<le> 2 ^ 54" using len(1) by (simp add: comp_def)
  note f = conc_finish [OF c n ok l run]
  then show fin: "list_all (\<lambda>p. p = Ready []) (pcs s)" using stop by blast
  have "ops (map Call p) = p" for p by (induction p) (simp_all add: map_filter_simps)
  then have ans: "\<forall>t<Suc workers. answered t (history s) = programs ! t" using f fin len(2) by auto
  have tr: "trace_ok Map.empty (commands (history s)) (outcomes (history s))"
    using threads_reachable_inv [OF runs_reachable [OF run] new_map_ready [OF c n] ok l] unfolding threads_inv_def by blast
  note a = accounts [OF assms(3) tr ans [unfolded programs_def]]
  show "concat (map (\<lambda>t. answered (Suc t) (history s)) [0..<workers]) = map (replay N) todo_ops"
    "total_hits N (history s) workers + length (filter snd todo_ops) \<le> length todo_ops" using a by blast+
qed

theorem throughput_accounts_witness:
  "\<exists>m j s. sharded_new 1 = Inr m
     \<and> (sharded_step demo_hash ^^ j) (sharded_init demo_hash m
          (map (map ShardOp) (throughput_programs number_u32 [5, 6] [(5, False), (6, True), (5, False), (7, False)] 64 4))) s
     \<and> concat (map (\<lambda>t. answered (Suc t) (shistory s)) [0..<4])
         = map (replay number_u32) [(5, False), (6, True), (5, False), (7, False)]
     \<and> total_hits number_u32 (shistory s) 4 \<le> 3"
proof -
  let ?o = "[(5, False), (6, True), (5, False), (7, False)] :: (u64 \<times> bool) list"
  let ?P = "map (map ShardOp) (throughput_programs number_u32 [5, 6] ?o 64 4)"
  have one: "(1::nat) \<le> 2 ^ 53" and n: "(16::nat) \<le> 2 ^ 53" "(0::nat) \<le> 2 ^ 54" by simp_all
  obtain m where m: "sharded_new (64 div 64) = Inr m" using sharded_new_ex [OF one] by auto
  obtain c where c: "conc_new (64 div 4) = Inr c" using conc_ready_start [OF n, of False False] by (auto simp: conc_new_def)
  obtain j s where s: "(sharded_step demo_hash ^^ j) (sharded_init demo_hash m ?P) s" "\<nexists>s'. sharded_step demo_hash s s'"
    using sharded_runs_to_end by blast
  have "concat (map (\<lambda>t. answered (Suc t) (shistory s)) [0..<4]) = map (replay number_u32) ?o
      \<and> total_hits number_u32 (shistory s) 4 + length (filter snd ?o) \<le> length ?o"
    using throughput_accounts [OF lawful_numbers(1) _ _ _ m c, of 4 "[5, 6]" ?o demo_hash] s by simp
  moreover have "length (filter snd ?o) = 1" "length ?o = 4" by simp_all
  ultimately show ?thesis using m s(1) by (intro exI [of _ m] exI [of _ j] exI [of _ s]) auto
qed

end
