(* ===== verification/Footprint.thy ===== *)
theory Footprint
  imports Scenarios
begin

text \<open>
  The footprint probes of the emulator crate, \<^verbatim>\<open>src/qemu-test/src/bin/\<close>: the same loop over a typed map of
  the crate, over a cache of the crate \<^verbatim>\<open>lru\<close> (a parameter, behind the trait of \<open>Cache_Trait\<close>) and without a
  cache. The sums they print exist so that the loops cannot be optimised away; they are shown to be what
  the caches hold, and never more than the probe without a cache adds up. Output and process exit are left out.
\<close>

fun put_loop :: "('c, u32) cache_ops \<Rightarrow> u32 list \<Rightarrow> 'c \<Rightarrow> 'c res" where
  "put_loop I [] c = Inr c"
| "put_loop I (k # ks) c = bindR (cache_insert I c k (k * 3)) (\<lambda>c. put_loop I ks c)"

fun sum_loop :: "('c, u32) cache_ops \<Rightarrow> u32 list \<Rightarrow> 'c \<Rightarrow> u32 \<Rightarrow> (u32 \<times> 'c) res" where
  "sum_loop I [] c acc = Inr (acc, c)"
| "sum_loop I (k # ks) c acc =
     bindR (cache_get I c k) (\<lambda>(r, c). sum_loop I ks c (case r of Some v \<Rightarrow> acc + v | None \<Rightarrow> acc))"

text \<open>The probe returns the sum and the number of entries it prints, and the cache.\<close>

definition probe :: "('c, u32) cache_ops \<Rightarrow> 'c \<Rightarrow> (u32 \<times> nat \<times> 'c) res" where
  "probe I c =
     bindR (put_loop I (u32_range 0 256) c) (\<lambda>c.
     bindR (sum_loop I (u32_range 0 256) c 0) (\<lambda>(acc, c). Inr (acc, cache_len I c, c)))"

definition footprint_pulse :: "(bytes \<Rightarrow> u64) \<Rightarrow> (u32 \<times> nat \<times> typed_pulse_map) res" where
  "footprint_pulse wy = bindR (typed_new 16) (\<lambda>c. probe (typed_ops number_u32 wy) c)"

definition footprint_lru :: "('o, u32) cache_ops \<Rightarrow> (nat \<Rightarrow> 'o res) \<Rightarrow> (u32 \<times> nat \<times> 'o) res" where
  "footprint_lru oo lru_new = bindR (lru_new 64) (\<lambda>c. probe oo c)"

fun add_loop :: "u32 list \<Rightarrow> u32 \<Rightarrow> u32" where
  "add_loop [] acc = acc"
| "add_loop (k # ks) acc = add_loop ks (acc + k * 3)"

definition footprint_none :: u32 where
  "footprint_none = add_loop (u32_range 0 256) 0"

section \<open>The loops\<close>

definition tripled :: "(u32 \<rightharpoonup> u32) \<Rightarrow> bool" where
  "tripled m \<longleftrightarrow> (\<forall>k v. m k = Some v \<longrightarrow> v = k * 3)"

lemma tripled_forgets: "forgets m m' \<Longrightarrow> tripled m' \<Longrightarrow> tripled m"
  unfolding tripled_def using forgetsD by metis

lemma put_loop_ok:
  assumes "cache_trait I J st" and "J (length ks + n) c" and "tripled (st c)"
  shows "\<exists>c'. put_loop I ks c = Inr c' \<and> J n c' \<and> tripled (st c') \<and> dom (st c') \<subseteq> dom (st c) \<union> set ks"
  using assms(2,3)
proof (induction ks arbitrary: c)
  case (Cons k ks)
  have "J (Suc (length ks + n)) c" using Cons.prems by simp
  from cache_trait.insert_law [OF assms(1) this, of k "k * 3"] obtain c1 where
    c1: "cache_insert I c k (k * 3) = Inr c1" "J (length ks + n) c1" "forgets (st c1) ((st c)(k \<mapsto> k * 3))" by blast
  have "tripled ((st c)(k \<mapsto> k * 3))" using Cons.prems(2) unfolding tripled_def by auto
  then have "tripled (st c1)" by (rule tripled_forgets [OF c1(3)])
  from Cons.IH [OF c1(2) this] obtain c' where
    "put_loop I ks c1 = Inr c'" "J n c'" "tripled (st c')" "dom (st c') \<subseteq> dom (st c1) \<union> set ks" by blast
  moreover have "dom (st c1) \<subseteq> insert k (dom (st c))" using forgets_dom [OF c1(3)] by simp
  ultimately show ?case using c1(1) by (intro exI [of _ c']) (simp, blast)
qed auto

text \<open>What is added for the keys \<open>ks\<close> of which \<open>m\<close> holds a part.\<close>

fun held_sum :: "(u32 \<rightharpoonup> u32) \<Rightarrow> u32 list \<Rightarrow> nat" where
  "held_sum m [] = 0"
| "held_sum m (k # ks) = (if m k = None then 0 else unat (k * 3)) + held_sum m ks"

lemma held_sum_all: "held_sum m ks \<le> sum_list (map (\<lambda>k. unat (k * 3)) ks)"
  by (induction ks) auto

lemma sum_loop_ok:
  assumes "cache_trait I J st" and "J n c" and "tripled (st c)"
  shows "\<exists>t c'. sum_loop I ks c s = Inr (s + word_of_nat t, c') \<and> t \<le> held_sum (st c) ks \<and> J n c' \<and> forgets (st c') (st c)"
  using assms(2,3)
proof (induction ks arbitrary: c s)
  case Nil
  then show ?case by (auto intro: exI [of _ 0])
next
  case (Cons k ks)
  from cache_trait.get_law [OF assms(1) Cons.prems(1), of k] obtain r c1 where
    g: "cache_get I c k = Inr (r, c1)" "J n c1" "r = None \<or> r = st c k" "forgets (st c1) (st c)" by blast
  have t1: "tripled (st c1)" by (rule tripled_forgets [OF g(4) Cons.prems(2)])
  have mono: "held_sum (st c1) xs \<le> held_sum (st c) xs" for xs
  proof (induction xs)
    case (Cons x xs)
    have "st c1 x = None \<or> st c1 x = st c x" using g(4) by (simp add: forgets_def)
    then show ?case using Cons by auto
  qed simp
  let ?d = "case r of Some v \<Rightarrow> unat v | None \<Rightarrow> 0"
  have d: "?d \<le> (if st c k = None then 0 else unat (k * 3))" using g(3) Cons.prems(2) by (auto simp: tripled_def split: option.split)
  have "(case r of Some v \<Rightarrow> s + v | None \<Rightarrow> s) = s + word_of_nat ?d" by (simp split: option.split)
  moreover obtain t c' where "sum_loop I ks c1 (s + word_of_nat ?d) = Inr (s + word_of_nat ?d + word_of_nat t, c')"
    "t \<le> held_sum (st c1) ks" "J n c'" "forgets (st c') (st c1)" using Cons.IH [OF g(2) t1] by blast
  ultimately show ?case using g(1) d mono [of ks] forgets_trans g(4)
    by (intro exI [of _ "?d + t"] exI [of _ c']) (auto simp: add.assoc)
qed

lemma sum_loop_exact:
  assumes "exact_cache I J st" and "J n c" and "tripled (st c)"
  shows "\<exists>c'. sum_loop I ks c s = Inr (s + word_of_nat (held_sum (st c) ks), c') \<and> J n c' \<and> st c' = st c"
  using assms(2,3)
proof (induction ks arbitrary: c s)
  case (Cons k ks)
  obtain r c1 where g: "cache_get I c k = Inr (r, c1)" "J n c1"
    using cache_trait.get_law [OF exact_cache.axioms(1) [OF assms(1)] Cons.prems(1), of k] by blast
  have e: "r = st c k" "st c1 = st c" using exact_cache.get_exact [OF assms(1) Cons.prems(1) g(1)] by auto
  have "(case r of Some v \<Rightarrow> s + v | None \<Rightarrow> s) = s + word_of_nat (if st c k = None then 0 else unat (k * 3))"
    using e(1) Cons.prems(2) by (auto simp: tripled_def split: option.split)
  moreover obtain c' where
    "sum_loop I ks c1 (s + word_of_nat (if st c k = None then 0 else unat (k * 3)))
       = Inr (s + word_of_nat (if st c k = None then 0 else unat (k * 3)) + word_of_nat (held_sum (st c) ks), c')"
    "J n c'" "st c' = st c" using Cons.IH [of c1] g(2) e(2) Cons.prems(2) by auto
  ultimately show ?case using g(1) by (auto simp: add.assoc)
qed simp

lemma tripled_unat: "k < 256 \<Longrightarrow> unat (word_of_nat k * 3 :: u32) = 3 * k"
  by (simp add: unat_word_ariths unsigned_of_nat take_bit_nat_eq_self)

lemma baseline_sum: "sum_list (map (\<lambda>k. unat (k * 3)) (u32_range 0 256)) = 97920"
proof -
  have "sum_list (map (\<lambda>k. unat (k * 3)) (u32_range 0 256)) = sum_list (map (\<lambda>k. 3 * k) [0..<256])"
    unfolding u32_range_def map_map by (intro arg_cong [of _ _ sum_list] map_cong) (auto simp: tripled_unat)
  also have "\<dots> = 97920" by (simp add: upt_rec)
  finally show ?thesis .
qed

lemma add_loop_sum: "add_loop ks s = s + word_of_nat (sum_list (map (\<lambda>k. unat (k * 3)) ks))"
  by (induction ks arbitrary: s) (auto simp: add.assoc)

lemma footprint_none_value: "unat footprint_none = 97920"
  by (simp add: footprint_none_def add_loop_sum baseline_sum unsigned_of_nat take_bit_nat_eq_self)

lemma below_baseline: "t \<le> held_sum m (u32_range 0 256) \<Longrightarrow> unat (word_of_nat t :: u32) = t \<and> t \<le> 97920"
  using held_sum_all [of m "u32_range 0 256"] baseline_sum by (simp add: unsigned_of_nat take_bit_nat_eq_self)

section \<open>The probe on the typed map\<close>

lemma put_loop_typed: "put_loop (typed_ops number_u32 wy) ks c = insert_loop wy (\<lambda>k. k * 3) ks c"
proof (induction ks arbitrary: c)
  case (Cons k ks)
  have "put_loop (typed_ops number_u32 wy) ks = insert_loop wy (\<lambda>k. k * 3) ks" using Cons by blast
  then show ?case by (simp add: typed_ops_def number_u32_def)
qed simp

lemma sum_loop_buckets:
  "sum_loop (typed_ops number_u32 wy) ks c s = Inr (t, c') \<Longrightarrow> num_buckets (raw c') = num_buckets (raw c)"
proof (induction ks arbitrary: c s)
  case (Cons k ks)
  then obtain r c1 where "typed_get key_u32 val_u32 wy c k = Inr (r, c1)"
    "sum_loop (typed_ops number_u32 wy) ks c1 (case r of Some v \<Rightarrow> s + v | None \<Rightarrow> s) = Inr (t, c')"
    by (auto simp: typed_ops_def number_u32_def)
  moreover have "num_buckets (raw c1) = num_buckets (raw c)"
    using calculation(1) get_num_buckets by (auto simp: typed_get_def)
  ultimately show ?case using Cons.IH by metis
qed simp

text \<open>
  The probe of the crate prints the sum of exactly the values its map holds and at most 64 entries; no probe
  adds up more than the one without a cache.
\<close>

theorem footprint_probes:
  assumes "cache_trait oo J st" and "\<exists>c. lru_new 64 = Inr c \<and> (\<forall>n. J n c) \<and> st c = Map.empty"
  shows "\<exists>s n m s' n' c. footprint_pulse wy = Inr (s, n, m) \<and> n \<le> 64
     \<and> unat s = held_sum (decoded number_u32 (raw_lookup wy (raw m))) (u32_range 0 256) \<and> s \<le> footprint_none
     \<and> footprint_lru oo lru_new = Inr (s', n', c) \<and> s' \<le> footprint_none"
proof -
  let ?I = "typed_ops number_u32 wy" and ?st = "\<lambda>m. decoded number_u32 (raw_lookup wy (raw m))" and ?ks = "u32_range 0 256"
  note e = typed_exact [OF lawful_numbers(1), of wy]
  obtain m0 where m0: "typed_new 16 = Inr m0" "typed_ok wy m0" "num_buckets (raw m0) = 16" "load m0 = 0"
    by (rule new_u32 [of 16 4 wy]) simp_all
  obtain m0' where "typed_new 16 = Inr m0'" "typed_ready number_u32 wy 256 m0'" "?st m0' = Map.empty"
    using typed_new_cached [of 16 number_u32 wy 256] by auto
  then have r0: "typed_ready number_u32 wy (length ?ks + 0) m0" "?st m0 = Map.empty" using m0(1) by (simp_all add: range_set)
  obtain m1 where m1: "put_loop ?I ?ks m0 = Inr m1" "typed_ready number_u32 wy 0 m1" "tripled (?st m1)"
    using put_loop_ok [OF exact_cache.axioms(1) [OF e] r0(1)] r0(2) by (auto simp: tripled_def)
  have nb: "num_buckets (raw m1) = 16"
    using insert_loop_ok [OF m0(2), of ?ks "\<lambda>k. k * 3"] m0(3,4) m1(1) u32_range_distinct [of 256 0]
    by (auto simp: put_loop_typed range_set)
  obtain m2 where m2: "sum_loop ?I ?ks m1 0 = Inr (0 + word_of_nat (held_sum (?st m1) ?ks), m2)" "typed_ready number_u32 wy 0 m2" "?st m2 = ?st m1"
    using sum_loop_exact [OF e m1(2,3)] by blast
  have "typed_len m2 \<le> 64"
    using raw_bounds(3) [of wy "raw m2"] m2(2) sum_loop_buckets [OF m2(1)] nb
    by (simp add: typed_ready_def typed_len_def raw_capacity_def)
  moreover have "footprint_pulse wy = Inr (word_of_nat (held_sum (?st m1) ?ks), typed_len m2, m2)"
    using m0(1) m1(1) m2(1) by (simp add: footprint_pulse_def probe_def) (simp add: typed_ops_def)
  moreover obtain c0 where c0: "lru_new 64 = Inr c0" "J (length ?ks + 0) c0" "st c0 = Map.empty" using assms(2) by auto
  obtain c1 where c1: "put_loop oo ?ks c0 = Inr c1" "J 0 c1" "tripled (st c1)"
    using put_loop_ok [OF assms(1) c0(2)] c0(3) by (auto simp: tripled_def)
  obtain t c2 where c2: "sum_loop oo ?ks c1 0 = Inr (0 + word_of_nat t, c2)" "t \<le> held_sum (st c1) ?ks"
    using sum_loop_ok [OF assms(1) c1(2,3)] by blast
  moreover have "footprint_lru oo lru_new = Inr (word_of_nat t, cache_len oo c2, c2)"
    using c0(1) c1(1) c2(1) by (simp add: footprint_lru_def probe_def)
  ultimately show ?thesis using below_baseline [of _ "?st m1"] below_baseline [OF c2(2)] m2(3)
    by (auto simp: word_le_nat_alt footprint_none_value)
qed

end
