(* ===== verification/Display.thy ===== *)
theory Display
  imports Typed Resize
begin

text \<open>
  The text forms of the maps: \<^verbatim>\<open>Debug\<close> and \<^verbatim>\<open>Display\<close> of \<^verbatim>\<open>TypedPulseMap\<close> (\<^verbatim>\<open>src/src/traits.rs\<close>) and of
  \<^verbatim>\<open>ConcurrentPulseMap\<close> (\<^verbatim>\<open>src/src/sync.rs\<close>), with the formatting of the standard library they use: decimal
  integers and floating-point numbers with one digit after the point, rounded half to even from the exact
  value. The load factor and its percentage are computed in 64-bit floating point; capacities are powers of
  two, so that both are shown to be exact and real numbers stand for them.
\<close>

section \<open>Formatting\<close>

fun decimal :: "nat \<Rightarrow> string" where
  "decimal n = (if n < 10 then [char_of (48 + n)] else decimal (n div 10) @ [char_of (48 + n mod 10)])"

declare decimal.simps [simp del]

definition round_half_even :: "real \<Rightarrow> nat" where
  "round_half_even x =
     (let n = nat \<lfloor>x\<rfloor>; d = x - real n in if d < 1 / 2 \<or> d = 1 / 2 \<and> even n then n else n + 1)"

text \<open>The format \<^verbatim>\<open>{:.1}\<close>.\<close>

definition one_digit :: "real \<Rightarrow> string" where
  "one_digit x = (let t = round_half_even (x * 10) in decimal (t div 10) @ ''.'' @ decimal (t mod 10))"

text \<open>\<^verbatim>\<open>debug_struct\<close> on one line; a field that is a string is put between quotes.\<close>

definition debug_stats :: "string \<Rightarrow> nat \<Rightarrow> nat \<Rightarrow> real \<Rightarrow> nat \<Rightarrow> string" where
  "debug_stats name len capacity load evictions =
     name @ '' { len: '' @ decimal len @ '', capacity: '' @ decimal capacity
     @ '', load_factor: '' @ [CHR 0x22] @ one_digit (load * 100) @ ''%'' @ [CHR 0x22]
     @ '', evictions: '' @ decimal evictions @ '' }''"

definition display_stats :: "string \<Rightarrow> nat \<Rightarrow> nat \<Rightarrow> real \<Rightarrow> nat \<Rightarrow> string" where
  "display_stats name len capacity load evictions =
     name @ ''('' @ decimal len @ ''/'' @ decimal capacity @ '' entries, '' @ one_digit (load * 100)
     @ ''% load, '' @ decimal evictions @ '' evictions)''"

section \<open>The implementations\<close>

definition typed_debug :: "typed_pulse_map \<Rightarrow> string" where
  "typed_debug m = debug_stats ''TypedPulseMap'' (typed_len m) (typed_capacity m) (typed_load_factor m) (typed_eviction_count m)"

definition typed_display :: "typed_pulse_map \<Rightarrow> string" where
  "typed_display m = display_stats ''PulseMap'' (typed_len m) (typed_capacity m) (typed_load_factor m) (typed_eviction_count m)"

definition conc_debug :: "concurrent_map \<Rightarrow> string" where
  "conc_debug c = debug_stats ''ConcurrentPulseMap'' (conc_len c) (conc_capacity c) (conc_load_factor c) (conc_eviction_count c)"

definition conc_display :: "concurrent_map \<Rightarrow> string" where
  "conc_display c = display_stats ''ConcurrentPulseMap'' (conc_len c) (conc_capacity c) (conc_load_factor c) (conc_eviction_count c)"

section \<open>Reading numbers back\<close>

text \<open>All decimal numbers of a text, from left to right.\<close>

definition is_digit :: "char \<Rightarrow> bool" where
  "is_digit c \<longleftrightarrow> 48 \<le> (of_char c :: nat) \<and> of_char c \<le> (57 :: nat)"

fun numbers_in :: "string \<Rightarrow> nat option \<Rightarrow> nat list" where
  "numbers_in [] None = []"
| "numbers_in [] (Some n) = [n]"
| "numbers_in (c # cs) acc =
     (if is_digit c then numbers_in cs (Some (10 * (case acc of None \<Rightarrow> 0 | Some n \<Rightarrow> n) + (of_char c - 48)))
      else (case acc of None \<Rightarrow> [] | Some n \<Rightarrow> [n]) @ numbers_in cs None)"

lemma digit_char: "d < 10 \<Longrightarrow> is_digit (char_of (48 + d)) \<and> of_char (char_of (48 + d) :: char) = 48 + (d :: nat)"
  by (simp add: is_digit_def)

lemma read_decimal: "numbers_in (decimal n @ cs) None = numbers_in cs (Some n)"
proof (induction n arbitrary: cs rule: decimal.induct)
  case (1 n)
  show ?case
  proof (cases "n < 10")
    case True
    then show ?thesis using digit_char [of n] by (simp add: decimal.simps [of n])
  next
    case False
    have "n mod 10 < 10" by simp
    note d = digit_char [OF this]
    have "numbers_in (decimal n @ cs) None = numbers_in (char_of (48 + n mod 10) # cs) (Some (n div 10))"
      using 1 [OF False, of "char_of (48 + n mod 10) # cs"] False by (simp add: decimal.simps [of n])
    then show ?thesis using d by simp
  qed
qed

lemma read_text: "list_all (\<lambda>c. \<not> is_digit c) xs \<Longrightarrow> numbers_in (xs @ cs) None = numbers_in cs None"
  by (induction xs) auto

text \<open>Both forms show the same five numbers.\<close>

lemma read_stats:
  fixes load :: real and len capacity evictions :: nat
  assumes "list_all (\<lambda>c. \<not> is_digit c) name"
  defines "t \<equiv> round_half_even (load * 100 * 10)"
  shows "numbers_in (debug_stats name len capacity load evictions) None = [len, capacity, t div 10, t mod 10, evictions]"
    and "numbers_in (display_stats name len capacity load evictions) None = [len, capacity, t div 10, t mod 10, evictions]"
proof -
  note simps = read_text [OF assms(1)] read_decimal one_digit_def t_def is_digit_def Let_def
  show "numbers_in (debug_stats name len capacity load evictions) None = [len, capacity, t div 10, t mod 10, evictions]"
    by (simp add: debug_stats_def simps)
  show "numbers_in (display_stats name len capacity load evictions) None = [len, capacity, t div 10, t mod 10, evictions]"
    by (simp add: display_stats_def simps)
qed

section \<open>The percentage\<close>

lemma round_half_even_close:
  assumes "0 \<le> x"
  shows "\<bar>real (round_half_even x) - x\<bar> \<le> 1 / 2"
proof -
  define n where "n = nat \<lfloor>x\<rfloor>"
  have "real n \<le> x" "x < real n + 1" using assms by (simp_all add: n_def)
  moreover have "round_half_even x = (if x - real n < 1 / 2 \<or> x - real n = 1 / 2 \<and> even n then n else n + 1)"
    unfolding round_half_even_def Let_def n_def ..
  ultimately show ?thesis by (auto simp: abs_if)
qed

text \<open>The finite numbers with a 53-bit significand, among which operations are exact when their result is.\<close>

definition is_f64 :: "real \<Rightarrow> bool" where
  "is_f64 x \<longleftrightarrow> (\<exists>a k. x = real a / 2 ^ k \<and> a < 2 ^ 53 \<and> k \<le> 1000)"

lemma percent:
  fixes len capacity k :: nat
  assumes "len \<le> capacity" and "capacity = 4 * 2 ^ k" and "k \<le> 56" and "len < 2 ^ 46"
  defines "load \<equiv> real len / real capacity"
  defines "t \<equiv> round_half_even (load * 100 * 10)"
  shows "is_f64 load" and "is_f64 (load * 100)" and "\<bar>real t / 10 - 100 * load\<bar> \<le> 1 / 20" and "t \<le> 1000"
    and "len = capacity \<Longrightarrow> t = 1000"
proof -
  have cap: "real capacity = 2 ^ (k + 2)" using assms(2) by (simp add: power_add)
  show "is_f64 load" unfolding is_f64_def load_def cap using assms(3,4) by (intro exI [of _ len] exI [of _ "k + 2"]) simp
  show "is_f64 (load * 100)" unfolding is_f64_def load_def cap
    using assms(3,4) by (intro exI [of _ "100 * len"] exI [of _ "k + 2"]) simp
  have "real len \<le> real capacity" "0 < real capacity" using assms(1,2) by (simp_all only: of_nat_le_iff, simp)
  then have b: "0 \<le> load" "load \<le> 1" by (simp_all add: load_def)
  then have "\<bar>real t - load * 1000\<bar> \<le> 1 / 2" using round_half_even_close [of "load * 100 * 10"] by (simp add: t_def mult.commute)
  then show "\<bar>real t / 10 - 100 * load\<bar> \<le> 1 / 20" by linarith
  have "real t < 1001" using \<open>\<bar>real t - load * 1000\<bar> \<le> 1 / 2\<close> b(2) by linarith
  then show "t \<le> 1000" by linarith
  assume "len = capacity"
  then have "load * 100 * 10 = 1000" using assms(2) by (simp add: load_def)
  then show "t = 1000" by (simp add: t_def round_half_even_def)
qed

section \<open>Property\<close>

text \<open>
  C36: the text forms tell the truth. For a typed and for a concurrent map, both \<^verbatim>\<open>Debug\<close> and \<^verbatim>\<open>Display\<close> show,
  and a reader can recover, exactly the length, the capacity, a percentage and the eviction count; the
  percentage is the occupied share of the capacity to within half a tenth, never above 100.0, and the
  floating-point numbers it is computed from are exact.
\<close>

theorem text_forms_read_back:
  assumes "raw_inv wy (raw m)" and "typed_len m < 2 ^ 46" and "conc_inv wy c" and "conc_len c < 2 ^ 46"
  shows "(\<exists>t. numbers_in (typed_debug m) None = [typed_len m, typed_capacity m, t div 10, t mod 10, typed_eviction_count m]
       \<and> numbers_in (typed_display m) None = [typed_len m, typed_capacity m, t div 10, t mod 10, typed_eviction_count m]
       \<and> \<bar>real t / 10 - 100 * (real (typed_len m) / real (typed_capacity m))\<bar> \<le> 1 / 20 \<and> t \<le> 1000
       \<and> is_f64 (typed_load_factor m) \<and> is_f64 (typed_load_factor m * 100))
     \<and> (\<exists>t. numbers_in (conc_debug c) None = [conc_len c, conc_capacity c, t div 10, t mod 10, conc_eviction_count c]
       \<and> numbers_in (conc_display c) None = [conc_len c, conc_capacity c, t div 10, t mod 10, conc_eviction_count c]
       \<and> \<bar>real t / 10 - 100 * (real (conc_len c) / real (conc_capacity c))\<bar> \<le> 1 / 20 \<and> t \<le> 1000
       \<and> is_f64 (conc_load_factor c) \<and> is_f64 (conc_load_factor c * 100))"
proof (intro conjI)
  have names: "list_all (\<lambda>c. \<not> is_digit c) ''TypedPulseMap''" "list_all (\<lambda>c. \<not> is_digit c) ''PulseMap''"
    "list_all (\<lambda>c. \<not> is_digit c) ''ConcurrentPulseMap''" by (simp_all add: is_digit_def)
  obtain k C where g: "geometry (raw m) k" using assms(1) by (auto elim: raw_invE)
  have cap: "typed_capacity m = 4 * 2 ^ k" "k \<le> 56" using g by (auto simp: geometry_def typed_capacity_def raw_capacity_def)
  have le: "typed_len m \<le> typed_capacity m" using raw_bounds(3) [OF assms(1)] by (simp add: typed_len_def typed_capacity_def)
  have load: "typed_load_factor m = real (typed_len m) / real (typed_capacity m)"
    by (simp add: typed_load_factor_def raw_load_factor_def typed_len_def raw_len_def typed_capacity_def)
  show "\<exists>t. numbers_in (typed_debug m) None = [typed_len m, typed_capacity m, t div 10, t mod 10, typed_eviction_count m]
       \<and> numbers_in (typed_display m) None = [typed_len m, typed_capacity m, t div 10, t mod 10, typed_eviction_count m]
       \<and> \<bar>real t / 10 - 100 * (real (typed_len m) / real (typed_capacity m))\<bar> \<le> 1 / 20 \<and> t \<le> 1000
       \<and> is_f64 (typed_load_factor m) \<and> is_f64 (typed_load_factor m * 100)"
    unfolding typed_debug_def typed_display_def read_stats(1) [OF names(1)] read_stats(2) [OF names(2)] load
    using percent [OF le cap assms(2)] by blast
  obtain k C where g: "conc_tab wy c k C" using assms(3) by (auto elim: conc_invE)
  have cap: "conc_capacity c = 4 * 2 ^ k" "k \<le> 56" using conc_tabD(1) [OF g] by (auto simp: inner_shape_def conc_capacity_def)
  have le: "conc_len c \<le> conc_capacity c"
    using card_cells_le [OF conc_tabD(6) [OF g]] conc_tabD(1,3,7) [OF g] by (simp add: conc_len_def conc_capacity_def inner_shape_def)
  show "\<exists>t. numbers_in (conc_debug c) None = [conc_len c, conc_capacity c, t div 10, t mod 10, conc_eviction_count c]
       \<and> numbers_in (conc_display c) None = [conc_len c, conc_capacity c, t div 10, t mod 10, conc_eviction_count c]
       \<and> \<bar>real t / 10 - 100 * (real (conc_len c) / real (conc_capacity c))\<bar> \<le> 1 / 20 \<and> t \<le> 1000
       \<and> is_f64 (conc_load_factor c) \<and> is_f64 (conc_load_factor c * 100)"
    unfolding conc_debug_def conc_display_def read_stats(1) [OF names(3)] read_stats(2) [OF names(3)] conc_load_factor_def
    using percent [OF le cap assms(4)] by blast
qed

theorem text_forms_read_back_witness:
  "\<exists>m c. typed_new 1 = Inr m \<and> with_config 1 True False = Inr c
     \<and> (\<exists>cap ev. numbers_in (typed_display m) None = [0, cap, 0, 0, ev] \<and> numbers_in (conc_debug c) None = [0, conc_capacity c, 0, 0, conc_eviction_count c])"
proof -
  have n: "(1::nat) \<le> 2 ^ 56" "(1::nat) \<le> 2 ^ 53" "(0::nat) \<le> 2 ^ 54" by simp_all
  obtain r where r: "raw_new 1 = Inr r" "raw_inv demo_hash r" "raw_lookup demo_hash r = Map.empty" by (rule raw_new_ok [OF n(1)])
  obtain c where c: "with_config 1 True False = Inr c" "conc_ready demo_hash 0 c" "conc_lookup demo_hash c = Map.empty"
    by (rule conc_ready_start [OF n(2,3), of True False demo_hash])
  let ?m = "\<lparr>raw = r\<rparr>"
  have l: "typed_len ?m = 0" "conc_len c = 0"
    using raw_bounds(1) [OF r(2)] r(3) conc_len_lookup [of demo_hash c] c(2,3) by (simp_all add: typed_len_def conc_ready_def)
  have zero: "t = 0" if "\<bar>real t / 10 - 100 * (real 0 / x)\<bar> \<le> 1 / 20" for t x using that by (cases t) simp_all
  have pre: "raw_inv demo_hash (raw ?m)" "typed_len ?m < 2 ^ 46" "conc_inv demo_hash c" "conc_len c < 2 ^ 46"
    using r(2) c(2) l by (simp_all add: conc_ready_def)
  have "typed_new 1 = Inr ?m" using r(1) by (simp add: typed_new_def)
  then show ?thesis using text_forms_read_back [OF pre] c(1) zero unfolding l by fastforce
qed

end
