(* ===== verification/Soak.thy ===== *)
theory Soak
  imports Sharded_Live Display
begin

text \<open>
  The soak test \<^verbatim>\<open>src/examples/soak_test.rs\<close>: eight writers and four readers work on a sharded map with a
  TTL while the main thread takes statistics, compares them with earlier ones and checks sentinel keys.
  The command line and the clock format are modelled too; resident memory and time are not, so that a run may end
  after any number of rounds. The loops of the threads run until a flag is set: a thread is given the number
  of rounds it makes. The change of the TTL comes before the threads are started; here it is
  the first call of the main thread, which allows more interleavings.
\<close>

section \<open>Command line\<close>

text \<open>\<^verbatim>\<open>str::parse::<u64>\<close>: an optional plus sign and at least one digit, without overflow.\<close>

fun digits_u64 :: "nat \<Rightarrow> string \<Rightarrow> nat option" where
  "digits_u64 n [] = Some n"
| "digits_u64 n (c # cs) =
     (if is_digit c
      then let n' = 10 * n + (of_char c - 48) in if n' < 2 ^ 64 then digits_u64 n' cs else None
      else None)"

definition parse_u64 :: "string \<Rightarrow> u64 option" where
  "parse_u64 s =
     (let ds = (case s of [] \<Rightarrow> [] | c # cs \<Rightarrow> if c = CHR ''+'' then cs else s) in
      if ds = [] then None else map_option word_of_nat (digits_u64 0 ds))"

definition strip_prefix :: "string \<Rightarrow> string \<Rightarrow> string option" where
  "strip_prefix p s = (if take (length p) s = p then Some (drop (length p) s) else None)"

definition DEFAULT_DURATION_SECS :: u64 where "DEFAULT_DURATION_SECS = 24 * 3600"

definition MIN_DURATION_SECS :: u64 where "MIN_DURATION_SECS = 1"

text \<open>The result is an exit status on the left or the duration.\<close>

definition duration_value :: "string \<Rightarrow> nat + u64" where
  "duration_value v =
     (case parse_u64 v of
        Some n \<Rightarrow> if MIN_DURATION_SECS \<le> n then Inr n else Inl 2
      | None \<Rightarrow> Inl 2)"

fun parse_duration_secs :: "string list \<Rightarrow> nat + u64" where
  "parse_duration_secs [] = Inr DEFAULT_DURATION_SECS"
| "parse_duration_secs (arg # args) =
     (if arg = ''--duration'' then (case args of v # _ \<Rightarrow> duration_value v | [] \<Rightarrow> Inl 2)
      else case strip_prefix ''--duration='' arg of
             Some v \<Rightarrow> duration_value v
           | None \<Rightarrow> parse_duration_secs args)"

text \<open>\<^verbatim>\<open>{h:02}:{m:02}:{s:02}\<close>.\<close>

definition two_digits :: "nat \<Rightarrow> string" where
  "two_digits n = (if n < 10 then ''0'' else []) @ decimal n"

definition fmt_elapsed :: "nat \<Rightarrow> string" where
  "fmt_elapsed secs =
     two_digits (secs div 3600) @ '':'' @ two_digits (secs mod 3600 div 60) @ '':'' @ two_digits (secs mod 60)"

section \<open>Threads\<close>

definition NUM_WRITERS :: nat where "NUM_WRITERS = 8"

definition NUM_READERS :: nat where "NUM_READERS = 4"

definition BUCKETS_PER_SHARD :: nat where "BUCKETS_PER_SHARD = 4096"

definition TTL_EPOCHS :: u64 where "TTL_EPOCHS = 10000"

definition SENTINEL_TTL :: u64 where "SENTINEL_TTL = 50000"

definition SENTINEL_COUNT :: nat where "SENTINEL_COUNT = 32"

definition soak_insert :: "u64 \<Rightarrow> u64 \<Rightarrow> u64 \<Rightarrow> command" where
  "soak_insert k v ttl = Insert (key_to_bytes key_u64 k) (val_to_bytes val_u64 v) ttl"

definition soak_get :: "u64 \<Rightarrow> command" where
  "soak_get k = Get (with_key_bytes key_u64 k)"

definition spread :: "u64 \<Rightarrow> nat \<Rightarrow> u64" where
  "spread i tid = (i * 0x9E3779B97F4A7C15) XOR push_bit 48 (word_of_nat tid)"

fun writer_loop :: "nat \<Rightarrow> u64 \<Rightarrow> nat \<Rightarrow> command list" where
  "writer_loop tid i 0 = []"
| "writer_loop tid i (Suc rounds) =
     (let key = spread i tid in
      soak_insert key (key XOR 0xDEADBEEF) 0 # writer_loop tid (i + word_of_nat NUM_WRITERS) rounds)"

fun reader_loop :: "nat \<Rightarrow> u64 \<Rightarrow> nat \<Rightarrow> command list" where
  "reader_loop tid i 0 = []"
| "reader_loop tid i (Suc rounds) =
     soak_get (spread i (tid mod NUM_WRITERS)) # reader_loop tid (i + word_of_nat NUM_READERS) rounds"

definition sentinel_key :: "nat \<Rightarrow> u64" where
  "sentinel_key s = - 1 - word_of_nat s"

definition prime_inserts :: "command list" where
  "prime_inserts = map (\<lambda>s. soak_insert (sentinel_key s) (word_of_nat s * 3 + 1) SENTINEL_TTL) [0..<SENTINEL_COUNT]"

definition sentinel_round :: "nat \<Rightarrow> command list" where
  "sentinel_round tick =
     concat (map (\<lambda>s. [soak_insert (sentinel_key s) (word_of_nat s * 3 + 1 + word_of_nat tick) SENTINEL_TTL,
                       soak_get (sentinel_key s)]) [0..<SENTINEL_COUNT])"

definition soak_main :: "nat \<Rightarrow> sharded_task list" where
  "soak_main ticks = SetTtl TTL_EPOCHS # map ShardOp (prime_inserts @ concat (map (\<lambda>tick. sentinel_round (Suc tick)) [0..<ticks]))"

definition soak_programs :: "nat \<Rightarrow> (nat \<Rightarrow> nat) \<Rightarrow> (nat \<Rightarrow> nat) \<Rightarrow> sharded_task list list" where
  "soak_programs ticks writes reads =
     soak_main ticks
     # map (\<lambda>tid. map ShardOp (writer_loop tid (word_of_nat tid) (writes tid))) [0..<NUM_WRITERS]
     @ map (\<lambda>tid. map ShardOp (reader_loop tid (word_of_nat tid) (reads tid))) [0..<NUM_READERS]"

section \<open>Checks\<close>

datatype soak_failure = LenExceeded | EvictionsDecreased | SentinelWrong | SentinelMissing

definition monitor_check :: "u64 \<Rightarrow> u64 \<Rightarrow> u64 \<Rightarrow> u64 \<Rightarrow> soak_failure + u64" where
  "monitor_check len capacity evictions last_evictions =
     (if capacity < len then Inl LenExceeded
      else if evictions < last_evictions then Inl EvictionsDecreased
      else Inr evictions)"

text \<open>In a tick the main thread visits the shards three times, for the length, the capacity and the evictions.\<close>

fun monitor_loop :: "(sharded_threads list \<times> sharded_threads list \<times> sharded_threads list) list \<Rightarrow> u64 \<Rightarrow> soak_failure + u64" where
  "monitor_loop [] last_evictions = Inr last_evictions"
| "monitor_loop ((us, vs, ws) # ticks) last_evictions =
     (case monitor_check (sharded_len (snapshot us)) (sharded_capacity (snapshot vs)) (sharded_eviction_count (snapshot ws))
             last_evictions of
        Inl e \<Rightarrow> Inl e
      | Inr last_evictions \<Rightarrow> monitor_loop ticks last_evictions)"

definition sentinel_check :: "u64 \<Rightarrow> u64 option \<Rightarrow> soak_failure option" where
  "sentinel_check v r =
     (case r of
        Some got \<Rightarrow> if got = v then None else Some SentinelWrong
      | None \<Rightarrow> Some SentinelMissing)"

section \<open>Reading the command line\<close>

lemma digits_append: "digits_u64 n (xs @ ys) = Option.bind (digits_u64 n xs) (\<lambda>n. digits_u64 n ys)"
  by (induction xs arbitrary: n) (auto simp: Let_def)

lemma digits_decimal: "n < 2 ^ 64 \<Longrightarrow> digits_u64 0 (decimal n) = Some n"
proof (induction n rule: decimal.induct)
  case (1 n)
  show ?case
  proof (cases "n < 10")
    case True
    then show ?thesis using digit_char [of n] by (simp add: decimal.simps [of n])
  next
    case False
    have m: "n mod 10 < 10" by simp
    have "n div 10 < 2 ^ 64" using 1(2) by (metis div_le_dividend le_less_trans)
    then have "digits_u64 0 (decimal (n div 10)) = Some (n div 10)" using 1(1) False by blast
    then show ?thesis using False digit_char [OF m] 1(2)
      by (simp add: decimal.simps [of n] digits_append Let_def)
  qed
qed

lemma decimal_start: "\<exists>c cs. decimal n = c # cs \<and> is_digit c"
proof (induction n rule: decimal.induct)
  case (1 n)
  then show ?case using digit_char [of n] by (cases "n < 10") (auto simp: decimal.simps [of n])
qed

lemma parse_decimal:
  assumes "n < 2 ^ 64"
  shows "parse_u64 (decimal n) = Some (word_of_nat n)"
proof -
  obtain c cs where "decimal n = c # cs" "is_digit c" using decimal_start by blast
  moreover from this(2) have "c \<noteq> CHR ''+''" by (auto simp: is_digit_def)
  ultimately show ?thesis using digits_decimal [OF assms] by (simp add: parse_u64_def)
qed

lemma one_le_nonzero: "1 \<le> (x :: u64) \<longleftrightarrow> x \<noteq> 0"
  by (simp add: word_le_nat_alt unat_gt_0 Suc_le_eq)

text \<open>
  A duration that is given is read back, in either form and after any other arguments; zero is rejected; without one it is a
  day.
\<close>

theorem duration_read_back:
  assumes "n < 2 ^ 64" and "\<forall>arg\<in>set args. arg \<noteq> ''--duration'' \<and> strip_prefix ''--duration='' arg = None"
  shows "parse_duration_secs (args @ [''--duration'', decimal n] @ rest) = (if n = 0 then Inl 2 else Inr (word_of_nat n))"
    and "parse_duration_secs (args @ (''--duration='' @ decimal n) # rest) = (if n = 0 then Inl 2 else Inr (word_of_nat n))"
    and "parse_duration_secs args = Inr 86400"
proof -
  have "(word_of_nat n :: u64) = 0 \<longleftrightarrow> n = 0"
    using assms(1) by (auto simp: word_of_nat_eq_0_iff dest: nat_dvd_not_less)
  then have v: "duration_value (decimal n) = (if n = 0 then Inl 2 else Inr (word_of_nat n))"
    by (auto simp: duration_value_def parse_decimal [OF assms(1)] MIN_DURATION_SECS_def one_le_nonzero)
  have skip: "parse_duration_secs (args @ xs) = parse_duration_secs xs" for xs using assms(2) by (induction args) auto
  show "parse_duration_secs (args @ [''--duration'', decimal n] @ rest) = (if n = 0 then Inl 2 else Inr (word_of_nat n))"
    "parse_duration_secs (args @ (''--duration='' @ decimal n) # rest) = (if n = 0 then Inl 2 else Inr (word_of_nat n))"
    unfolding skip by (simp_all add: v strip_prefix_def)
  show "parse_duration_secs args = Inr 86400" using skip [of "[]"] by (simp add: DEFAULT_DURATION_SECS_def)
qed

lemma read_padded: "numbers_in (two_digits n @ cs) None = numbers_in cs (Some n)"
proof -
  have "numbers_in (decimal n @ cs) (Some 0) = numbers_in (decimal n @ cs) None"
    using decimal_start [of n] by auto
  moreover have "is_digit CHR ''0''" by (simp add: is_digit_def)
  ultimately show ?thesis by (simp add: two_digits_def read_decimal)
qed

theorem elapsed_read_back:
  "\<exists>h m s. numbers_in (fmt_elapsed secs) None = [h, m, s] \<and> m < 60 \<and> s < 60 \<and> secs = 3600 * h + 60 * m + s"
proof -
  have "numbers_in (fmt_elapsed secs) None = [secs div 3600, secs mod 3600 div 60, secs mod 60]"
    using read_padded [of "secs mod 60" "[]"] by (simp add: fmt_elapsed_def read_padded is_digit_def)
  moreover have "secs = 3600 * (secs div 3600) + 60 * (secs mod 3600 div 60) + secs mod 60"
  proof -
    have "secs mod 3600 mod 60 = secs mod 60" by (rule mod_mod_cancel) simp
    then show ?thesis using mult_div_mod_eq [of 3600 secs] mult_div_mod_eq [of 60 "secs mod 3600"] by linarith
  qed
  moreover have "secs mod 3600 div 60 < 60" by (simp add: less_mult_imp_div_less)
  ultimately show ?thesis by (metis mod_less_divisor zero_less_numeral)
qed

section \<open>Writers never write a sentinel\<close>

text \<open>
  The factor of \<open>spread\<close> is odd and has an inverse; the rounds in which some writer would reach a sentinel are
  computed from it, and the first of them is beyond \<open>2 ^ 57\<close>.
\<close>

lemma collisions_late:
  "list_all (\<lambda>tid. list_all (\<lambda>s. 2 ^ 57 \<le> - (0xF1DE83E19937733D * (1 + s + tid * 2 ^ 48)) mod (2 ^ 64 :: int)) [0..31]) [0..7]"
  by code_simp

lemma sentinel_xor:
  assumes "s < 32"
  shows "sentinel_key s XOR push_bit 48 (word_of_nat tid) = - word_of_nat (1 + s + tid * 2 ^ 48)"
proof -
  let ?x = "word_of_nat s :: u64" and ?y = "push_bit 48 (word_of_nat tid) :: u64"
  have "?x AND ?y = 0"
  proof (rule bit_eqI)
    fix n
    have "\<not> bit s n" if "48 \<le> n"
    proof -
      have "s < 2 ^ n" by (rule less_le_trans [OF assms order_trans [OF _ power_increasing [OF that]]]) simp_all
      then show ?thesis by (simp add: bit_iff_odd)
    qed
    then show "bit (?x AND ?y) n = bit (0 :: u64) n" by (auto simp: bit_simps)
  qed
  then have "?x XOR ?y = ?x + ?y" by (rule disjunctive_add_eq_xor [symmetric])
  moreover have "sentinel_key s = NOT ?x" by (simp add: sentinel_key_def not_eq_complement)
  ultimately have "sentinel_key s XOR ?y = NOT (?x + ?y)" by (simp add: xor.assoc)
  also have "\<dots> = - (1 + ?x + ?y)" by (simp add: not_eq_complement)
  also have "1 + ?x + ?y = word_of_nat (1 + s + tid * 2 ^ 48)" by (simp add: push_bit_eq_mult)
  finally show ?thesis .
qed

lemma spread_inverse: "i = 0xF1DE83E19937733D * (spread i tid XOR push_bit 48 (word_of_nat tid))"
proof -
  have "spread i tid XOR push_bit 48 (word_of_nat tid) = i * 0x9E3779B97F4A7C15" by (simp add: spread_def xor.assoc)
  moreover have "(0xF1DE83E19937733D :: u64) * 0x9E3779B97F4A7C15 = 1" by simp
  ultimately show ?thesis using mult.left_commute [of "0xF1DE83E19937733D" i "0x9E3779B97F4A7C15"]
    by (simp only: mult_1_right)
qed

lemma spread_not_sentinel:
  assumes "i < 2 ^ 57" and "tid < 8" and "s < 32"
  shows "spread i tid \<noteq> sentinel_key s"
proof
  assume "spread i tid = sentinel_key s"
  then have i: "i = 0xF1DE83E19937733D * - word_of_nat (1 + s + tid * 2 ^ 48)"
    using spread_inverse [of i tid] sentinel_xor [OF assms(3)] by metis
  let ?c = "1 + int s + int tid * 2 ^ 48"
  have "i = word_of_int (- (0xF1DE83E19937733D * ?c))" unfolding i by simp
  then have "uint i = - (0xF1DE83E19937733D * ?c) mod 2 ^ 64"
    by (simp only: unsigned_of_int take_bit_eq_mod unsigned_of_int) simp
  moreover have "int tid \<in> set [0..7]" "int s \<in> set [0..31]" using assms(2,3) by simp_all
  ultimately have "2 ^ 57 \<le> uint i" using collisions_late unfolding list_all_iff by metis
  then show False using assms(1) by (simp add: word_less_alt)
qed

text \<open>A command that leaves a key alone.\<close>

fun leaves :: "bytes \<Rightarrow> command \<Rightarrow> bool" where
  "leaves k (Insert k' v ttl) \<longleftrightarrow> k' \<noteq> k"
| "leaves k (Get k') \<longleftrightarrow> True"
| "leaves k (Remove k') \<longleftrightarrow> k' \<noteq> k"

lemma shadow_keeps: "\<forall>c\<in>set cs. leaves k c \<Longrightarrow> foldl shadow_step M cs k = M k"
proof (induction cs arbitrary: M)
  case (Cons c cs)
  then show ?case by (cases c) auto
qed simp

lemma key_u64_inj: "key_to_bytes key_u64 a = key_to_bytes key_u64 b \<Longrightarrow> a = b"
  using ku64.key_roundtrip by (metis option.inject)

lemma writer_leaves:
  assumes "tid < 8" and "j < 32"
  shows "unat i + 8 * rounds \<le> 2 ^ 57 \<Longrightarrow> c \<in> set (writer_loop tid i rounds) \<Longrightarrow> leaves (key_to_bytes key_u64 (sentinel_key j)) c"
proof (induction rounds arbitrary: i)
  case (Suc rounds)
  have "i < 2 ^ 57" using Suc.prems(1) by (simp add: word_less_nat_alt)
  then have "spread i tid \<noteq> sentinel_key j" using spread_not_sentinel assms by blast
  moreover have "unat (i + 8) = unat i + 8" by (rule unat_add_lem [THEN iffD1, THEN trans]) (use Suc.prems(1) in simp_all)
  ultimately show ?case using Suc.IH [of "i + 8"] Suc.prems key_u64_inj
    by (auto simp: Let_def soak_insert_def NUM_WRITERS_def)
qed simp

lemma reader_leaves: "c \<in> set (reader_loop tid i rounds) \<Longrightarrow> leaves k c"
  by (induction rounds arbitrary: i) (auto simp: soak_get_def)

lemma loop_lengths [simp]:
  "length (writer_loop tid i rounds) = rounds" "length (reader_loop tid i rounds) = rounds"
  by (induction rounds arbitrary: i) (simp_all add: Let_def)

lemma others_leave:
  assumes "sum_list (map length (soak_programs ticks writes reads)) \<le> 2 ^ 50" and "0 < t" and "t < length (soak_programs ticks writes reads)"
    and "c \<in> set (List.map_filter sharded_op (soak_programs ticks writes reads ! t))" and "j < 32"
  shows "leaves (key_to_bytes key_u64 (sentinel_key j)) c"
proof -
  obtain u where t: "t = Suc u" "u < 12" using assms(2,3) by (cases t) (auto simp: soak_programs_def NUM_WRITERS_def NUM_READERS_def)
  show ?thesis
  proof (cases "u < 8")
    case True
    have p: "soak_programs ticks writes reads ! t = map ShardOp (writer_loop u (word_of_nat u) (writes u))"
      using True by (simp add: t soak_programs_def NUM_WRITERS_def nth_append)
    have "length (soak_programs ticks writes reads ! t) \<le> sum_list (map length (soak_programs ticks writes reads))"
      by (rule member_le_sum_list) (use assms(3) in auto)
    then have "writes u \<le> 2 ^ 50" using assms(1) by (simp add: p)
    moreover have "unat (word_of_nat u :: u64) = u" using True by (simp add: unsigned_of_nat take_bit_nat_eq_self)
    ultimately show ?thesis using writer_leaves [OF True assms(5), of "word_of_nat u" "writes u" c] assms(4) True
      by (simp add: p shard_ops)
  next
    case False
    then obtain w where w: "u = 8 + w" "w < 4" using t(2) that [of "u - 8"] by simp
    then have "soak_programs ticks writes reads ! t = map ShardOp (reader_loop w (word_of_nat w) (reads w))"
      by (simp add: t(1) soak_programs_def NUM_WRITERS_def NUM_READERS_def nth_append)
    then show ?thesis using assms(4) reader_leaves by (auto simp: shard_ops)
  qed
qed

section \<open>Histories of the soak test\<close>

lemma history_threads:
  "sharded_reachable wy m programs s \<Longrightarrow> length (spcs s) = length programs \<and> (\<forall>(t, _)\<in>set (shistory s). t < length programs)"
proof (induction rule: sharded_reachable.induct)
  case start
  show ?case by (simp add: sharded_init_def)
next
  case (step s s')
  from step(2) show ?case using step.IH by cases auto
qed

lemma answered_mem: "(t, cmd, r) \<in> set h \<Longrightarrow> cmd \<in> set (answered t h)"
  by (force simp: answered_def commands_def)

lemma soak_tasks_ok: "p \<in> set (soak_programs ticks writes reads) \<Longrightarrow> list_all sharded_task_ok p"
proof -
  have i: "small_command (soak_insert k v ttl)" and g: "small_command (soak_get k)" for k v ttl
    by (simp_all add: soak_insert_def soak_get_def small_pair_def key_u64_def val_u64_def default_key_def)
  have "list_all small_command (writer_loop tid k n)" "list_all small_command (reader_loop tid k n)" for tid k n
    by (induction n arbitrary: k) (simp_all add: Let_def i g)
  moreover assume "p \<in> set (soak_programs ticks writes reads)"
  ultimately show ?thesis
    by (auto simp: soak_programs_def soak_main_def prime_inserts_def sentinel_round_def list_all_iff i g)
qed

text \<open>Between an insertion and a lookup of the main thread nobody writes the sentinel.\<close>

lemma sentinel_answer:
  assumes "sum_list (map length (soak_programs ticks writes reads)) \<le> 2 ^ 50" and "sharded_new BUCKETS_PER_SHARD = Inr m"
    and "sharded_reachable wy m (soak_programs ticks writes reads) s" and "j < 32" and "list_all (\<lambda>(t, _). t \<noteq> 0) mid"
    and h: "shistory s = pre @ (0, soak_insert (sentinel_key j) v ttl, Done) # mid @ (0, soak_get (sentinel_key j), Value r) # post"
  shows "r = None \<or> r = Some (val_to_bytes val_u64 v)"
proof -
  let ?P = "soak_programs ticks writes reads" and ?k = "key_to_bytes key_u64 (sentinel_key j)"
  have n: "BUCKETS_PER_SHARD \<le> 2 ^ 53" by (simp add: BUCKETS_PER_SHARD_def)
  have "all_calls wy ?P \<le> 2 ^ 54" using all_calls_le [of wy ?P] assms(1) by simp
  note inv = sharded_reachable_inv [OF assms(3) disjI1 [OF assms(2)] n _ this]
  have ans: "set (answered t (shistory s)) \<subseteq> set (List.map_filter sharded_op (?P ! t))" if "t < length ?P" for t
    using inv soak_tasks_ok that by (metis Un_upper1 set_append)
  have "leaves ?k c" if c: "c \<in> set (commands mid)" for c
  proof -
    obtain t out where e: "(t, c, out) \<in> set mid" using c by (force simp: commands_def)
    then have t: "0 < t" "(t, c, out) \<in> set (shistory s)" using assms(5) h by (auto simp: list_all_iff)
    then have l: "t < length ?P" using history_threads [OF assms(3)] by auto
    have "c \<in> set (List.map_filter sharded_op (?P ! t))" using ans [OF l] answered_mem [OF t(2)] by blast
    then show ?thesis by (rule others_leave [OF assms(1) t(1) l _ assms(4)])
  qed
  then have keep: "foldl shadow_step M (commands mid) ?k = M ?k" for M by (intro shadow_keeps) blast
  have "trace_ok Map.empty (commands (shistory s)) (outcomes (shistory s))" using inv soak_tasks_ok sharded_invD(3) by blast
  moreover have l: "length (commands h) = length (outcomes h)" for h by (simp add: commands_def outcomes_def)
  moreover have c: "commands (xs @ x # ys) = commands xs @ fst (snd x) # commands ys" "outcomes (xs @ x # ys) = outcomes xs @ snd (snd x) # outcomes ys"
    for xs ys x by (cases x; simp add: commands_def outcomes_def)+
  ultimately have "outcome_ok (foldl shadow_step (shadow_step (foldl shadow_step Map.empty (commands pre)) (soak_insert (sentinel_key j) v ttl)) (commands mid))
      (soak_get (sentinel_key j)) (Value r)"
    unfolding h by (simp add: trace_ok_append)
  then show ?thesis using keep by (simp add: soak_get_def soak_insert_def key_u64_def default_key_def)
qed

section \<open>Statistics of successive ticks\<close>

abbreviation visited :: "(sharded_threads list \<times> sharded_threads list \<times> sharded_threads list) list \<Rightarrow> sharded_threads list" where
  "visited ticks \<equiv> concat (map (\<lambda>(us, vs, ws). us @ vs @ ws) ticks)"

lemma monitor_loop_ok:
  assumes m: "sharded_new n = Inr m \<or> sharded_with_auto_resize n = Inr m" "n \<le> 2 ^ 53"
    and tasks: "\<forall>p\<in>set programs. list_all sharded_task_ok p" "sum_list (map length programs) \<le> 2 ^ 50"
  shows "list_all (\<lambda>(us, vs, ws). length us = 16 \<and> length vs = 16 \<and> length ws = 16) ticks \<Longrightarrow>
     list_all (sharded_reachable wy m programs) (xs @ visited ticks) \<Longrightarrow> successive wy (xs @ visited ticks) \<Longrightarrow>
     length xs = 16 \<and> evs = sharded_eviction_count (snapshot xs) \<or> xs = [] \<and> evs = 0 \<Longrightarrow> \<exists>e. monitor_loop ticks evs = Inr e"
proof (induction ticks arbitrary: xs evs)
  case (Cons tick ticks)
  obtain us vs ws where t: "tick = (us, vs, ws)" by (cases tick)
  have l: "length us = 16" "length vs = 16" "length ws = 16" using Cons.prems(1) by (simp_all add: t)
  have hd: "hd us \<in> set us" "length xs = 16 \<Longrightarrow> hd xs \<in> set xs" using l(1) by (auto intro: hd_in_set)
  have sorted: "successive wy (us @ vs)" "successive wy (xs @ ws)" "successive wy (ws @ visited ticks)"
    using Cons.prems(3) by (auto simp: t successive_sorted sorted_wrt_append)
  have len: "sharded_len (snapshot us) \<le> sharded_capacity (snapshot vs)"
    using live_statistics [OF m tasks _ sorted(1) l(1,2)] Cons.prems(2) hd(1) by (auto simp: t list_all_iff)
  have "evs \<le> sharded_eviction_count (snapshot ws)"
  proof (cases "xs = []")
    case False
    then have x: "length xs = 16" "evs = sharded_eviction_count (snapshot xs)" using Cons.prems(4) by auto
    then show ?thesis using live_statistics [OF m tasks _ sorted(2) x(1) l(3)] Cons.prems(2) hd(2) by (auto simp: list_all_iff)
  qed (use Cons.prems(4) in simp)
  moreover have "\<exists>e. monitor_loop ticks (sharded_eviction_count (snapshot ws)) = Inr e"
    using Cons.IH [OF _ _ sorted(3)] Cons.prems(1,2) l(3) by (simp add: t)
  ultimately show ?case using leD [OF len] by (auto simp: t monitor_check_def dest: leD)
qed simp

section \<open>Property\<close>

text \<open>
  Why a sentinel can be missing: a new entry among entries that have been accessed is the next victim of
  its bucket.
\<close>

lemma new_entry_is_victim:
  assumes "i < 4" and "get_state v i = Full" and "\<forall>j<4. j \<noteq> i \<longrightarrow> 1 < get_priority v j"
  shows "find_evict_target (on_insert v i) = Some i"
proof (cases "find_evict_target (on_insert v i)")
  case None
  then show ?thesis using assms(1,2) by (auto simp: find_evict_target_None)
next
  case (Some j)
  note j = find_evict_target_Some [OF Some]
  have "get_priority (on_insert v i) j \<le> 1" using j(1) j(3) [OF assms(1)] assms(1,2) by simp
  then have "j = i" using assms(1,3) j(1) by (auto simp: not_less [symmetric] split: if_splits)
  then show ?thesis using Some by simp
qed



end
