(* ===== verification/All_Scenarios.thy ===== *)
theory All_Scenarios
  imports Sharded_Live Display
begin

text \<open>
  The demonstration \<^verbatim>\<open>src/examples/all_scenarios.rs\<close>: six scenarios on a sharded map, each a set of threads. What the
  main thread does before the threads are started and after they are joined is the program of thread 0, so
  that the runs of the example are among the interleavings. The other caches of the fifth scenario, times
  and output are left out.
\<close>

section \<open>Scenarios\<close>

text \<open>Whether the map grows, its buckets per shard, and the programs of the threads.\<close>

type_synonym scenario = "bool \<times> nat \<times> sharded_task list list"

definition put :: "'k pulse_key \<Rightarrow> 'v pulse_value \<Rightarrow> 'k \<Rightarrow> 'v \<Rightarrow> u64 \<Rightarrow> sharded_task" where
  "put K V k v ttl = ShardOp (Insert (key_to_bytes K k) (val_to_bytes V v) ttl)"

definition fetch :: "'k pulse_key \<Rightarrow> 'k \<Rightarrow> sharded_task" where
  "fetch K k = ShardOp (Get (with_key_bytes K k))"

definition to_string :: "string \<Rightarrow> nat list" where
  "to_string s = map of_char s"

definition run_ttl_expiry :: scenario where
  "run_ttl_expiry =
     (let ins = (\<lambda>k v. put key_String val_String (to_string k) (to_string v)) in
      (False, 128,
       [[SetTtl 10,
         ins ''global_ttl_key'' ''will_expire'' 0,
         ins ''short_ttl_key'' ''fast_expire'' 5,
         ins ''immortal_key'' ''lives_forever'' (- 1)]
        @ map (\<lambda>i. ins (''dummy_'' @ decimal i) ''data'' 0) [0..<11]]))"

definition run_high_eviction :: scenario where
  "run_high_eviction =
     (False, 16,
      map (\<lambda>t. map (\<lambda>i. put key_u32 val_u32 (word_of_nat (t * 10000 + i mod 10000)) (word_of_nat i) 0) [0..<20000]) [0..<4])"

definition run_large_payloads :: scenario where
  "run_large_payloads =
     (True, 64,
      map (\<lambda>t. map (\<lambda>i. put key_u32 val_Vec (word_of_nat (t * 1000 + i)) (replicate (10 * 1024) (word_of_nat (i mod 255))) 0)
                 [0..<500]) [0..<4])"

definition run_vip_protection :: scenario where
  "run_vip_protection =
     (False, 16,
      (concat (map (\<lambda>vip. replicate 500 (put key_u32 val_u32 (word_of_nat vip) 9999 0)) [0..<10])
       @ map (\<lambda>vip. fetch key_u32 (word_of_nat vip)) [0..<10])
      # map (\<lambda>t. map (\<lambda>i. put key_u32 val_u32 (word_of_nat (1000 + t * 2000 + i)) 1 0) [0..<2000]) [0..<10])"

definition run_competitor_comparison :: scenario where
  "run_competitor_comparison =
     (False, 16,
      concat (map (\<lambda>vip. replicate 5 (put key_u32 val_u32 (word_of_nat vip) 9999 0)) [0..<10])
      # map (\<lambda>t. map (\<lambda>i. put key_u32 val_u32 (word_of_nat (1000 + t * 10000 + i)) 1 0) [0..<10000]) [0..<10])"

definition lcg :: "u64 \<Rightarrow> u64" where
  "lcg seed = seed * 6364136223846793005 + 1"

definition stress_op :: "nat \<Rightarrow> nat \<Rightarrow> sharded_task" where
  "stress_op t_id i =
     (let seed = lcg (word_of_nat t_id * 1000000 + word_of_nat i);
          key_idx = drop_bit 32 seed mod 10000;
          seed = lcg seed;
          op_type = drop_bit 32 seed mod 10;
          key = to_string (''t'' @ decimal t_id @ ''_'' @ decimal (unat key_idx)) in
      if op_type \<le> 5 then put key_String val_Vec key (replicate 4 42) 0
      else if op_type \<le> 8 then fetch key_String key
      else ShardOp (Remove (with_key_bytes key_String key)))"

definition run_stress_test :: scenario where
  "run_stress_test = (True, 16, map (\<lambda>t_id. map (stress_op t_id) [0..<100000]) [0..<8])"

definition all_scenarios :: "scenario list" where
  "all_scenarios = [run_ttl_expiry, run_high_eviction, run_large_payloads, run_vip_protection, run_competitor_comparison, run_stress_test]"

definition scenario_map :: "bool \<Rightarrow> nat \<Rightarrow> sharded_map res" where
  "scenario_map auto n = (if auto then sharded_with_auto_resize n else sharded_new n)"

section \<open>All pairs are small\<close>

lemma as_bytes_length: "length (as_bytes s) \<le> 4 * length s"
proof (induction s)
  case (Cons c s)
  have "length (encode_char c) \<le> 4" by (simp add: encode_char_def)
  then show ?case using Cons by (simp add: as_bytes_def)
qed (simp add: as_bytes_def)

lemma decimal_length: "length (decimal n) \<le> Suc n"
proof (induction n rule: decimal.induct)
  case (1 n)
  show ?case
  proof (cases "n < 10")
    case False
    then have "length (decimal n) \<le> Suc (Suc (n div 10))" using 1 by (simp add: decimal.simps [of n])
    then show ?thesis using False by linarith
  qed (simp add: decimal.simps [of n])
qed

lemma put_ok [simp]:
  "sharded_task_ok (put K V k v ttl) \<longleftrightarrow> length (key_to_bytes K k) + length (val_to_bytes V v) < 2 ^ 32"
  "sharded_task_ok (fetch K k)"
  by (simp_all add: put_def fetch_def small_pair_def)

lemma codec_lengths [simp]:
  "length (key_to_bytes key_u32 k) = 4" "length (val_to_bytes val_u32 v) = 4" "val_to_bytes val_Vec b = b"
  "key_to_bytes key_String s = as_bytes s" "val_to_bytes val_String s = as_bytes s"
  by (simp_all add: key_u32_def val_u32_def val_Vec_def key_String_def val_String_def default_key_def)

lemma text_length: "length s \<le> 20000 \<Longrightarrow> length (as_bytes (to_string s)) \<le> 80000"
  using as_bytes_length [of "to_string s"] by (simp add: to_string_def)

lemma stress_op_ok: "t < 8 \<Longrightarrow> sharded_task_ok (stress_op t i)"
proof -
  assume t: "t < 8"
  let ?k = "drop_bit 32 (lcg (word_of_nat t * 1000000 + word_of_nat i)) mod 10000 :: u64"
  have "?k < 10000" by (rule word_mod_less_divisor) simp
  then have "unat ?k < 10000" by (simp add: word_less_nat_alt)
  then have "length (''t'' @ decimal t @ ''_'' @ decimal (unat ?k)) \<le> 20000"
    using decimal_length [of t] decimal_length [of "unat ?k"] t by simp
  then show ?thesis using text_length by (fastforce simp: stress_op_def Let_def)
qed

lemma ttl_pair_ok:
  assumes "length k \<le> 20000" and "length v \<le> 20000"
  shows "sharded_task_ok (put key_String val_String (to_string k) (to_string v) ttl)"
  using text_length [OF assms(1)] text_length [OF assms(2)] by simp

lemma scenarios_ok:
  assumes "(auto, n, programs) \<in> set all_scenarios"
  shows "(\<forall>p\<in>set programs. list_all sharded_task_ok p) \<and> sum_list (map length programs) \<le> 2 ^ 50 \<and> n \<le> 2 ^ 53"
proof -
  have d: "length (decimal i) \<le> 19994" if "i < 11" for i using decimal_length [of i] that by simp
  consider "(auto, n, programs) = run_ttl_expiry" | "(auto, n, programs) = run_high_eviction"
    | "(auto, n, programs) = run_large_payloads" | "(auto, n, programs) = run_vip_protection"
    | "(auto, n, programs) = run_competitor_comparison" | "(auto, n, programs) = run_stress_test"
    using assms by (auto simp: all_scenarios_def)
  then show ?thesis
  proof cases
    case 1
    then show ?thesis by (auto simp: run_ttl_expiry_def Let_def list_all_iff simp del: put_ok intro!: ttl_pair_ok d)
  qed (auto simp: run_high_eviction_def run_large_payloads_def run_vip_protection_def run_competitor_comparison_def
        run_stress_test_def list_all_iff stress_op_ok comp_def length_concat sum_list_triv)
qed

lemma scenario_map_new:
  assumes "n \<le> 2 ^ 53"
  shows "\<exists>m. scenario_map auto n = Inr m"
proof -
  obtain m where "bindR (shards_from NUM_SHARDS n auto) (\<lambda>ss. Inr \<lparr>shards = ss\<rparr>) = Inr m"
    using sharded_start [OF assms le0, of auto] by blast
  then show ?thesis by (cases auto) (auto simp: scenario_map_def sharded_new_def sharded_with_auto_resize_def)
qed

lemma snapshot_still: "length (shards (smap s)) = 16 \<Longrightarrow> snapshot (replicate 16 s) = smap s"
  by (cases "smap s") (auto simp: snapshot_def NUM_SHARDS_def intro: nth_equalityI)

text \<open>
  All scenarios complete: the map is constructed, no thread panics or is stuck, every run ends within 214
  steps per call of a shard with every operation answered, and then the length is at most the capacity, which is
  what the second scenario asserts.
\<close>

theorem all_scenarios_complete:
  assumes "(auto, n, programs) \<in> set all_scenarios"
  shows "\<exists>m. scenario_map auto n = Inr m
     \<and> (\<forall>j s. (sharded_step wy ^^ j) (sharded_init wy m programs) s \<longrightarrow>
          j \<le> 214 * all_calls wy programs
          \<and> ((\<exists>s'. sharded_step wy s s') \<or> list_all (\<lambda>p. p = Between []) (spcs s)
               \<and> (\<forall>t<length programs. answered t (shistory s) = List.map_filter sharded_op (programs ! t)))
          \<and> sharded_len (smap s) \<le> sharded_capacity (smap s))"
proof -
  have ok: "\<forall>p\<in>set programs. list_all sharded_task_ok p" "sum_list (map length programs) \<le> 2 ^ 50" "n \<le> 2 ^ 53"
    using scenarios_ok [OF assms] by blast+
  obtain m where m: "scenario_map auto n = Inr m" using scenario_map_new [OF ok(3)] by blast
  then have new: "sharded_new n = Inr m \<or> sharded_with_auto_resize n = Inr m" by (auto simp: scenario_map_def split: if_splits)
  have "sharded_len (smap s) \<le> sharded_capacity (smap s)" if run: "(sharded_step wy ^^ j) (sharded_init wy m programs) s" for j s
  proof -
    have r: "sharded_reachable wy m programs s" by (rule sharded_runs_reachable [OF run])
    have "all_calls wy programs \<le> 2 ^ 54" using all_calls_le [of wy programs] ok(2) by simp
    then have "length (shards (smap s)) = 16" using sharded_reachable_inv [OF r new ok(3,1)] sharded_invD(1) by blast
    moreover have "successive wy (replicate 16 s @ replicate 16 s)"
      unfolding replicate_add [symmetric] by (rule successive_replicate)
    ultimately show ?thesis using live_statistics [OF new ok(3,1,2) _ _ length_replicate length_replicate, of wy s s] r
      by (simp add: snapshot_still)
  qed
  then show ?thesis using sharded_finish [OF new ok(3,1,2)] m by blast
qed

end
