(* ===== verification/Spec2Isabelle.thy ===== *)
theory Spec2Isabelle
  imports Fuzz Locks Meta_Cas Buffer_Race Throughput Footprint Soak All_Scenarios
begin

text \<open>
  \<^bold>\<open>Verification of pulse_map\<close>, a fixed-capacity in-memory cache in Rust. A cache is a power of two of
  64-byte buckets; a bucket is one packed metadata word and four 14-byte slots; a slot holds a small
  pair inline or refers to a block of a slab pool. A full bucket evicts the slot of least priority
  (frequency first, recency second); an entry may expire after a number of later insertions.

  \<^bold>\<open>Parts of the program and theories.\<close> Paths are below \<^verbatim>\<open>src/\<close>.
  \<^item> \<^verbatim>\<open>Prelude\<close>: machine types, results that carry a panic (\<open>res\<close>), checked indexing, the pieces of the
    standard library the crate uses.
  \<^item> \<^verbatim>\<open>Meta\<close>: \<^verbatim>\<open>src/engine/meta.rs\<close>, \<^verbatim>\<open>src/simd.rs\<close>, \<^verbatim>\<open>SlotState\<close> of \<^verbatim>\<open>src/lib.rs\<close>. The packed word is a
    64-bit word, each method a function on it.
  \<^item> \<^verbatim>\<open>Hash\<close>, \<^verbatim>\<open>Slab\<close>, \<^verbatim>\<open>Slot\<close>: \<^verbatim>\<open>src/engine/hash.rs\<close>, \<^verbatim>\<open>slab.rs\<close>, \<^verbatim>\<open>slot.rs\<close>. Raw-pointer blocks are
    byte lists with their allocation size, so an access out of bounds or a deallocation with another
    size is an error value.
  \<^item> \<^verbatim>\<open>Table\<close>, \<^verbatim>\<open>View\<close>, \<^verbatim>\<open>Cache\<close>: \<^verbatim>\<open>src/engine/bucket.rs\<close>, the invariant that ties the bytes of a table to
    a map from positions to pairs, the map from keys to values with their TTL stamps it stands for, and
    the contract \<open>byte_cache\<close> of every map.
  \<^item> \<^verbatim>\<open>Raw\<close>, \<^verbatim>\<open>Demo\<close>: \<^verbatim>\<open>PulseMapRaw\<close> of \<^verbatim>\<open>src/raw.rs\<close>, and a small map evaluated.
  \<^item> \<^verbatim>\<open>Iter\<close>, \<^verbatim>\<open>Codec\<close>, \<^verbatim>\<open>Typed\<close>: \<^verbatim>\<open>src/iter.rs\<close>, the traits and \<^verbatim>\<open>TypedPulseMap\<close> with its entry API of
    \<^verbatim>\<open>src/lib.rs\<close>, \<^verbatim>\<open>Extend\<close> and \<^verbatim>\<open>From<HashMap>\<close> of \<^verbatim>\<open>src/traits.rs\<close>.
  \<^item> \<^verbatim>\<open>Access_Buffer\<close>: the ring of deferred access events, \<^verbatim>\<open>src/engine/access_buffer.rs\<close>.
  \<^item> \<^verbatim>\<open>Sync\<close>, \<^verbatim>\<open>Resize\<close>: \<^verbatim>\<open>ConcurrentPulseMap\<close> of \<^verbatim>\<open>src/sync.rs\<close>; \<^verbatim>\<open>Sharded\<close>: \<^verbatim>\<open>ShardedPulseMap\<close> of
    \<^verbatim>\<open>src/sharded.rs\<close>.
  \<^item> \<^verbatim>\<open>Meta_Cas\<close>, \<^verbatim>\<open>Locks\<close>, \<^verbatim>\<open>Buffer_Race\<close>: any number of threads at the priority updates, the bucket
    locks and the access ring, one atomic operation per step.
  \<^item> \<^verbatim>\<open>Interleave\<close>, \<^verbatim>\<open>Linearizable\<close>: any number of threads running whole operations of the concurrent map,
    resizes included, cut at every lock and every access of shared state. \<^verbatim>\<open>Sharded_Threads\<close>,
    \<^verbatim>\<open>Sharded_Live\<close>: the same for the sharded map, each call inside the shard it belongs to.
  \<^item> \<^verbatim>\<open>Display\<close>: \<^verbatim>\<open>Debug\<close> and \<^verbatim>\<open>Display\<close> of \<^verbatim>\<open>src/traits.rs\<close> and \<^verbatim>\<open>src/sync.rs\<close>.
  \<^item> \<^verbatim>\<open>Inline\<close>, \<^verbatim>\<open>Firmware\<close>, \<^verbatim>\<open>Footprint\<close>: the heap use of the plain map; the bump allocator, the checks of
    the emulator firmware and its footprint probes, \<^verbatim>\<open>qemu-test/src/\<close>.
  \<^item> \<^verbatim>\<open>Cache_Trait\<close>, \<^verbatim>\<open>Evaluation\<close>, \<^verbatim>\<open>Scenarios\<close>: the trait of the evaluation program with its loops and laws,
    its adapters and scenarios, and what they compute, \<^verbatim>\<open>evaluation/src/\<close>; \<^verbatim>\<open>Workload\<close>: its traces and
    hit-rate tables; \<^verbatim>\<open>Contention\<close>, \<^verbatim>\<open>Throughput\<close>: its scenarios with threads, on the steps of the maps.
  \<^item> \<^verbatim>\<open>Soak\<close>: the threads, sentinels and statistics checks of \<^verbatim>\<open>examples/soak_test.rs\<close>;
    \<^verbatim>\<open>All_Scenarios\<close>: the threads of \<^verbatim>\<open>examples/all_scenarios.rs\<close>.
  \<^item> \<^verbatim>\<open>Fuzz\<close>: the fuzz target \<^verbatim>\<open>fuzz/fuzz_targets/fuzz_sequences.rs\<close>.

  \<^bold>\<open>How the parts interact.\<close> The typed maps encode keys and values with the codecs and call a byte-level
  map. A byte-level map hashes the key, picks the bucket, finds candidates by fingerprint in the metadata
  word, compares keys in the slot or the slab, and keeps one TTL stamp per slot. The concurrent map does
  the same under a bucket lock, records accesses in the ring and applies them in later insertions; the
  sharded map routes a key to one of sixteen concurrent maps.

  \<^bold>\<open>What is shown.\<close> For each of the three maps: every operation succeeds from every state that meets the
  invariant and refines the operation on the abstract map, with the exact eviction, expiry and counter
  behaviour (\<open>raw_*_refines\<close>, \<open>conc_*\<close>, \<open>sharded_*\<close>); the three are interpretations of one locale, from which
  the safety of arbitrary runs follows. Resizing loses nothing. The codecs round-trip, the typed map, the
  entry API and the iterators inherit the refinement. The slab never leaves a block's bounds, the access
  ring is a FIFO queue with wrapping counters, the SSE2 matcher equals the scalar one. Under any
  interleaving of their atomic operations, the bucket locks exclude each other and do not deadlock, no
  priority update is lost, and the access ring loses, duplicates and tears no event and makes nobody wait.
  Whole operations are linearizable at their critical sections, and every run of the threads ends, within
  212 steps per operation, with all locks free. The sharded map is linearizable as one map, its threads wait
  only inside a shard, and its statistics are sound although they read one shard after the other. Short
  pairs never allocate after construction. The text forms of the maps can be read back. The fuzz
  target, the checks of the firmware and the assertions of the evaluation never fail, also where they run
  threads; its workloads and tables are complete. The soak test can report a missing sentinel, but none of
  its other failures of the map.

  \<^bold>\<open>Bounds.\<close> \<^verbatim>\<open>usize\<close> has 64 bits and arithmetic wraps. The maps are shown correct up to \<open>2 ^ 56\<close> buckets
  (raw) and, when they grow, as long as initial buckets and insertions stay below \<open>2 ^ 53\<close> and \<open>2 ^ 54\<close>, far
  beyond any memory; a pair must be shorter than \<open>2 ^ 32\<close> bytes, and \<open>slab_oversize_truncated\<close> shows what
  happens otherwise. The retry loop of a resize is a partial function whose result is an
  option, shown to return (one round is enough); a spin on a held lock is the error \<open>Stuck\<close>, shown not to
  occur within one operation; between threads it is a step that has to wait. All other loops are total
  functions. The bound of 212 steps is what an insertion takes that drains 64 events of the ring; a call of
  the sharded map adds its entry and its return. Programs on the sharded map have up to \<open>2 ^ 50\<close> operations
  together. Percentages are printed from exact floating-point numbers while a map has fewer than
  \<open>2 ^ 46\<close> entries. The
  allocator of the firmware has the 32-bit addresses of its target and a heap below 1 GiB.

  \<^bold>\<open>Parameters.\<close> The hash function of the crate \<^verbatim>\<open>wyhash\<close> is the argument \<open>wy\<close> of every definition that
  hashes; nothing is assumed of it. The caches of other crates that the evaluation compares with are an
  argument, of which it is assumed that construction succeeds and that a lookup returns only the value last
  inserted; its random numbers are another, assumed to lie in the requested range. User implementations of the traits enter through the locale of
  the codecs, whose law is the documented round trip.

  \<^bold>\<open>Not modelled.\<close> Weak memory orders (the interleavings are sequentially consistent); a failing allocator
  (a null pointer from it); of the evaluation the command line, child processes, measured times and process
  memory; of the firmware its output; of the soak test its check of process memory; the other examples, benchmarks
  and tests, which only call the crate and measure or compare.
\<close>

section \<open>The three maps answer alike\<close>

text \<open>
  C8: one program, three maps. Any sequence of insertions, lookups and removals runs to its end,
  without a panic or a deadlock, on a new plain, concurrent (with or without automatic resizing) and
  sharded map, whatever the table sizes and the hash functions. In each map every value returned is the
  one last inserted under its key and not removed since, and a removal only reports a key that was
  inserted; so no lookup hits with one value in one map and with another value in another, and the maps
  differ only in what they have evicted or expired.
\<close>

theorem maps_agree:
  assumes "list_all small_command cs" and "inserts cs \<le> 2 ^ 54"
    and "n1 \<le> 2 ^ 56" and "n2 \<le> 2 ^ 53" and "n3 \<le> 2 ^ 53"
  shows "\<exists>r os1 r' c os2 c' m os3 m'. raw_new n1 = Inr r
     \<and> run (raw_insert_ttl wy1) (raw_get wy1) (raw_remove wy1) cs r = Inr (os1, r')
     \<and> with_config n2 auto sharded = Inr c
     \<and> run (conc_insert_internal wy2) (conc_get_bytes wy2) (conc_remove_bytes wy2) cs c = Inr (os2, c')
     \<and> sharded_with_auto_resize n3 = Inr m
     \<and> run (sharded_insert_ttl key_Vec val_Vec wy3) (sharded_get key_Vec val_Vec wy3) (sharded_remove key_Vec wy3) cs m
         = Inr (os3, m')
     \<and> list_all (trace_ok Map.empty cs) [os1, os2, os3]
     \<and> list_all2 no_conflict os1 os2 \<and> list_all2 no_conflict os2 os3 \<and> list_all2 no_conflict os1 os3"
proof -
  have empty: "recorded_in Map.empty Map.empty" by (simp add: recorded_in_def)
  note r = raw_new_start(1,2) [OF assms(3), of wy1] raw_new_start(3) [OF assms(3)]
  obtain os1 r' where r': "run (insert_internal wy1) (raw_get wy1) (raw_remove wy1) cs (projr (raw_new n1)) = Inr (os1, r')"
    "trace_ok Map.empty cs os1"
    using raw.run_sound [OF r(1) _ assms(1), where M = Map.empty] empty r(2) by auto
  obtain c where c: "with_config n2 auto sharded = Inr c" "conc_ready wy2 (inserts cs) c" "conc_lookup wy2 c = Map.empty"
    by (rule conc_ready_start [OF assms(4,2)])
  obtain os2 c' where c': "run (conc_insert_internal wy2) (conc_get_bytes wy2) (conc_remove_bytes wy2) cs c = Inr (os2, c')"
    "trace_ok Map.empty cs os2"
    using conc.run_sound [of wy2 cs 0 c, OF _ _ assms(1), where M = Map.empty] empty c(2,3) by auto
  obtain m where m: "sharded_with_auto_resize n3 = Inr m" "sharded_ready wy3 (inserts cs) m" "sharded_lookup wy3 m = Map.empty"
    using sharded_start [OF assms(5,2), of True wy3] unfolding sharded_with_auto_resize_def by blast
  obtain os3 m' where m': "run (sharded_insert_ttl key_Vec val_Vec wy3) (sharded_get key_Vec val_Vec wy3)
      (sharded_remove key_Vec wy3) cs m = Inr (os3, m')" "trace_ok Map.empty cs os3"
    using sharded.run_sound [of wy3 cs 0 m, OF _ _ assms(1), where M = Map.empty] empty m(2,3) by auto
  have "raw_insert_ttl wy1 = insert_internal wy1" by (intro ext) (simp add: raw_insert_ttl_def)
  moreover have "list_all (trace_ok Map.empty cs) [os1, os2, os3]" using r'(2) c'(2) m'(2) by simp
  ultimately show ?thesis
    using r(3) r' c(1) c' m(1) m' trace_ok_no_conflict [of Map.empty cs] by metis
qed

theorem maps_agree_witness:
  "\<exists>r os1 r' m os3 m'. raw_new 1 = Inr r
     \<and> run (raw_insert_ttl demo_hash) (raw_get demo_hash) (raw_remove demo_hash)
         [Insert [1] [2] 0, Get [1], Remove [1]] r = Inr (os1, r')
     \<and> sharded_with_auto_resize 1 = Inr m
     \<and> run (sharded_insert_ttl key_Vec val_Vec demo_hash) (sharded_get key_Vec val_Vec demo_hash)
         (sharded_remove key_Vec demo_hash) [Insert [1] [2] 0, Get [1], Remove [1]] m = Inr (os3, m')
     \<and> list_all2 no_conflict os1 os3"
proof -
  have "list_all small_command [Insert [1] [2] 0, Get [1], Remove [1]]" by (simp add: small_pair_def)
  from maps_agree [OF this, of 1 1 1 demo_hash True False demo_hash demo_hash] show ?thesis by auto
qed

end
